(* ===== verification/Vectors.thy ===== *)
theory Vectors
  imports Prelude
begin

text \<open>
  Version vectors: \<open>lib/protocol/vector.go\<close>, and \<open>dbVector\<close> of
  \<open>internal/db/sqlite/util.go\<close>, the form in which they are stored.

  A \<open>Vector\<close> is its slice of counters. The operations that the source calls
  ``append-like'' may reuse the backing array of their receiver; the model returns the new
  slice. The invariant \<open>vv_wf\<close> (counters strictly sorted by device ID) is what every
  operation keeps and what \<open>Merge\<close> and \<open>Compare\<close> rely on. The abstraction of a vector
  is the function \<open>Counter_of v\<close> from device IDs to counter values; \<open>Compare\<close> is shown
  to decide the pointwise order of these functions and \<open>Merge\<close> to compute their
  pointwise maximum.
\<close>

section \<open>Data\<close>

type_synonym ShortID = u64

record Counter =
  cID :: ShortID
  cValue :: u64

type_synonym Vector = "Counter list"

datatype Ordering = Equal | Greater | Lesser | ConcurrentLesser | ConcurrentGreater

abbreviation mkCounter :: "ShortID \<Rightarrow> u64 \<Rightarrow> Counter" where
  "mkCounter i x \<equiv> \<lparr>cID = i, cValue = x\<rparr>"

section \<open>Operations\<close>

text \<open>\<open>max(Value+1, now)\<close> is on \<open>uint64\<close>: the addition wraps.\<close>

fun updateWithNow :: "Vector \<Rightarrow> ShortID \<Rightarrow> u64 \<Rightarrow> Vector" where
  "updateWithNow [] i now = [mkCounter i (max 1 now)]"
| "updateWithNow (c # cs) i now =
     (if cID c = i then c\<lparr>cValue := max (cValue c + 1) now\<rparr> # cs
      else if cID c > i then mkCounter i (max 1 now) # c # cs
      else c # updateWithNow cs i now)"

text \<open>\<open>Update\<close> reads the clock; the model takes the Unix time as an argument.\<close>

definition Update :: "Vector \<Rightarrow> ShortID \<Rightarrow> int \<Rightarrow> Vector" where
  "Update v i unixNow = updateWithNow v i (word_of_int unixNow)"

text \<open>
  \<open>Merge\<close>: the arguments are the parts of \<open>v\<close> and \<open>b\<close> from \<open>vi\<close> and \<open>bi\<close> on. An
  inserted counter is compared with itself right after the insertion, so \<open>bi\<close> and
  \<open>vi\<close> both advance.
\<close>

function Merge :: "Vector \<Rightarrow> Vector \<Rightarrow> Vector" where
  "Merge v [] = v"
| "Merge [] (b # bs) = b # bs"
| "Merge (v # vs) (b # bs) =
     (let w = (if cID v > cID b then b # v # vs else v # vs);
          x = hd w;
          x' = (if cID x = cID b \<and> cValue b > cValue x then x\<lparr>cValue := cValue b\<rparr> else x)
      in x' # Merge (tl w) (if cID x' = cID b then bs else b # bs))"
  by pat_completeness auto
termination
  by (relation "measure (\<lambda>(v, b). length v + 2 * length b)") (auto simp: Let_def)

definition Copy :: "Vector \<Rightarrow> Vector" where
  "Copy v = v"

fun Counter_of :: "Vector \<Rightarrow> ShortID \<Rightarrow> u64" where
  "Counter_of [] i = 0"
| "Counter_of (c # cs) i = (if cID c = i then cValue c else Counter_of cs i)"

definition IsEmpty :: "Vector \<Rightarrow> bool" where
  "IsEmpty v \<longleftrightarrow> length v = 0"

fun DropOthers :: "Vector \<Rightarrow> ShortID \<Rightarrow> Vector" where
  "DropOthers [] i = []"
| "DropOthers (c # cs) i = (if cID c = i then [c] else DropOthers cs i)"

text \<open>
  \<open>Compare\<close>: one iteration compares the counters at \<open>ai\<close> and \<open>bi\<close>; a side that is
  exhausted contributes the zero counter. \<open>compareStep\<close> is the \<open>switch\<close>; it either
  returns from the function (\<open>Inl\<close>) or updates \<open>result\<close> (\<open>Inr\<close>).
\<close>

definition aGreater :: "Ordering \<Rightarrow> Ordering + Ordering" where
  "aGreater result = (if result = Lesser then Inl ConcurrentLesser else Inr Greater)"

definition aLesser :: "Ordering \<Rightarrow> Ordering + Ordering" where
  "aLesser result = (if result = Greater then Inl ConcurrentGreater else Inr Lesser)"

definition compareStep ::
  "Counter \<Rightarrow> bool \<Rightarrow> Counter \<Rightarrow> bool \<Rightarrow> Ordering \<Rightarrow> Ordering + Ordering" where
  "compareStep av aMissing bv bMissing result =
     (if cID av = cID bv then
        if cValue av > cValue bv then aGreater result
        else if cValue av < cValue bv then aLesser result
        else Inr result
      else if \<not> aMissing \<and> cID av < cID bv \<or> bMissing then
        if cValue av > 0 then aGreater result else Inr result
      else if \<not> bMissing \<and> cID bv < cID av \<or> aMissing then
        if cValue bv > 0 then aLesser result else Inr result
      else Inr result)"

definition counterAt :: "Vector \<Rightarrow> Counter" where
  "counterAt v = (case v of [] \<Rightarrow> mkCounter 0 0 | c # _ \<Rightarrow> c)"

function compareLoop :: "Vector \<Rightarrow> Vector \<Rightarrow> Ordering \<Rightarrow> Ordering" where
  "compareLoop a b result =
     (if a = [] \<and> b = [] then result
      else
        let av = counterAt a; aMissing = (a = []);
            bv = counterAt b; bMissing = (b = [])
        in case compareStep av aMissing bv bMissing result of
             Inl r \<Rightarrow> r
           | Inr result' \<Rightarrow>
               compareLoop
                 (if a \<noteq> [] \<and> (cID av \<le> cID bv \<or> bMissing) then tl a else a)
                 (if b \<noteq> [] \<and> (cID bv \<le> cID av \<or> aMissing) then tl b else b)
                 result')"
  by pat_completeness auto
termination
proof (relation "measure (\<lambda>(a, b, r). length a + length b)", goal_cases)
  case (2 a b result av aMissing bv bMissing r)
  then have "a \<noteq> [] \<or> b \<noteq> []" by auto
  with 2 show ?case
    by (cases a; cases b) (auto simp: counterAt_def)
qed simp

definition Compare :: "Vector \<Rightarrow> Vector \<Rightarrow> Ordering" where
  "Compare v b = compareLoop v b Equal"

definition VEqual :: "Vector \<Rightarrow> Vector \<Rightarrow> bool" where
  "VEqual v b \<longleftrightarrow> Compare v b = Equal"

definition LesserEqual :: "Vector \<Rightarrow> Vector \<Rightarrow> bool" where
  "LesserEqual v b \<longleftrightarrow> Compare v b = Lesser \<or> Compare v b = Equal"

definition GreaterEqual :: "Vector \<Rightarrow> Vector \<Rightarrow> bool" where
  "GreaterEqual v b \<longleftrightarrow> Compare v b = Greater \<or> Compare v b = Equal"

definition Concurrent :: "Vector \<Rightarrow> Vector \<Rightarrow> bool" where
  "Concurrent v b \<longleftrightarrow> Compare v b = ConcurrentGreater \<or> Compare v b = ConcurrentLesser"

text \<open>Wire structures. A nil message reads as \<open>None\<close>.\<close>

record bep_Counter =
  wId :: u64
  wValue :: u64

type_synonym bep_Vector = "bep_Counter list"

definition Counter_toWire :: "Counter \<Rightarrow> bep_Counter" where
  "Counter_toWire c = \<lparr>wId = cID c, wValue = cValue c\<rparr>"

definition counterFromWire :: "bep_Counter \<Rightarrow> Counter" where
  "counterFromWire w = \<lparr>cID = wId w, cValue = wValue w\<rparr>"

definition Vector_ToWire :: "Vector \<Rightarrow> bep_Vector" where
  "Vector_ToWire v = map Counter_toWire v"

definition VectorFromWire :: "bep_Vector option \<Rightarrow> Vector" where
  "VectorFromWire w = (case w of None \<Rightarrow> [] | Some cs \<Rightarrow> map counterFromWire cs)"

text \<open>The textual form: \<open>%x:%d\<close> of each counter, separated by commas.\<close>

definition counterString :: "Counter \<Rightarrow> string" where
  "counterString c =
     hex_encode (be_encode 8 (unat (cID c))) @ CHR '':'' # show_nat (unat (cValue c))"

definition Vector_String :: "Vector \<Rightarrow> string" where
  "Vector_String v = join_with (CHR '','') (map counterString v)"

datatype vector_error = BadPair | BadId | BadVal | NotAString

text \<open>
  \<open>copy(idbs[8-len(idslice):], idslice)\<close> slices with a negative index, a run-time
  panic, when the ID has more than eight bytes.
\<close>

definition counterFromString :: "string \<Rightarrow> (vector_error, Counter) result" where
  "counterFromString pair =
     (case cut_on (CHR '':'') pair of
        None \<Rightarrow> Err BadPair
      | Some (idStr, valStr) \<Rightarrow>
          (case hex_decode idStr of
             None \<Rightarrow> Err BadId
           | Some idslice \<Rightarrow>
               (if length idslice > 8 then Panic
                else
                  let ident = be_decode (replicate (8 - length idslice) 0 @ idslice)
                  in case parse_uint64 valStr of
                       None \<Rightarrow> Err BadVal
                     | Some val \<Rightarrow> Ok (mkCounter (word_of_nat ident) (word_of_nat val)))))"

definition VectorFromString :: "string \<Rightarrow> (vector_error, Vector) result" where
  "VectorFromString s = traverse_result counterFromString (split_on (CHR '','') s)"

text \<open>
  \<open>dbVector.Value\<close> and \<open>dbVector.Scan\<close>. Scanning sorts the counters by ID;
  \<open>slices.SortFunc\<close> is an insertion sort on the lengths that occur here, and on distinct
  keys every sorting algorithm gives the same list.
\<close>

definition dbVector_Value :: "Vector \<Rightarrow> string" where
  "dbVector_Value v = Vector_String v"

definition dbVector_Scan :: "string \<Rightarrow> (vector_error, Vector) result" where
  "dbVector_Scan str =
     (if str = [] then Ok []
      else bind_result (VectorFromString str) (\<lambda>vec. Ok (sort_key cID vec)))"

section \<open>Invariant and abstract specification\<close>

definition vv_wf :: "Vector \<Rightarrow> bool" where
  "vv_wf v \<longleftrightarrow> sorted_wrt (<) (map cID v)"

text \<open>
  The specification of \<open>Compare\<close>: the pointwise order of the counter functions, where a
  conflict is decided by the device with the smallest ID on which the vectors differ.
\<close>

definition exceeds :: "Vector \<Rightarrow> Vector \<Rightarrow> bool" where
  "exceeds a b \<longleftrightarrow> (\<exists>i. Counter_of a i > Counter_of b i)"

definition first_exceeds :: "Vector \<Rightarrow> Vector \<Rightarrow> bool" where
  "first_exceeds a b \<longleftrightarrow>
     (\<exists>i. Counter_of a i > Counter_of b i \<and> (\<forall>j<i. Counter_of a j = Counter_of b j))"

definition swap_ordering :: "Ordering \<Rightarrow> Ordering" where
  "swap_ordering r = (case r of
       Equal \<Rightarrow> Equal | Greater \<Rightarrow> Lesser | Lesser \<Rightarrow> Greater
     | ConcurrentLesser \<Rightarrow> ConcurrentGreater | ConcurrentGreater \<Rightarrow> ConcurrentLesser)"

section \<open>Library lemmas\<close>

declare compareLoop.simps [simp del]

lemma vv_wf_Nil [simp]: "vv_wf []"
  by (simp add: vv_wf_def)

lemma vv_wf_Cons [simp]:
  "vv_wf (c # cs) \<longleftrightarrow> (\<forall>x\<in>set cs. cID c < cID x) \<and> vv_wf cs"
  by (simp add: vv_wf_def)

lemma Counter_of_absent: "(\<And>x. x \<in> set v \<Longrightarrow> cID x \<noteq> i) \<Longrightarrow> Counter_of v i = 0"
  by (induction v) auto

lemma Counter_of_below: "(\<And>x. x \<in> set v \<Longrightarrow> i < cID x) \<Longrightarrow> Counter_of v i = 0"
  by (rule Counter_of_absent) auto

text \<open>A missing counter is a counter of value zero.\<close>

lemma Counter_of_zero_head:
  "(\<And>x. x \<in> set v \<Longrightarrow> i < cID x) \<Longrightarrow> Counter_of (mkCounter i 0 # v) = Counter_of v"
  by (auto simp: fun_eq_iff Counter_of_below)

lemma exceeds_Cons:
  assumes "cID a = cID b"
    and "\<And>x. x \<in> set as \<Longrightarrow> cID a < cID x" and "\<And>x. x \<in> set bs \<Longrightarrow> cID a < cID x"
  shows "exceeds (a # as) (b # bs) \<longleftrightarrow> cValue a > cValue b \<or> exceeds as bs"
proof -
  have "Counter_of as (cID a) = 0" "Counter_of bs (cID a) = 0"
    using assms(2,3) by (simp_all add: Counter_of_below)
  with assms(1) show ?thesis
    unfolding exceeds_def by (metis Counter_of.simps(2) order_less_irrefl)
qed

lemma first_exceeds_Cons:
  assumes "cID a = cID b"
    and "\<And>x. x \<in> set as \<Longrightarrow> cID a < cID x" and "\<And>x. x \<in> set bs \<Longrightarrow> cID a < cID x"
  shows "first_exceeds (a # as) (b # bs) \<longleftrightarrow>
    cValue a > cValue b \<or> cValue a = cValue b \<and> first_exceeds as bs"
    (is "?L \<longleftrightarrow> ?R")
proof -
  have zero: "Counter_of as j = 0" "Counter_of bs j = 0" if "j \<le> cID a" for j
    using assms(2,3) that by (auto intro!: Counter_of_below dest: le_less_trans)
  show ?thesis
  proof
    assume ?L
    then obtain i where i: "Counter_of (a # as) i > Counter_of (b # bs) i"
      and eq: "\<forall>j<i. Counter_of (a # as) j = Counter_of (b # bs) j"
      by (auto simp: first_exceeds_def)
    show ?R
    proof (cases "i \<le> cID a")
      case True
      with i zero assms(1) show ?thesis by (auto split: if_splits)
    next
      case False
      with eq [rule_format, of "cID a"] assms(1) have "cValue a = cValue b" by simp
      moreover have "Counter_of as j = Counter_of bs j" if "j < i" for j
        using eq [rule_format, OF that] zero [of j] assms(1) by (cases "j = cID a") auto
      ultimately show ?thesis
        using i False assms(1) unfolding first_exceeds_def by (auto split: if_splits)
    qed
  next
    assume ?R
    then show ?L
    proof
      assume "cValue a > cValue b"
      with zero assms(1) show ?L
        unfolding first_exceeds_def by (intro exI [of _ "cID a"]) auto
    next
      assume "cValue a = cValue b \<and> first_exceeds as bs"
      with zero assms(1) show ?L
        unfolding first_exceeds_def by (metis Counter_of.simps(2) order_refl less_irrefl)
    qed
  qed
qed

lemmas exceeds_both = exceeds_Cons first_exceeds_Cons

text \<open>The loop body, once the two counters at hand are known.\<close>

definition stepValues :: "u64 \<Rightarrow> u64 \<Rightarrow> Ordering \<Rightarrow> Ordering + Ordering" where
  "stepValues x y r = (if x > y then aGreater r else if x < y then aLesser r else Inr r)"

definition continue :: "Ordering + Ordering \<Rightarrow> Vector \<Rightarrow> Vector \<Rightarrow> Ordering" where
  "continue s a b = (case s of Inl r \<Rightarrow> r | Inr r \<Rightarrow> compareLoop a b r)"

lemma compareLoop_Nil [simp]: "compareLoop [] [] r = r"
  by (simp add: compareLoop.simps)

lemma compareLoop_unfold:
  "a \<noteq> [] \<or> b \<noteq> [] \<Longrightarrow> compareLoop a b r =
     continue (compareStep (counterAt a) (a = []) (counterAt b) (b = []) r)
       (if a \<noteq> [] \<and> (cID (counterAt a) \<le> cID (counterAt b) \<or> b = []) then tl a else a)
       (if b \<noteq> [] \<and> (cID (counterAt b) \<le> cID (counterAt a) \<or> a = []) then tl b else b)"
  by (subst compareLoop.simps) (simp only: Let_def continue_def if_False HOL.de_Morgan_conj [symmetric])

lemma compareStep_values:
  "compareStep a False (mkCounter 0 0) True r = stepValues (cValue a) 0 r"
  "compareStep (mkCounter 0 0) True b False r = stepValues 0 (cValue b) r"
  "compareStep a False b False r =
     (if cID a = cID b then stepValues (cValue a) (cValue b) r
      else if cID a < cID b then stepValues (cValue a) 0 r
      else stepValues 0 (cValue b) r)"
  by (auto simp: compareStep_def stepValues_def word_gt_0)

lemma compareLoop_left:
  "compareLoop (a # as) [] r = continue (stepValues (cValue a) 0 r) as []"
  by (simp add: compareLoop_unfold counterAt_def compareStep_values)

lemma compareLoop_right:
  "compareLoop [] (b # bs) r = continue (stepValues 0 (cValue b) r) [] bs"
  by (simp add: compareLoop_unfold counterAt_def compareStep_values)

lemma compareLoop_both:
  "compareLoop (a # as) (b # bs) r =
     (if cID a = cID b then continue (stepValues (cValue a) (cValue b) r) as bs
      else if cID a < cID b then continue (stepValues (cValue a) 0 r) as (b # bs)
      else continue (stepValues 0 (cValue b) r) (a # as) bs)"
  by (cases "cID a" "cID b" rule: linorder_cases)
    (auto simp: compareLoop_unfold counterAt_def compareStep_values)

lemmas compareLoop_simps = compareLoop_left compareLoop_right compareLoop_both

text \<open>What the loop computes from each of the three values \<open>result\<close> can have.\<close>

definition loop_spec :: "Ordering \<Rightarrow> Vector \<Rightarrow> Vector \<Rightarrow> Ordering" where
  "loop_spec r a b = (case r of
       Equal \<Rightarrow>
         (if \<not> exceeds a b \<and> \<not> exceeds b a then Equal
          else if \<not> exceeds b a then Greater
          else if \<not> exceeds a b then Lesser
          else if first_exceeds a b then ConcurrentGreater else ConcurrentLesser)
     | Greater \<Rightarrow> (if exceeds b a then ConcurrentGreater else Greater)
     | Lesser \<Rightarrow> (if exceeds a b then ConcurrentLesser else Lesser)
     | _ \<Rightarrow> r)"

lemma loop_spec_cong:
  "Counter_of a = Counter_of a' \<Longrightarrow> Counter_of b = Counter_of b' \<Longrightarrow>
    loop_spec r a b = loop_spec r a' b'"
  by (simp only: loop_spec_def exceeds_def first_exceeds_def)

lemma continue_spec:
  assumes "\<And>r. r \<in> {Equal, Greater, Lesser} \<Longrightarrow> compareLoop as bs r = loop_spec r as bs"
    and "cID a = cID b" and "\<And>x. x \<in> set as \<Longrightarrow> cID a < cID x"
    and "\<And>x. x \<in> set bs \<Longrightarrow> cID a < cID x" and r: "r \<in> {Equal, Greater, Lesser}"
  shows "continue (stepValues (cValue a) (cValue b) r) as bs = loop_spec r (a # as) (b # bs)"
proof -
  note ex = exceeds_Cons [of a b as bs] exceeds_Cons [of b a bs as] first_exceeds_Cons [of a b as bs]
  consider "cValue a < cValue b" | "cValue a = cValue b" | "cValue a > cValue b"
    by (metis linorder_cases)
  then show ?thesis
    using assms r unfolding continue_def stepValues_def aGreater_def aLesser_def
    by cases (auto simp: ex loop_spec_def)
qed

lemma compareLoop_spec:
  "vv_wf a \<Longrightarrow> vv_wf b \<Longrightarrow> r \<in> {Equal, Greater, Lesser} \<Longrightarrow>
    compareLoop a b r = loop_spec r a b"
proof (induction "length a + length b" arbitrary: a b r rule: less_induct)
  case less
  show ?case
  proof (cases a; cases b)
    assume "a = []" "b = []"
    then show ?thesis using less.prems by (auto simp: loop_spec_def exceeds_def)
  next
    fix x xs assume [simp]: "a = x # xs" "b = []"
    have "continue (stepValues (cValue x) (cValue (mkCounter (cID x) 0)) r) xs [] =
        loop_spec r (x # xs) (mkCounter (cID x) 0 # [])"
      using less.prems by (intro continue_spec) (auto intro!: less.hyps)
    moreover have "loop_spec r (x # xs) (mkCounter (cID x) 0 # []) = loop_spec r a b"
      by (intro loop_spec_cong Counter_of_zero_head) auto
    ultimately show ?thesis by (simp add: compareLoop_simps)
  next
    fix y ys assume [simp]: "a = []" "b = y # ys"
    have "continue (stepValues (cValue (mkCounter (cID y) 0)) (cValue y) r) [] ys =
        loop_spec r (mkCounter (cID y) 0 # []) (y # ys)"
      using less.prems by (intro continue_spec) (auto intro!: less.hyps)
    moreover have "loop_spec r (mkCounter (cID y) 0 # []) (y # ys) = loop_spec r a b"
      by (intro loop_spec_cong Counter_of_zero_head) auto
    ultimately show ?thesis by (simp add: compareLoop_simps)
  next
    fix x xs y ys assume ab [simp]: "a = x # xs" "b = y # ys"
    consider "cID x = cID y" | "cID x < cID y" | "cID y < cID x"
      by (metis linorder_cases)
    then show ?thesis
    proof cases
      case 1
      then show ?thesis
        using less.prems by (auto simp: compareLoop_simps intro!: continue_spec less.hyps)
    next
      case 2
      have "continue (stepValues (cValue x) (cValue (mkCounter (cID x) 0)) r) xs (y # ys) =
          loop_spec r (x # xs) (mkCounter (cID x) 0 # y # ys)"
        using less.prems 2 by (intro continue_spec) (auto intro!: less.hyps)
      moreover have "loop_spec r (x # xs) (mkCounter (cID x) 0 # y # ys) =
          loop_spec r (x # xs) (y # ys)"
        using less.prems 2 by (intro loop_spec_cong Counter_of_zero_head) auto
      ultimately show ?thesis using 2 by (auto simp: compareLoop_simps)
    next
      case 3
      have "continue (stepValues (cValue (mkCounter (cID y) 0)) (cValue y) r) (x # xs) ys =
          loop_spec r (mkCounter (cID y) 0 # x # xs) (y # ys)"
        using less.prems 3 by (intro continue_spec) (auto intro!: less.hyps)
      moreover have "loop_spec r (mkCounter (cID y) 0 # x # xs) (y # ys) =
          loop_spec r (x # xs) (y # ys)"
        using less.prems 3 by (intro loop_spec_cong Counter_of_zero_head) auto
      ultimately show ?thesis using 3 by (auto simp: compareLoop_simps)
    qed
  qed
qed

lemma Compare_spec: "vv_wf a \<Longrightarrow> vv_wf b \<Longrightarrow> Compare a b = loop_spec Equal a b"
  by (simp add: Compare_def compareLoop_spec)

lemma not_exceeds: "\<not> exceeds a b \<longleftrightarrow> (\<forall>i. Counter_of a i \<le> Counter_of b i)"
  by (auto simp: exceeds_def not_less)

lemma not_exceeds_both:
  "\<not> exceeds a b \<and> \<not> exceeds b a \<longleftrightarrow> Counter_of a = Counter_of b"
  by (auto simp: not_exceeds fun_eq_iff intro: antisym)

lemma Compare_Equal_iff:
  "vv_wf a \<Longrightarrow> vv_wf b \<Longrightarrow> Compare a b = Equal \<longleftrightarrow> Counter_of a = Counter_of b"
  by (simp add: Compare_spec loop_spec_def flip: not_exceeds_both)

lemma Compare_ge_iff:
  "vv_wf a \<Longrightarrow> vv_wf b \<Longrightarrow>
    Compare a b = Greater \<or> Compare a b = Equal \<longleftrightarrow> (\<forall>i. Counter_of b i \<le> Counter_of a i)"
  by (auto simp: Compare_spec loop_spec_def simp flip: not_exceeds)

lemma Compare_le_iff:
  "vv_wf a \<Longrightarrow> vv_wf b \<Longrightarrow>
    Compare a b = Lesser \<or> Compare a b = Equal \<longleftrightarrow> (\<forall>i. Counter_of a i \<le> Counter_of b i)"
  by (auto simp: Compare_spec loop_spec_def simp flip: not_exceeds)

lemmas Compare_iffs = Compare_Equal_iff Compare_ge_iff Compare_le_iff

lemma Compare_Greater_iff:
  assumes "vv_wf a" "vv_wf b"
  shows "Compare a b = Greater \<longleftrightarrow>
    (\<forall>i. Counter_of b i \<le> Counter_of a i) \<and> Counter_of a \<noteq> Counter_of b"
  using Compare_ge_iff [OF assms] Compare_Equal_iff [OF assms] by auto

lemma Compare_Lesser_iff:
  assumes "vv_wf a" "vv_wf b"
  shows "Compare a b = Lesser \<longleftrightarrow>
    (\<forall>i. Counter_of a i \<le> Counter_of b i) \<and> Counter_of a \<noteq> Counter_of b"
  using Compare_le_iff [OF assms] Compare_Equal_iff [OF assms] by auto

lemma compare_methods:
  "VEqual a b \<longleftrightarrow> Compare a b = Equal"
  "GreaterEqual a b \<longleftrightarrow> Compare a b = Greater \<or> Compare a b = Equal"
  "LesserEqual a b \<longleftrightarrow> Compare a b = Lesser \<or> Compare a b = Equal"
  "Concurrent a b \<longleftrightarrow> Compare a b \<notin> {Equal, Greater, Lesser}"
  by (auto simp: VEqual_def GreaterEqual_def LesserEqual_def Concurrent_def intro: Ordering.exhaust)

text \<open>Swapping the arguments mirrors the result, whether or not the vectors are sorted.\<close>

lemma swap_ordering_simps [simp]:
  "swap_ordering Equal = Equal" "swap_ordering Greater = Lesser" "swap_ordering Lesser = Greater"
  "swap_ordering ConcurrentLesser = ConcurrentGreater"
  "swap_ordering ConcurrentGreater = ConcurrentLesser"
  by (simp_all add: swap_ordering_def)

lemma swap_swap [simp]: "swap_ordering (swap_ordering r) = r"
  by (cases r) simp_all

lemma stepValues_swap:
  "stepValues y x (swap_ordering r) = map_sum swap_ordering swap_ordering (stepValues x y r)"
  by (cases r) (auto simp: stepValues_def aGreater_def aLesser_def)

lemma continue_swap:
  assumes "\<And>r. compareLoop b a (swap_ordering r) = swap_ordering (compareLoop a b r)"
  shows "continue (stepValues y x (swap_ordering r)) b a =
    swap_ordering (continue (stepValues x y r) a b)"
  by (cases "stepValues x y r") (auto simp: stepValues_swap continue_def assms)

lemma compareLoop_swap: "compareLoop b a (swap_ordering r) = swap_ordering (compareLoop a b r)"
proof (induction "length a + length b" arbitrary: a b r rule: less_induct)
  case less
  then show ?case
    by (cases a; cases b) (auto simp: compareLoop_simps intro!: continue_swap)
qed

lemma Compare_swap: "Compare b a = swap_ordering (Compare a b)"
  using compareLoop_swap [of b a Equal] by (simp add: Compare_def)

subsection \<open>Update\<close>

lemma set_updateWithNow:
  "x \<in> set (updateWithNow v i now) \<Longrightarrow> x \<in> set v \<or> cID x = i"
  by (induction v) (auto split: if_splits)

lemma vv_wf_updateWithNow: "vv_wf v \<Longrightarrow> vv_wf (updateWithNow v i now)"
proof (induction v)
  case (Cons c cs)
  then show ?case
    by (auto dest: set_updateWithNow less_trans)
qed simp

lemma Counter_of_updateWithNow:
  "vv_wf v \<Longrightarrow> Counter_of (updateWithNow v i now) j =
     (if j = i then max (Counter_of v i + 1) now else Counter_of v j)"
proof (induction v)
  case (Cons c cs)
  consider "cID c = i" | "cID c > i" | "cID c < i" by (metis linorder_cases)
  then show ?case
  proof cases
    case 2
    with Cons.prems have "Counter_of cs i = 0"
      by (intro Counter_of_below) (auto dest: less_trans)
    with 2 show ?thesis by auto
  qed (use Cons in auto)
qed simp

subsection \<open>Merge\<close>

lemma Merge_step:
  "Merge (v # vs) (b # bs) =
     (if cID v > cID b then b # Merge (v # vs) bs
      else if cID v = cID b then v\<lparr>cValue := max (cValue v) (cValue b)\<rparr> # Merge vs bs
      else v # Merge vs (b # bs))"
  by (auto simp: Let_def max_def)

declare Merge.simps(3) [simp del]

text \<open>Induction along the three ways the merge loop advances.\<close>

lemma merge_induct [case_names NilR NilL Gt Eq Lt]:
  assumes "\<And>v. P v []" and "\<And>b bs. P [] (b # bs)"
    and "\<And>v vs b bs. cID v > cID b \<Longrightarrow> P (v # vs) bs \<Longrightarrow> P (v # vs) (b # bs)"
    and "\<And>v vs b bs. cID v = cID b \<Longrightarrow> P vs bs \<Longrightarrow> P (v # vs) (b # bs)"
    and "\<And>v vs b bs. cID v < cID b \<Longrightarrow> P vs (b # bs) \<Longrightarrow> P (v # vs) (b # bs)"
  shows "P (v :: Vector) b"
proof (induction "length v + length b" arbitrary: v b rule: less_induct)
  case less
  then show ?case
  proof (cases v; cases b)
    fix x xs y ys assume [simp]: "v = x # xs" "b = y # ys"
    have "P (x # xs) ys" "P xs ys" "P xs (y # ys)"
      by (simp_all add: less.hyps)
    then show ?thesis
      using assms(3-5) by (cases "cID x" "cID y" rule: linorder_cases) auto
  qed (simp_all add: assms)
qed

lemma set_Merge_ids: "x \<in> set (Merge v b) \<Longrightarrow> cID x \<in> cID ` set v \<union> cID ` set b"
  by (induction v b rule: merge_induct) (auto simp: Merge_step split: if_splits)

lemma vv_wf_Merge: "vv_wf v \<Longrightarrow> vv_wf b \<Longrightarrow> vv_wf (Merge v b)"
proof (induction v b rule: merge_induct)
  case (Gt v vs b bs)
  then show ?case
    by (auto simp: Merge_step dest!: set_Merge_ids) (metis less_trans)
next
  case (Lt v vs b bs)
  then show ?case
    by (auto simp: Merge_step dest!: set_Merge_ids) (metis less_trans)
qed (auto simp: Merge_step dest!: set_Merge_ids)

lemma Counter_of_Merge:
  "vv_wf v \<Longrightarrow> vv_wf b \<Longrightarrow> Counter_of (Merge v b) i = max (Counter_of v i) (Counter_of b i)"
proof (induction v b rule: merge_induct)
  case (Gt v vs b bs)
  then have "Counter_of vs (cID b) = 0"
    by (intro Counter_of_below) (auto dest: less_trans)
  with Gt show ?case by (auto simp: Merge_step)
next
  case (Lt v vs b bs)
  then have "Counter_of bs (cID v) = 0"
    by (intro Counter_of_below) (auto dest: less_trans)
  with Lt show ?case by (auto simp: Merge_step)
qed (auto simp: Merge_step max_def)

subsection \<open>Textual form\<close>

lemma counterFromString_String: "counterFromString (counterString c) = Ok c"
proof -
  let ?id = "hex_encode (be_encode 8 (unat (cID c)))"
  have "CHR '':'' \<notin> set ?id"
    by (metis set_hex_encode nibble_char_neq)
  then have "cut_on (CHR '':'') (counterString c) = Some (?id, show_nat (unat (cValue c)))"
    by (simp add: counterString_def cut_on_append)
  moreover have "unat x < 2 ^ 64" for x :: u64
    using unsigned_less [of x] by simp
  then have "be_decode (be_encode 8 (unat (cID c))) = unat (cID c)"
    and "parse_uint64 (show_nat (unat (cValue c))) = Some (unat (cValue c))"
    by (auto intro!: be_decode_encode parse_uint64_show)
  ultimately show ?thesis
    by (simp add: counterFromString_def)
qed

lemma comma_counterString: "CHR '','' \<notin> set (counterString c)"
  by (auto simp: counterString_def dest!: set_hex_encode set_show_nat
      dest: nibble_char_neq digit_char_neq)

lemma VectorFromString_String: "v \<noteq> [] \<Longrightarrow> VectorFromString (Vector_String v) = Ok v"
proof -
  assume "v \<noteq> []"
  then have "split_on (CHR '','') (Vector_String v) = map counterString v"
    unfolding Vector_String_def by (intro split_on_join_with) (auto simp: comma_counterString)
  then show ?thesis
    by (simp add: VectorFromString_def traverse_result_Ok counterFromString_String)
qed

lemma counterString_neq_Nil [simp]: "counterString c \<noteq> []"
  by (simp add: counterString_def)

lemma Vector_String_Nil_iff: "Vector_String v = [] \<longleftrightarrow> v = []"
  by (cases v; cases "tl v") (auto simp: Vector_String_def)

lemma sort_key_vv_wf: "vv_wf v \<Longrightarrow> sort_key cID v = v"
  by (simp add: vv_wf_def sorted_sort_id sort_key_id_if_sorted sorted_wrt_mono_rel [of _ "(<)" "(\<le>)"])

subsection \<open>Wire form\<close>

lemma counterFromWire_toWire [wire_simps]: "counterFromWire (Counter_toWire c) = c"
  by (simp add: counterFromWire_def Counter_toWire_def)

lemma VectorFromWire_ToWire [wire_simps]: "VectorFromWire (Some (Vector_ToWire v)) = v"
  by (simp add: VectorFromWire_def Vector_ToWire_def counterFromWire_toWire comp_def)

section \<open>The interface version vectors offer to the rest of the program\<close>

text \<open>
  What the file metadata, the database and the download states rely on: a comparison that
  is reflexive, mirrors when its arguments are swapped, and whose ``greater or equal'' is
  transitive.
\<close>

locale version_order =
  fixes cmp :: "'v \<Rightarrow> 'v \<Rightarrow> Ordering" and wf :: "'v \<Rightarrow> bool"
  assumes cmp_refl: "wf a \<Longrightarrow> cmp a a = Equal"
    and cmp_swap: "cmp b a = swap_ordering (cmp a b)"
    and cmp_trans: "wf a \<Longrightarrow> wf b \<Longrightarrow> wf c \<Longrightarrow>
      cmp a b \<in> {Greater, Equal} \<Longrightarrow> cmp b c \<in> {Greater, Equal} \<Longrightarrow> cmp a c \<in> {Greater, Equal}"
begin

lemma equal_sym: "cmp a b = Equal \<Longrightarrow> cmp b a = Equal"
  using cmp_swap [of b a] by simp

lemma lesser_iff_greater: "cmp a b = Lesser \<longleftrightarrow> cmp b a = Greater"
  using cmp_swap [of a b] by (cases "cmp b a") auto

lemma concurrent_greater_iff: "cmp a b = ConcurrentGreater \<longleftrightarrow> cmp b a = ConcurrentLesser"
  using cmp_swap [of a b] by (cases "cmp b a") auto

lemma not_both_ge:
  "cmp a b \<in> {Greater, Equal} \<Longrightarrow> cmp b a \<in> {Greater, Equal} \<Longrightarrow> cmp a b = Equal"
  using cmp_swap [of b a] by auto

lemma equal_trans:
  assumes "wf a" "wf b" "wf c" "cmp a b = Equal" "cmp b c = Equal"
  shows "cmp a c = Equal"
proof (rule not_both_ge)
  show "cmp a c \<in> {Greater, Equal}"
    using assms cmp_trans [of a b c] by simp
  show "cmp c a \<in> {Greater, Equal}"
    using assms cmp_trans [of c b a] equal_sym by simp
qed

lemma greater_trans:
  assumes wf: "wf a" "wf b" "wf c" and ab: "cmp a b = Greater" and bc: "cmp b c \<in> {Greater, Equal}"
  shows "cmp a c = Greater"
proof -
  have "cmp a c \<in> {Greater, Equal}"
    using cmp_trans [OF wf _ bc] ab by simp
  moreover have "cmp a c \<noteq> Equal"
  proof
    assume "cmp a c = Equal"
    then have "cmp b a \<in> {Greater, Equal}"
      using cmp_trans [of b c a] wf bc equal_sym by simp
    with ab show False using cmp_swap [of b a] by simp
  qed
  ultimately show ?thesis by simp
qed

end

text \<open>Merging gives the least upper bound, up to equality of versions.\<close>

locale version_lattice = version_order +
  fixes merge :: "'v \<Rightarrow> 'v \<Rightarrow> 'v"
  assumes wf_merge: "wf a \<Longrightarrow> wf b \<Longrightarrow> wf (merge a b)"
    and merge_upper: "wf a \<Longrightarrow> wf b \<Longrightarrow>
      cmp (merge a b) a \<in> {Greater, Equal} \<and> cmp (merge a b) b \<in> {Greater, Equal}"
    and merge_least: "wf a \<Longrightarrow> wf b \<Longrightarrow> wf c \<Longrightarrow>
      cmp c a \<in> {Greater, Equal} \<Longrightarrow> cmp c b \<in> {Greater, Equal} \<Longrightarrow> cmp c (merge a b) \<in> {Greater, Equal}"
begin

lemma merge_comm: "wf a \<Longrightarrow> wf b \<Longrightarrow> cmp (merge a b) (merge b a) = Equal"
  by (rule not_both_ge; rule merge_least)
    (assumption | rule wf_merge merge_upper [THEN conjunct1] merge_upper [THEN conjunct2])+

lemma merge_idem: "wf a \<Longrightarrow> cmp (merge a a) a = Equal"
proof (rule not_both_ge)
  assume a: "wf a"
  show "cmp (merge a a) a \<in> {Greater, Equal}"
    using merge_upper [OF a a] by (rule conjunct1)
  show "cmp a (merge a a) \<in> {Greater, Equal}"
    using a by (intro merge_least) (simp_all add: cmp_refl)
qed

lemma merge_assoc:
  assumes "wf a" "wf b" "wf c"
  shows "cmp (merge (merge a b) c) (merge a (merge b c)) = Equal"
proof -
  note up = merge_upper and tr = cmp_trans and wfm = wf_merge
  have ge: "cmp (merge (merge a b) c) x \<in> {Greater, Equal}" if "x \<in> {a, b, c}" for x
    using that assms tr [of "merge (merge a b) c" "merge a b" x] up wfm by auto
  have ge': "cmp (merge a (merge b c)) x \<in> {Greater, Equal}" if "x \<in> {a, b, c}" for x
    using that assms tr [of "merge a (merge b c)" "merge b c" x] up wfm by auto
  show ?thesis
    by (rule not_both_ge; intro merge_least ge ge' wf_merge assms) simp_all
qed

end

text \<open>
  The counter update of a device: it makes the version newer unless the counter is at the
  end of its range.
\<close>

locale version_clock = version_lattice +
  fixes bump :: "'v \<Rightarrow> 'i \<Rightarrow> 't \<Rightarrow> 'v" and saturated :: "'v \<Rightarrow> 'i \<Rightarrow> bool"
  assumes wf_bump: "wf a \<Longrightarrow> wf (bump a i t)"
    and bump_greater: "wf a \<Longrightarrow> \<not> saturated a i \<Longrightarrow> cmp (bump a i t) a = Greater"
begin

lemma merge_bump_dominates:
  assumes "wf a" "wf b" "\<not> saturated (merge a b) i"
  shows "cmp (bump (merge a b) i t) a = Greater \<and> cmp (bump (merge a b) i t) b = Greater"
proof -
  have "cmp (bump (merge a b) i t) (merge a b) = Greater"
    using assms by (simp add: bump_greater wf_merge)
  with assms show ?thesis
    using greater_trans merge_upper wf_merge wf_bump by meson
qed

end

lemma less_plus_one_iff: "(x :: u64) < x + 1 \<longleftrightarrow> x \<noteq> - 1"
proof (cases "1 + x = 0")
  case True
  then have "x = - 1" by (simp add: eq_neg_iff_add_eq_0 add.commute)
  then show ?thesis by simp
next
  case False
  then have "x < x + 1"
    by (simp add: word_less_nat_alt unatSuc add.commute [of x])
  with False show ?thesis by auto
qed

interpretation vv: version_clock Compare vv_wf Merge updateWithNow "\<lambda>v i. Counter_of v i = - 1"
proof unfold_locales
  fix a b c i t
  show "Compare b a = swap_ordering (Compare a b)" by (rule Compare_swap)
  assume a: "vv_wf a"
  then show "Compare a a = Equal" by (simp add: Compare_Equal_iff)
  show wfu: "vv_wf (updateWithNow a i t)" using a by (rule vv_wf_updateWithNow)
  {
    assume "Counter_of a i \<noteq> - 1"
    then have "Counter_of a i < max (Counter_of a i + 1) t"
      by (simp add: less_plus_one_iff less_max_iff_disj)
    then have "\<forall>j. Counter_of a j \<le> Counter_of (updateWithNow a i t) j"
      and "Counter_of (updateWithNow a i t) \<noteq> Counter_of a"
      using a by (auto simp: Counter_of_updateWithNow fun_eq_iff intro!: exI [of _ i])
    then show "Compare (updateWithNow a i t) a = Greater"
      by (simp add: Compare_Greater_iff a wfu)
  }
  assume b: "vv_wf b"
  then show wfm: "vv_wf (Merge a b)" using a by (simp add: vv_wf_Merge)
  show "Compare (Merge a b) a \<in> {Greater, Equal} \<and> Compare (Merge a b) b \<in> {Greater, Equal}"
    using a b wfm by (simp add: Compare_ge_iff Counter_of_Merge)
  assume c: "vv_wf c"
  show "Compare a c \<in> {Greater, Equal}"
    if "Compare a b \<in> {Greater, Equal}" "Compare b c \<in> {Greater, Equal}"
    using that a b c by (simp add: Compare_ge_iff) (meson order_trans)
  show "Compare c (Merge a b) \<in> {Greater, Equal}"
    if "Compare c a \<in> {Greater, Equal}" "Compare c b \<in> {Greater, Equal}"
    using that a b c wfm by (simp add: Compare_ge_iff Counter_of_Merge)
qed

section \<open>Properties\<close>

text \<open>
  Claim C9. \<open>Compare\<close> decides the causal order: on sorted vectors it returns \<open>Equal\<close>
  exactly when every device has the same counter on both sides, \<open>Greater\<close> (\<open>Lesser\<close>)
  exactly when the counters are pointwise greater (smaller) or equal and not all equal, and a
  concurrent result otherwise; among the two concurrent results, \<open>ConcurrentGreater\<close> says
  that the first side has the larger counter at the smallest device ID where they differ.
\<close>

theorem Compare_correct:
  assumes "vv_wf a" and "vv_wf b"
  shows "Compare a b =
    (if Counter_of a = Counter_of b then Equal
     else if \<forall>i. Counter_of b i \<le> Counter_of a i then Greater
     else if \<forall>i. Counter_of a i \<le> Counter_of b i then Lesser
     else if \<exists>i. Counter_of b i < Counter_of a i \<and> (\<forall>j<i. Counter_of a j = Counter_of b j)
       then ConcurrentGreater
     else ConcurrentLesser)"
  by (simp add: Compare_spec [OF assms] loop_spec_def first_exceeds_def
      flip: not_exceeds_both not_exceeds)

theorem Compare_correct_witness:
  "Compare [mkCounter 1 5, mkCounter 7 2] [mkCounter 1 4, mkCounter 9 1] = ConcurrentGreater \<and>
   vv_wf [mkCounter 1 5, mkCounter 7 2] \<and> vv_wf [mkCounter 1 4, mkCounter 9 1]"
proof -
  let ?a = "[mkCounter 1 5, mkCounter 7 2]" and ?b = "[mkCounter 1 4, mkCounter 9 1]"
  have wf: "vv_wf ?a" "vv_wf ?b" by simp_all
  have "\<not> Counter_of ?a = Counter_of ?b"
    by (auto simp: fun_eq_iff intro!: exI [of _ 1])
  moreover have "\<not> (\<forall>i. Counter_of ?b i \<le> Counter_of ?a i)"
    by (auto intro!: exI [of _ 9] simp: not_le)
  moreover have "\<not> (\<forall>i. Counter_of ?a i \<le> Counter_of ?b i)"
    by (auto intro!: exI [of _ 1] simp: not_le)
  moreover have "Counter_of ?b 1 < Counter_of ?a 1 \<and> (\<forall>j<1. Counter_of ?a j = Counter_of ?b j)"
    by auto
  ultimately show ?thesis
    using Compare_correct [OF wf] wf by (metis (no_types, lifting))
qed

text \<open>
  Claim C20. \<open>Merge\<close> refines the pointwise maximum: merging two sorted vectors gives a sorted
  vector whose counter for every device is the larger of the two counters.
\<close>

theorem Merge_correct:
  assumes "vv_wf v" and "vv_wf b"
  shows "vv_wf (Merge v b) \<and> Counter_of (Merge v b) = (\<lambda>i. max (Counter_of v i) (Counter_of b i))"
  using assms by (auto simp: vv_wf_Merge Counter_of_Merge)

theorem Merge_correct_witness:
  "vv_wf (Merge [mkCounter 3 1, mkCounter 5 9] [mkCounter 2 8, mkCounter 3 4]) \<and>
   Counter_of (Merge [mkCounter 3 1, mkCounter 5 9] [mkCounter 2 8, mkCounter 3 4]) 3 = 4"
  using Merge_correct [of "[mkCounter 3 1, mkCounter 5 9]" "[mkCounter 2 8, mkCounter 3 4]"] by simp

text \<open>
  Claim C25. What an update does to the order: the updated vector is strictly newer than the
  old one, except when the device's counter is the largest \<open>uint64\<close>: then the increment
  wraps to zero and the vector becomes equal (if the clock also shows that value) or older.
\<close>

theorem update_Compare:
  assumes "vv_wf v"
  shows "vv_wf (updateWithNow v i now) \<and>
    Compare (updateWithNow v i now) v =
      (if Counter_of v i \<noteq> - 1 then Greater else if now = - 1 then Equal else Lesser)"
proof (cases "Counter_of v i = - 1")
  case True
  have "now \<le> - 1" by simp
  then show ?thesis
    using True assms vv_wf_updateWithNow [OF assms, of i now]
    by (auto simp: Compare_Equal_iff Compare_Lesser_iff Counter_of_updateWithNow fun_eq_iff
        intro!: exI [of _ i])
qed (simp add: assms vv_wf_updateWithNow vv.bump_greater)

theorem update_Compare_witness:
  "Compare (updateWithNow [mkCounter 4 7] 4 3) [mkCounter 4 7] = Greater \<and>
   Compare (updateWithNow [mkCounter 4 (- 1)] 4 3) [mkCounter 4 (- 1)] = Lesser"
  using update_Compare [of "[mkCounter 4 7]" 4 3] update_Compare [of "[mkCounter 4 (- 1)]" 4 3]
  by simp

text \<open>
  Claim C18. How a conflict is resolved: a device that merges two versions and then counts its
  own update obtains a version that is strictly newer than both, hence in conflict with neither.
\<close>

theorem merge_update_dominates:
  assumes "vv_wf a" and "vv_wf b" and "Counter_of (Merge a b) i \<noteq> - 1"
  shows "Compare (updateWithNow (Merge a b) i now) a = Greater \<and>
    Compare (updateWithNow (Merge a b) i now) b = Greater"
  using assms by (rule vv.merge_bump_dominates)

theorem merge_update_dominates_witness:
  "Compare [mkCounter 1 3, mkCounter 2 5] [mkCounter 1 2, mkCounter 2 6] = ConcurrentGreater \<and>
   Compare (updateWithNow (Merge [mkCounter 1 3, mkCounter 2 5] [mkCounter 1 2, mkCounter 2 6]) 2 0)
     [mkCounter 1 2, mkCounter 2 6] = Greater"
proof -
  let ?a = "[mkCounter 1 3, mkCounter 2 5]" and ?b = "[mkCounter 1 2, mkCounter 2 6]"
  have "Counter_of (Merge ?a ?b) 2 \<noteq> - 1" by (simp add: Merge_step)
  then have "Compare (updateWithNow (Merge ?a ?b) 2 0) ?b = Greater"
    using merge_update_dominates [of ?a ?b 2 0] by simp
  moreover have "Compare ?a ?b = ConcurrentGreater"
    by (simp add: Compare_def compareLoop_simps continue_def stepValues_def aGreater_def aLesser_def)
  ultimately show ?thesis by simp
qed

text \<open>
  A stored version vector reads back unchanged: scanning the database text of a
  sorted vector (the empty vector included) succeeds and returns the vector.
\<close>

lemma dbVector_roundtrip:
  assumes "vv_wf v"
  shows "dbVector_Scan (dbVector_Value v) = Ok v"
  using assms
  by (cases "v = []")
    (simp_all add: dbVector_Scan_def dbVector_Value_def Vector_String_Nil_iff
      VectorFromString_String sort_key_vv_wf)

end
