(* ===== verification/Device_ID.thy ===== *)
theory Device_ID
  imports Vectors
begin

text \<open>
  Device identities: \<open>lib/protocol/luhn.go\<close>, \<open>lib/protocol/deviceid.go\<close> and
  \<open>lib/protocol/indexid.go\<close>, with the base32 codec of the standard library that they use.

  A device ID is the 32-byte SHA-256 hash of a certificate. Its textual form is the
  base32 encoding without padding, in four groups of 13 characters, each followed by a check
  character, printed in chunks of seven. The theory shows that the textual form always exists
  and parses back, and that the check characters expose every single mistyped character.
\<close>

section \<open>Base32\<close>

definition luhnBase32 :: string where
  "luhnBase32 = ''ABCDEFGHIJKLMNOPQRSTUVWXYZ234567''"

primrec bits_of :: "nat \<Rightarrow> nat \<Rightarrow> bool list" where
  "bits_of 0 x = []"
| "bits_of (Suc n) x = bits_of n (x div 2) @ [odd x]"

definition bits_val :: "bool list \<Rightarrow> nat" where
  "bits_val bs = foldl (\<lambda>acc b. 2 * acc + of_bool b) 0 bs"

function chunks :: "nat \<Rightarrow> 'a list \<Rightarrow> 'a list list" where
  "chunks n xs = (if n = 0 \<or> xs = [] then [] else take n xs # chunks n (drop n xs))"
  by pat_completeness auto
termination
  by (relation "measure (length \<circ> snd)") auto

declare chunks.simps [simp del]

text \<open>One quantum of at most five bytes: the bits, padded to whole digits, and \<open>=\<close> up to
  eight characters.\<close>

definition byte_stream :: "byte list \<Rightarrow> bool list" where
  "byte_stream bs = concat (map (bits_of 8 \<circ> unat) bs)"

definition pad_bits :: "bool list \<Rightarrow> bool list" where
  "pad_bits bs = bs @ replicate ((5 - length bs mod 5) mod 5) False"

definition b32_quantum :: "byte list \<Rightarrow> string" where
  "b32_quantum bs =
     (let ds = map (\<lambda>g. luhnBase32 ! bits_val g) (chunks 5 (pad_bits (byte_stream bs)))
      in ds @ replicate (8 - length ds) (CHR ''=''))"

definition base32_encode :: "byte list \<Rightarrow> string" where
  "base32_encode bs = concat (map b32_quantum (chunks 5 bs))"

definition b32_val :: "char \<Rightarrow> nat option" where
  "b32_val c =
     (let n = of_char c :: nat in
      if 65 \<le> n \<and> n \<le> 90 then Some (n - 65)
      else if 50 \<le> n \<and> n \<le> 55 then Some (n - 24)
      else None)"

text \<open>
  Reading one quantum of the input: the digits read, whether padding ended the input, and the
  rest. The three failures are missing padding, malformed padding and an invalid character.
\<close>

fun b32_read :: "nat \<Rightarrow> nat list \<Rightarrow> string \<Rightarrow> (nat list \<times> bool \<times> string) option" where
  "b32_read j acc [] = (if j \<ge> 8 then Some (acc, False, []) else None)"
| "b32_read j acc (c # src) =
     (if j \<ge> 8 then Some (acc, False, c # src)
      else if c = CHR ''='' \<and> j \<ge> 2 \<and> length src < 8 then
        if length src + j < 7 then None
        else if \<exists>k<7 - j. k < length src \<and> src ! k \<noteq> CHR ''='' then None
        else if j = 1 \<or> j = 3 \<or> j = 6 then None
        else Some (acc, True, src)
      else case b32_val c of
             None \<Rightarrow> None
           | Some d \<Rightarrow> b32_read (j + 1) (acc @ [d]) src)"

definition digits_bytes :: "nat list \<Rightarrow> byte list" where
  "digits_bytes ds =
     map (word_of_nat \<circ> bits_val)
       (chunks 8 (take (8 * (5 * length ds div 8)) (concat (map (bits_of 5) ds))))"

lemma b32_read_shorter:
  "b32_read j acc src = Some (ds, ended, rest) \<Longrightarrow> j < 8 \<Longrightarrow> length rest < length src"
proof (induction j acc src rule: b32_read.induct)
  case (2 j acc c src)
  then show ?case
    by (cases "j + 1 < 8"; cases src) (auto split: if_splits option.splits)
qed auto

function b32_decode_loop :: "string \<Rightarrow> byte list option" where
  "b32_decode_loop src =
     (if src = [] then Some []
      else case b32_read 0 [] src of
             None \<Rightarrow> None
           | Some (ds, ended, rest) \<Rightarrow>
               (if ended then Some (digits_bytes ds)
                else map_option ((@) (digits_bytes ds)) (b32_decode_loop rest)))"
  by pat_completeness auto
termination
  by (relation "measure length") (auto dest: b32_read_shorter)

declare b32_decode_loop.simps [simp del]

text \<open>\<open>DecodeString\<close> drops line breaks first.\<close>

definition base32_decode :: "string \<Rightarrow> byte list option" where
  "base32_decode s = b32_decode_loop (filter (\<lambda>c. c \<noteq> CHR 0x0D \<and> c \<noteq> CHR 0x0A) s)"

section \<open>Check characters\<close>

datatype id_error = LuhnDigit | LuhnLength | LuhnCheck | Base32Corrupt | IdLength | ShortData

definition codepoint32 :: "char \<Rightarrow> int" where
  "codepoint32 b =
     (let n = int (of_char b) in
      if 65 \<le> n \<and> n \<le> 90 then n - 65
      else if 50 \<le> n \<and> n \<le> 55 then n + 26 - 50
      else - 1)"

text \<open>The loop of \<open>luhn32\<close>, with \<open>factor\<close> and \<open>sum\<close>.\<close>

fun luhnLoop :: "int \<Rightarrow> int \<Rightarrow> string \<Rightarrow> (id_error, int) result" where
  "luhnLoop factor acc [] = Ok acc"
| "luhnLoop factor acc (c # cs) =
     (let codepoint = codepoint32 c in
      if codepoint = - 1 then Err LuhnDigit
      else
        let addend = factor * codepoint;
            addend' = addend div 32 + addend mod 32
        in luhnLoop (if factor = 2 then 1 else 2) (acc + addend') cs)"

definition luhn32 :: "string \<Rightarrow> (id_error, char) result" where
  "luhn32 s =
     bind_result (luhnLoop 1 0 s)
       (\<lambda>acc. let checkCodepoint = (32 - acc mod 32) mod 32
                in Ok (luhnBase32 ! nat checkCodepoint))"

definition luhnify :: "string \<Rightarrow> (id_error, string) result" where
  "luhnify s =
     (if length s \<noteq> 52 then Panic
      else bind_result
             (traverse_result
               (\<lambda>i. let p = take 13 (drop (i * 13) s)
                    in bind_result (luhn32 p) (\<lambda>l. Ok (p @ [l]))) [0..<4])
             (\<lambda>ps. Ok (concat ps)))"

definition unluhnify :: "string \<Rightarrow> (id_error, string) result" where
  "unluhnify s =
     (if length s \<noteq> 56 then Err LuhnLength
      else bind_result
             (traverse_result
               (\<lambda>i. let p = take 13 (drop (i * 14) s)
                    in bind_result (luhn32 p)
                         (\<lambda>l. if s ! ((i + 1) * 14 - 1) \<noteq> l then Err LuhnCheck else Ok p)) [0..<4])
             (\<lambda>ps. Ok (concat ps)))"

text \<open>With fewer than seven characters the result would have length \<open>-1\<close>: a panic.\<close>

definition chunkify :: "string \<Rightarrow> (id_error, string) result" where
  "chunkify s =
     (let n = length s div 7 in
      if n = 0 then Panic
      else Ok (join_with (CHR ''-'') (map (\<lambda>i. take 7 (drop (i * 7) s)) [0..<n])))"

definition unchunkify :: "string \<Rightarrow> string" where
  "unchunkify s = filter (\<lambda>c. c \<noteq> CHR '' '') (filter (\<lambda>c. c \<noteq> CHR ''-'') s)"

definition replaceChar :: "char \<Rightarrow> char \<Rightarrow> string \<Rightarrow> string" where
  "replaceChar a b s = map (\<lambda>c. if c = a then b else c) s"

definition untypeoify :: "string \<Rightarrow> string" where
  "untypeoify s =
     replaceChar (CHR ''8'') (CHR ''B'')
       (replaceChar (CHR ''1'') (CHR ''I'') (replaceChar (CHR ''0'') (CHR ''O'') s))"

section \<open>Device IDs\<close>

type_synonym DeviceID = "byte list"

definition DeviceIDLength :: nat where
  "DeviceIDLength = 32"

definition repeatedDeviceID :: "byte \<Rightarrow> DeviceID" where
  "repeatedDeviceID v = replicate DeviceIDLength v"

definition LocalDeviceID :: DeviceID where
  "LocalDeviceID = repeatedDeviceID 0xff"

definition GlobalDeviceID :: DeviceID where
  "GlobalDeviceID = repeatedDeviceID 0xf8"

definition EmptyDeviceID :: DeviceID where
  "EmptyDeviceID = repeatedDeviceID 0"

definition is_DeviceID :: "byte list \<Rightarrow> bool" where
  "is_DeviceID n \<longleftrightarrow> length n = DeviceIDLength"

text \<open>\<open>copy(dst, src)\<close> on slices.\<close>

definition copyInto :: "'a list \<Rightarrow> 'a list \<Rightarrow> 'a list" where
  "copyInto dst src = take (length dst) src @ drop (length src) dst"

definition NewDeviceID :: "(byte list \<Rightarrow> byte list) \<Rightarrow> byte list \<Rightarrow> DeviceID" where
  "NewDeviceID sha256 rawCert = sha256 rawCert"

definition DeviceIDFromBytes :: "byte list \<Rightarrow> (id_error, DeviceID) result" where
  "DeviceIDFromBytes bs = (if length bs \<noteq> DeviceIDLength then Err ShortData else Ok bs)"

text \<open>An error of \<open>luhnify\<close> makes \<open>String\<close> panic.\<close>

definition DeviceID_String :: "DeviceID \<Rightarrow> (id_error, string) result" where
  "DeviceID_String n =
     (if n = EmptyDeviceID then Ok []
      else
        let ident = trim_char (CHR ''='') (base32_encode n)
        in case luhnify ident of
             Ok s \<Rightarrow> chunkify s
           | _ \<Rightarrow> Panic)"

text \<open>
  \<open>strings.ToUpper\<close>: byte by byte on ASCII strings; on other strings it follows the
  Unicode tables, which are the parameter \<open>uni\<close>.
\<close>

definition is_ascii :: "char \<Rightarrow> bool" where
  "is_ascii c \<longleftrightarrow> (of_char c :: nat) < 128"

definition upper_char :: "char \<Rightarrow> char" where
  "upper_char c =
     (let n = of_char c :: nat in if 97 \<le> n \<and> n \<le> 122 then char_of (n - 32) else c)"

definition ToUpper :: "(string \<Rightarrow> string) \<Rightarrow> string \<Rightarrow> string" where
  "ToUpper uni s = (if \<forall>c\<in>set s. is_ascii c then map upper_char s else uni s)"

text \<open>\<open>UnmarshalText\<close> on a receiver that holds \<open>n\<close>.\<close>

definition decodeID :: "DeviceID \<Rightarrow> string \<Rightarrow> (id_error, DeviceID) result" where
  "decodeID n ident =
     (case base32_decode (ident @ ''===='') of
        None \<Rightarrow> Err Base32Corrupt
      | Some dec \<Rightarrow> Ok (copyInto n dec))"

definition UnmarshalText :: "(string \<Rightarrow> string) \<Rightarrow> DeviceID \<Rightarrow> string \<Rightarrow> (id_error, DeviceID) result" where
  "UnmarshalText uni n bs =
     (let ident = unchunkify (untypeoify (ToUpper uni (trim_char (CHR ''='') bs)))
      in if length ident = 0 then Ok EmptyDeviceID
         else if length ident = 56 then bind_result (unluhnify ident) (decodeID n)
         else if length ident = 52 then decodeID n ident
         else Err IdLength)"

definition DeviceIDFromString :: "(string \<Rightarrow> string) \<Rightarrow> string \<Rightarrow> (id_error, DeviceID) result" where
  "DeviceIDFromString uni s = UnmarshalText uni EmptyDeviceID s"

definition DeviceID_MarshalText :: "DeviceID \<Rightarrow> (id_error, string) result" where
  "DeviceID_MarshalText n = DeviceID_String n"

fun bytesCompare :: "byte list \<Rightarrow> byte list \<Rightarrow> int" where
  "bytesCompare [] [] = 0"
| "bytesCompare [] (y # ys) = - 1"
| "bytesCompare (x # xs) [] = 1"
| "bytesCompare (x # xs) (y # ys) =
     (if x < y then - 1 else if y < x then 1 else bytesCompare xs ys)"

definition DeviceID_Compare :: "DeviceID \<Rightarrow> DeviceID \<Rightarrow> int" where
  "DeviceID_Compare n other = bytesCompare n other"

definition DeviceID_Equals :: "DeviceID \<Rightarrow> DeviceID \<Rightarrow> bool" where
  "DeviceID_Equals n other \<longleftrightarrow> n = other"

text \<open>The short ID: the first eight bytes, big-endian.\<close>

definition Short :: "DeviceID \<Rightarrow> ShortID" where
  "Short n = word_of_nat (be_decode (take 8 n))"

definition ShortID_String :: "ShortID \<Rightarrow> string" where
  "ShortID_String s = (if s = 0 then [] else take 7 (base32_encode (be_encode 8 (unat s))))"

definition DeviceID_MarshalTo :: "DeviceID \<Rightarrow> byte list \<Rightarrow> (id_error, nat \<times> byte list) result" where
  "DeviceID_MarshalTo n bs =
     (if length bs < DeviceIDLength then Err ShortData
      else Ok (DeviceIDLength, copyInto bs n))"

definition DeviceID_Unmarshal :: "DeviceID \<Rightarrow> byte list \<Rightarrow> (id_error, DeviceID) result" where
  "DeviceID_Unmarshal n bs =
     (if length bs < DeviceIDLength then Err ShortData else Ok (copyInto n bs))"

text \<open>\<open>lib/protocol/indexid.go\<close>.\<close>

type_synonym IndexID = u64

definition IndexID_Marshal :: "IndexID \<Rightarrow> byte list" where
  "IndexID_Marshal i = be_encode 8 (unat i)"

definition IndexID_Unmarshal :: "byte list \<Rightarrow> (id_error, IndexID) result" where
  "IndexID_Unmarshal bs = (if length bs \<noteq> 8 then Err ShortData else Ok (word_of_nat (be_decode bs)))"

section \<open>Library lemmas: bits and base32\<close>

lemma length_bits_of [simp]: "length (bits_of n x) = n"
  by (induction n arbitrary: x) auto

lemma bits_val_Nil [simp]: "bits_val [] = 0"
  by (simp add: bits_val_def)

lemma bits_val_snoc [simp]: "bits_val (bs @ [b]) = 2 * bits_val bs + of_bool b"
  by (simp add: bits_val_def)

lemma bits_val_of: "x < 2 ^ n \<Longrightarrow> bits_val (bits_of n x) = x"
proof (induction n arbitrary: x)
  case (Suc n)
  then have "x div 2 < 2 ^ n" by auto
  with Suc.IH show ?case by (auto simp: odd_two_times_div_two_succ)
qed simp

lemma bits_of_val: "length bs = n \<Longrightarrow> bits_of n (bits_val bs) = bs"
proof (induction bs arbitrary: n rule: rev_induct)
  case (snoc b bs)
  then show ?case by (cases n) auto
qed simp

lemma bits_val_bound: "bits_val bs < 2 ^ length bs"
  by (induction bs rule: rev_induct) (auto split: if_splits)

lemma chunks_Nil [simp]: "chunks n [] = []"
  by (simp add: chunks.simps)

lemma chunks_append:
  "length xs = n \<Longrightarrow> 0 < n \<Longrightarrow> chunks n (xs @ ys) = xs # chunks n ys"
  by (subst chunks.simps) auto

lemma chunks_concat:
  "(\<And>xs. xs \<in> set xss \<Longrightarrow> length xs = n) \<Longrightarrow> 0 < n \<Longrightarrow> chunks n (concat xss) = xss"
  by (induction xss) (auto simp: chunks_append)

lemma concat_chunks: "0 < n \<Longrightarrow> concat (chunks n xs) = xs"
proof (induction n xs rule: chunks.induct)
  case (1 n xs)
  then show ?case by (cases "xs = []") (simp_all add: chunks.simps [of n xs])
qed

lemma chunks_lengths: "0 < n \<Longrightarrow> n dvd length xs \<Longrightarrow> g \<in> set (chunks n xs) \<Longrightarrow> length g = n"
proof (induction n xs rule: chunks.induct)
  case (1 n xs)
  show ?case
  proof (cases "xs = []")
    case False
    then have "n \<le> length xs" using 1 by (auto dest: dvd_imp_le)
    with 1 False show ?thesis
      by (auto simp: chunks.simps [of n xs] dvd_minus_self)
  qed (use 1 in simp)
qed

lemma length_chunks: "0 < n \<Longrightarrow> n dvd length xs \<Longrightarrow> length (chunks n xs) = length xs div n"
proof (induction n xs rule: chunks.induct)
  case (1 n xs)
  show ?case
  proof (cases "xs = []")
    case False
    then have "n \<le> length xs" using 1 by (auto dest: dvd_imp_le)
    with 1 False show ?thesis
      by (simp add: chunks.simps [of n xs] dvd_minus_self le_div_geq)
  qed simp
qed

lemma length_byte_stream [simp]: "length (byte_stream bs) = 8 * length bs"
  by (induction bs) (auto simp: byte_stream_def)

lemma length_pad_bits: "5 dvd length (pad_bits bs)"
proof -
  have "(m + (5 - m mod 5) mod 5) mod 5 = 0" for m :: nat
  proof -
    have "(m + (5 - m mod 5) mod 5) mod 5 = (m + (5 - m mod 5)) mod 5"
      by (rule mod_add_right_eq)
    also have "\<dots> = (m mod 5 + (5 - m mod 5)) mod 5"
      by (rule mod_add_left_eq [symmetric])
    also have "m mod 5 + (5 - m mod 5) = 5"
      by (simp add: less_imp_le)
    finally show ?thesis by simp
  qed
  from this [of "length bs"] show ?thesis
    unfolding pad_bits_def dvd_eq_mod_eq_0 by simp
qed

lemma length_pad_chunk: "g \<in> set (chunks 5 (pad_bits bs)) \<Longrightarrow> length g = 5"
  by (rule chunks_lengths [OF _ length_pad_bits]) simp_all

lemma digits_bytes_quantum:
  assumes "8 * (length (pad_bits (byte_stream bs)) div 8) = 8 * length bs"
  shows "digits_bytes (map bits_val (chunks 5 (pad_bits (byte_stream bs)))) = bs"
proof -
  let ?p = "pad_bits (byte_stream bs)"
  have "map (bits_of 5 \<circ> bits_val) (chunks 5 ?p) = chunks 5 ?p"
    by (intro map_idI) (simp add: bits_of_val length_pad_chunk)
  then have stream: "concat (map (bits_of 5) (map bits_val (chunks 5 ?p))) = ?p"
    by (simp add: concat_chunks)
  have "5 * length (chunks 5 ?p) = length ?p"
    using length_pad_bits [of "byte_stream bs"] by (simp add: length_chunks)
  then have "take (8 * (5 * length (map bits_val (chunks 5 ?p)) div 8)) ?p = byte_stream bs"
    using assms by (simp add: pad_bits_def)
  moreover have "chunks 8 (byte_stream bs) = map (bits_of 8 \<circ> unat) bs"
    unfolding byte_stream_def by (intro chunks_concat) auto
  moreover have "unat b < 2 ^ 8" for b :: byte using unsigned_less [of b] by simp
  ultimately show ?thesis
    using stream by (simp add: digits_bytes_def bits_val_of comp_def)
qed

text \<open>The alphabet.\<close>

definition in_alphabet :: "char \<Rightarrow> bool" where
  "in_alphabet c \<longleftrightarrow> b32_val c \<noteq> None"

lemma length_luhnBase32: "length luhnBase32 = 32"
  by (simp add: luhnBase32_def)

lemma b32_val_nth: "n < 32 \<Longrightarrow> b32_val (luhnBase32 ! n) = Some n"
proof -
  have "list_all (\<lambda>n. b32_val (luhnBase32 ! n) = Some n) [0..<32]" by code_simp
  moreover assume "n < 32"
  ultimately show ?thesis by (auto simp: list_all_iff)
qed

lemma b32_val_pad [simp]: "b32_val (CHR ''='') = None"
  by (simp add: b32_val_def)

lemma in_alphabet_nth: "n < 32 \<Longrightarrow> in_alphabet (luhnBase32 ! n)"
  by (simp add: in_alphabet_def b32_val_nth)

lemma b32_read_full:
  assumes "\<And>c. c \<in> set cs \<Longrightarrow> in_alphabet c" and "j + length cs = 8"
  shows "b32_read j acc (cs @ rest) = Some (acc @ map (the \<circ> b32_val) cs, False, rest)"
  using assms
proof (induction cs arbitrary: j acc)
  case Nil
  then show ?case by (cases rest) simp_all
next
  case (Cons c cs)
  from Cons.prems(1) have "in_alphabet c" by simp
  then obtain d where d: "b32_val c = Some d" by (auto simp: in_alphabet_def)
  then have "c \<noteq> CHR ''=''" by auto
  with Cons d show ?case by simp
qed

lemma b32_read_last:
  assumes "\<And>c. c \<in> set cs \<Longrightarrow> in_alphabet c" and "j + length cs = 4"
  shows "b32_read j acc (cs @ ''===='') = Some (acc @ map (the \<circ> b32_val) cs, True, ''==='')"
  using assms
proof (induction cs arbitrary: j acc)
  case Nil
  have "''==='' ! k = CHR ''=''" if "k < 3" for k
    using that by (auto simp: less_Suc_eq numeral_3_eq_3)
  with Nil show ?case by auto
next
  case (Cons c cs)
  from Cons.prems(1) have "in_alphabet c" by simp
  then obtain d where d: "b32_val c = Some d" by (auto simp: in_alphabet_def)
  then have "c \<noteq> CHR ''=''" by auto
  with Cons d show ?case by simp
qed

definition quantum_digits :: "byte list \<Rightarrow> string" where
  "quantum_digits bs = map (\<lambda>g. luhnBase32 ! bits_val g) (chunks 5 (pad_bits (byte_stream bs)))"

lemma quantum_digits_alphabet: "c \<in> set (quantum_digits bs) \<Longrightarrow> in_alphabet c"
proof -
  assume "c \<in> set (quantum_digits bs)"
  then obtain g where g: "g \<in> set (chunks 5 (pad_bits (byte_stream bs)))" "c = luhnBase32 ! bits_val g"
    by (auto simp: quantum_digits_def)
  then have "length g = 5" by (simp add: length_pad_chunk)
  with bits_val_bound [of g] show ?thesis by (simp add: g in_alphabet_nth)
qed

lemma quantum_digits_val:
  "map (the \<circ> b32_val) (quantum_digits bs) = map bits_val (chunks 5 (pad_bits (byte_stream bs)))"
  unfolding quantum_digits_def
proof (simp, intro ballI)
  fix g assume "g \<in> set (chunks 5 (pad_bits (byte_stream bs)))"
  then have "length g = 5" by (rule length_pad_chunk)
  with bits_val_bound [of g] show "the (b32_val (luhnBase32 ! bits_val g)) = bits_val g"
    by (simp add: b32_val_nth)
qed

lemma replicate_4: "replicate 4 x = [x, x, x, x]"
  by (simp add: numeral_eq_Suc)

lemma b32_quantum_digits:
  "b32_quantum bs = quantum_digits bs @ replicate (8 - length (quantum_digits bs)) (CHR ''='')"
  by (simp add: b32_quantum_def quantum_digits_def Let_def)

lemma length_quantum_digits:
  "length bs = 5 \<Longrightarrow> length (quantum_digits bs) = 8"
  "length bs = 2 \<Longrightarrow> length (quantum_digits bs) = 4"
  using length_pad_bits [of "byte_stream bs"]
  by (simp_all add: quantum_digits_def length_chunks) (simp_all add: pad_bits_def)

lemma quantum_roundtrip:
  "length bs = 5 \<or> length bs = 2 \<Longrightarrow> digits_bytes (map (the \<circ> b32_val) (quantum_digits bs)) = bs"
  by (auto simp: quantum_digits_val intro!: digits_bytes_quantum) (simp_all add: pad_bits_def)

text \<open>A byte string of length \<open>5 k + 2\<close>: \<open>8 k + 4\<close> digits and four padding characters.\<close>

definition b32_body :: "byte list \<Rightarrow> string" where
  "b32_body bs = concat (map quantum_digits (chunks 5 bs))"

lemma b32_body_props:
  assumes "length bs = 5 * k + 2"
  shows "base32_encode bs = b32_body bs @ ''===='' \<and> length (b32_body bs) = 8 * k + 4 \<and>
    (\<forall>c\<in>set (b32_body bs). in_alphabet c) \<and> b32_decode_loop (b32_body bs @ ''===='') = Some bs"
  using assms
proof (induction k arbitrary: bs)
  case 0
  then have ch: "chunks 5 bs = [bs]" by (subst chunks.simps) (auto simp: chunks.simps)
  have "b32_read 0 [] (quantum_digits bs @ ''===='') =
      Some (map (the \<circ> b32_val) (quantum_digits bs), True, ''==='')"
    using b32_read_last [of "quantum_digits bs" 0 "[]"] 0
    by (simp add: length_quantum_digits quantum_digits_alphabet)
  then have "b32_decode_loop (quantum_digits bs @ ''===='') = Some bs"
    using 0 by (simp add: b32_decode_loop.simps [of "quantum_digits bs @ ''====''"] quantum_roundtrip)
  then show ?case
    using 0 by (simp add: b32_body_def base32_encode_def ch b32_quantum_digits length_quantum_digits
        quantum_digits_alphabet replicate_4)
next
  case (Suc k)
  define x ys where "x = take 5 bs" and "ys = drop 5 bs"
  have bs: "bs = x @ ys" and x: "length x = 5" and ys: "length ys = 5 * k + 2"
    using Suc.prems by (simp_all add: x_def ys_def)
  note IH = Suc.IH [OF ys]
  have ch: "chunks 5 bs = x # chunks 5 ys" using bs x by (simp add: chunks_append)
  have body: "b32_body bs = quantum_digits x @ b32_body ys" by (simp add: b32_body_def ch)
  have "b32_read 0 [] (b32_body bs @ ''===='') =
      Some (map (the \<circ> b32_val) (quantum_digits x), False, b32_body ys @ ''===='')"
    using b32_read_full [of "quantum_digits x" 0 "[]" "b32_body ys @ ''====''"] x
    by (simp add: body length_quantum_digits quantum_digits_alphabet)
  then have "b32_decode_loop (b32_body bs @ ''===='') = Some (x @ ys)"
    using IH x by (simp add: b32_decode_loop.simps [of "b32_body bs @ ''====''"] quantum_roundtrip)
  with bs have "b32_decode_loop (b32_body bs @ ''===='') = Some bs" by simp
  then show ?case
    using IH x by (auto simp: body base32_encode_def ch b32_quantum_digits length_quantum_digits
        quantum_digits_alphabet)
qed

section \<open>Library lemmas: check characters\<close>

lemma codepoint32_val:
  "codepoint32 c = (case b32_val c of None \<Rightarrow> - 1 | Some d \<Rightarrow> int d)"
  by (auto simp: codepoint32_def b32_val_def Let_def)

lemma codepoint32_invalid: "codepoint32 c = - 1 \<longleftrightarrow> \<not> in_alphabet c"
  by (simp add: codepoint32_val in_alphabet_def split: option.splits)

lemma codepoint32_range: "in_alphabet c \<Longrightarrow> 0 \<le> codepoint32 c \<and> codepoint32 c < 32"
  by (auto simp: codepoint32_def in_alphabet_def b32_val_def Let_def split: if_splits)

lemma codepoint32_inj:
  "in_alphabet c \<Longrightarrow> in_alphabet d \<Longrightarrow> codepoint32 c = codepoint32 d \<Longrightarrow> c = d"
  by (auto simp: codepoint32_def in_alphabet_def b32_val_def Let_def split: if_splits)

text \<open>The sum the loop accumulates, as a function of the string.\<close>

definition addend :: "int \<Rightarrow> char \<Rightarrow> int" where
  "addend factor c = factor * codepoint32 c div 32 + factor * codepoint32 c mod 32"

definition nextFactor :: "int \<Rightarrow> int" where
  "nextFactor factor = (if factor = 2 then 1 else 2)"

fun luhnSum :: "int \<Rightarrow> string \<Rightarrow> int" where
  "luhnSum factor [] = 0"
| "luhnSum factor (c # cs) = addend factor c + luhnSum (nextFactor factor) cs"

lemma luhnLoop_sum:
  "luhnLoop f t cs = (if \<forall>c\<in>set cs. in_alphabet c then Ok (t + luhnSum f cs) else Err LuhnDigit)"
  by (induction cs arbitrary: f t)
    (auto simp: codepoint32_invalid addend_def nextFactor_def Let_def)

lemma luhn32_sum:
  "luhn32 cs = (if \<forall>c\<in>set cs. in_alphabet c
     then Ok (luhnBase32 ! nat ((- luhnSum 1 cs) mod 32)) else Err LuhnDigit)"
proof -
  have "(32 - x mod 32) mod 32 = (- x) mod 32" for x :: int
  proof -
    have "(32 - x mod 32) mod 32 = (32 - x) mod 32" by (rule mod_diff_right_eq)
    also have "\<dots> = (- x + 32) mod 32" by (simp only: diff_conv_add_uminus add.commute)
    finally show ?thesis by simp
  qed
  then show ?thesis by (simp add: luhn32_def luhnLoop_sum Let_def)
qed

lemma doubled_digit:
  assumes "0 \<le> z" "z < (32 :: int)"
  shows "2 * z div 32 + 2 * z mod 32 = (if z < 16 then 2 * z else 2 * z - 31)"
proof (cases "z < 16")
  case False
  with assms have d: "2 * z div 32 = 1" by auto
  then have "2 * z mod 32 = 2 * z - 32" using minus_mult_div_eq_mod [of "2 * z" 32] by simp
  with d show ?thesis using False by simp
qed (use assms in simp)

lemma doubled_digit_inj:
  assumes "0 \<le> x" "x < (32 :: int)" "0 \<le> y" "y < 32" "x \<noteq> y"
  shows "\<not> 32 dvd (if x < 16 then 2 * x else 2 * x - 31) - (if y < 16 then 2 * y else 2 * y - 31)"
proof -
  have "\<not> 32 dvd 2 * x - 2 * y" if "x < 16 \<longleftrightarrow> y < 16"
  proof
    assume "32 dvd 2 * x - 2 * y"
    then obtain k where "2 * x - 2 * y = 32 * k" by (auto simp: dvd_def)
    then have "x - y = 16 * k" by linarith
    moreover have "\<bar>x - y\<bar> < 16" using that assms by auto
    ultimately have "k = 0" by auto
    with \<open>x - y = 16 * k\<close> assms show False by simp
  qed
  moreover have "odd (2 * x - (2 * y - 31))" "odd (2 * x - 31 - 2 * y)" by simp_all
  then have "\<not> 32 dvd 2 * x - (2 * y - 31)" "\<not> 32 dvd 2 * x - 31 - 2 * y"
    by (metis dvd_trans even_numeral)+
  ultimately show ?thesis by simp
qed

lemma addend_inj:
  assumes "f = 1 \<or> f = 2" "in_alphabet c" "in_alphabet d" "c \<noteq> d"
  shows "\<not> 32 dvd addend f c - addend f d"
proof -
  define x y where "x = codepoint32 c" and "y = codepoint32 d"
  have xy: "x \<noteq> y" "0 \<le> x" "x < 32" "0 \<le> y" "y < 32"
    using assms codepoint32_range [of c] codepoint32_range [of d] codepoint32_inj [of c d]
    by (auto simp: x_def y_def)
  from assms(1) show ?thesis
  proof
    assume "f = 1"
    with xy have "addend f c - addend f d = x - y" by (simp add: addend_def x_def y_def)
    moreover have "\<not> 32 dvd x - y"
    proof
      assume "32 dvd x - y"
      then obtain k where "x - y = 32 * k" by (auto simp: dvd_def)
      moreover from xy this have "k = 0" by auto
      ultimately show False using xy by simp
    qed
    ultimately show ?thesis by simp
  next
    assume "f = 2"
    with xy show ?thesis
      using doubled_digit_inj [of x y]
      by (simp only: addend_def doubled_digit simp_thms flip: x_def y_def)
  qed
qed

lemma nextFactor_range: "f = 1 \<or> f = 2 \<Longrightarrow> nextFactor f = 1 \<or> nextFactor f = 2"
  by (auto simp: nextFactor_def)

lemma luhnSum_update:
  assumes "f = 1 \<or> f = 2" "i < length cs" "in_alphabet (cs ! i)" "in_alphabet c" "cs ! i \<noteq> c"
  shows "\<not> 32 dvd luhnSum f (cs[i := c]) - luhnSum f cs"
  using assms
proof (induction cs arbitrary: f i)
  case (Cons x xs)
  show ?case
  proof (cases i)
    case 0
    with Cons.prems show ?thesis using addend_inj [of f c x] by simp
  next
    case (Suc j)
    with Cons.prems show ?thesis
      using Cons.IH [of "nextFactor f" j] nextFactor_range by simp
  qed
qed simp

lemma luhn32_detects:
  assumes "i < length cs" "luhn32 cs = Ok l" "cs ! i \<noteq> c"
  shows "luhn32 (cs[i := c]) \<noteq> Ok l"
proof
  assume ok: "luhn32 (cs[i := c]) = Ok l"
  have al: "\<forall>x\<in>set cs. in_alphabet x" and al': "\<forall>x\<in>set (cs[i := c]). in_alphabet x"
    using assms(2) ok by (auto simp: luhn32_sum split: if_splits)
  then have "in_alphabet (cs ! i)" "in_alphabet c"
    using assms(1) by (auto simp: set_update_memI)
  then have "\<not> 32 dvd luhnSum 1 (cs[i := c]) - luhnSum 1 cs"
    using luhnSum_update [of 1 i cs c] assms by simp
  moreover have "(- luhnSum 1 (cs[i := c])) mod 32 = (- luhnSum 1 cs) mod 32"
  proof -
    have lt: "nat (z mod 32) < 32" for z :: int by (simp add: nat_less_iff)
    have "luhnBase32 ! nat ((- luhnSum 1 (cs[i := c])) mod 32) = luhnBase32 ! nat ((- luhnSum 1 cs) mod 32)"
      using ok assms(2) al al' by (simp add: luhn32_sum)
    then have "nat ((- luhnSum 1 (cs[i := c])) mod 32) = nat ((- luhnSum 1 cs) mod 32)"
      using b32_val_nth [OF lt] by (metis option.inject)
    then show ?thesis by simp
  qed
  then have "32 dvd luhnSum 1 cs - luhnSum 1 (cs[i := c])"
    by (simp add: mod_eq_dvd_iff)
  ultimately show False
    using dvd_diff_commute by blast
qed

section \<open>Library lemmas: groups and chunks\<close>

lemma take_drop_concat:
  "(\<And>x. x \<in> set xss \<Longrightarrow> length x = n) \<Longrightarrow> i < length xss \<Longrightarrow>
    take n (drop (i * n) (concat xss)) = xss ! i"
proof (induction xss arbitrary: i)
  case (Cons x xss)
  then show ?case by (cases i) auto
qed simp

lemma concat_pieces: "concat (map (\<lambda>i. take n (drop (i * n) s)) [0..<k]) = take (k * n) s"
  by (induction k) (simp_all add: take_add [symmetric] add.commute)

lemma filter_join_with:
  "filter (\<lambda>c. c \<noteq> sep) (join_with sep ps) = filter (\<lambda>c. c \<noteq> sep) (concat ps)"
  by (induction sep ps rule: join_with.induct) auto

lemma set_join_with: "set (join_with sep ps) \<subseteq> insert sep (\<Union> (set ` set ps))"
  by (induction sep ps rule: join_with.induct) auto

lemma in_alphabet_facts:
  assumes "in_alphabet c"
  shows "c \<noteq> CHR ''-''" "c \<noteq> CHR '' ''" "c \<noteq> CHR ''=''" "c \<noteq> CHR ''0''" "c \<noteq> CHR ''1''"
    "c \<noteq> CHR ''8''" "c \<noteq> CHR 0x0A" "c \<noteq> CHR 0x0D" "is_ascii c" "upper_char c = c"
  using assms
  by (auto simp: in_alphabet_def b32_val_def is_ascii_def upper_char_def Let_def split: if_splits)

lemma luhn32_total:
  assumes "\<forall>c\<in>set p. in_alphabet c"
  obtains l where "luhn32 p = Ok l" "in_alphabet l"
proof
  show "luhn32 p = Ok (luhnBase32 ! nat ((- luhnSum 1 p) mod 32))"
    using assms by (simp add: luhn32_sum)
  show "in_alphabet (luhnBase32 ! nat ((- luhnSum 1 p) mod 32))"
    by (rule in_alphabet_nth) (simp add: nat_less_iff)
qed

lemma luhnify_roundtrip:
  assumes len: "length s = 52" and al: "\<forall>c\<in>set s. in_alphabet c"
  obtains t where "luhnify s = Ok t" "length t = 56" "\<forall>c\<in>set t. in_alphabet c" "unluhnify t = Ok s"
proof -
  define p where "p i = take 13 (drop (i * 13) s)" for i
  have "\<exists>l. luhn32 (p i) = Ok l \<and> in_alphabet l" for i
  proof -
    have "\<forall>c\<in>set (p i). in_alphabet c"
      using al by (auto simp: p_def dest: in_set_takeD in_set_dropD)
    then show ?thesis by (metis luhn32_total)
  qed
  then obtain l where l: "\<And>i. luhn32 (p i) = Ok (l i)" "\<And>i. in_alphabet (l i)" by metis
  define gs where "gs = map (\<lambda>i. p i @ [l i]) [0..<4]"
  have lens: "length (p i) = 13" if "i < 4" for i using that len by (simp add: p_def)
  have "traverse_result (\<lambda>i. bind_result (luhn32 (p i)) (\<lambda>l. Ok (p i @ [l]))) [0..<4] = Ok gs"
    by (simp add: traverse_result_Ok_iff list_all2_conv_all_nth gs_def l)
  then have enc: "luhnify s = Ok (concat gs)"
    using len by (simp add: luhnify_def p_def Let_def)
  have glen: "x \<in> set gs \<Longrightarrow> length x = 14" for x by (auto simp: gs_def lens)
  have clen: "length (concat gs) = 56" by (simp add: gs_def lens upt_conv_Cons length_concat)
  have piece: "take 14 (drop (i * 14) (concat gs)) = p i @ [l i]" if "i < 4" for i
    using take_drop_concat [of gs 14 i] glen that by (simp add: gs_def)
  have "take 13 (drop (i * 14) (concat gs)) = p i" if "i < 4" for i
    using arg_cong [OF piece [OF that], of "take 13"] lens [OF that] by simp
  moreover have "concat gs ! ((i + 1) * 14 - 1) = l i" if "i < 4" for i
  proof -
    have "concat gs ! (i * 14 + 13) = take 14 (drop (i * 14) (concat gs)) ! 13"
      using that clen by simp
    then show ?thesis using piece [OF that] lens [OF that] by (simp add: nth_append algebra_simps)
  qed
  ultimately have "traverse_result (\<lambda>i. let q = take 13 (drop (i * 14) (concat gs))
      in bind_result (luhn32 q) (\<lambda>l. if concat gs ! ((i + 1) * 14 - 1) \<noteq> l then Err LuhnCheck else Ok q))
      [0..<4] = Ok (map p [0..<4])"
    by (simp add: traverse_result_Ok_iff list_all2_conv_all_nth l Let_def)
  moreover have "concat (map p [0..<4]) = s"
    using concat_pieces [of 13 s 4] len by (simp add: p_def [abs_def])
  ultimately have "unluhnify (concat gs) = Ok s" by (simp add: unluhnify_def clen)
  moreover have "\<forall>c\<in>set (concat gs). in_alphabet c"
    using al l by (auto simp: gs_def p_def dest!: in_set_takeD in_set_dropD)
  ultimately show thesis using that enc clen by blast
qed

lemma chunkify_roundtrip:
  assumes len: "length s = 56" and al: "\<forall>c\<in>set s. in_alphabet c"
  obtains t where "chunkify s = Ok t" "unchunkify t = s" "\<forall>c\<in>set t. in_alphabet c \<or> c = CHR ''-''"
proof -
  define ps where "ps = map (\<lambda>i. take 7 (drop (i * 7) s)) [0..<8]"
  have cat: "concat ps = s" using concat_pieces [of 7 s 8] len by (simp add: ps_def)
  have "chunkify s = Ok (join_with (CHR ''-'') ps)" by (simp add: chunkify_def len ps_def)
  moreover have "unchunkify (join_with (CHR ''-'') ps) = s"
    using al in_alphabet_facts unfolding unchunkify_def filter_join_with cat
    by (simp add: filter_id_conv)
  moreover have "\<forall>c\<in>set (join_with (CHR ''-'') ps). in_alphabet c \<or> c = CHR ''-''"
    using set_join_with [of "CHR ''-''" ps] al unfolding cat [symmetric] by auto
  ultimately show thesis using that by blast
qed

lemma trim_char_pad:
  assumes "b \<noteq> []" "\<forall>c\<in>set b. c \<noteq> e"
  shows "trim_char e (b @ replicate n e) = b"
proof -
  have "dropWhile (\<lambda>x. x = e) (b @ replicate n e) = b @ replicate n e"
    using assms by (cases b) auto
  moreover have "dropWhile (\<lambda>x. x = e) (replicate n e @ rev b) = dropWhile (\<lambda>x. x = e) (rev b)"
    by (induction n) auto
  moreover have "dropWhile (\<lambda>x. x = e) (rev b) = rev b"
    using assms by (cases "rev b") (auto simp: dropWhile_eq_self_iff)
  ultimately show ?thesis by (simp add: trim_char_def)
qed

lemma dropWhile_none: "\<forall>c\<in>set t. c \<noteq> e \<Longrightarrow> dropWhile (\<lambda>x. x = e) t = t"
  by (cases t) auto

lemma clean_text:
  assumes "\<forall>c\<in>set t. in_alphabet c \<or> c = CHR ''-''"
  shows "untypeoify (ToUpper uni (trim_char (CHR ''='') t)) = t"
proof -
  have ch: "c \<noteq> CHR ''='' \<and> c \<noteq> CHR ''0'' \<and> c \<noteq> CHR ''1'' \<and> c \<noteq> CHR ''8'' \<and>
      is_ascii c \<and> upper_char c = c" if "c \<in> set t" for c
  proof (cases "c = CHR ''-''")
    case True
    then show ?thesis by (simp add: is_ascii_def upper_char_def)
  next
    case False
    with assms that have "in_alphabet c" by blast
    then show ?thesis by (simp add: in_alphabet_facts)
  qed
  then have "trim_char (CHR ''='') t = t" by (simp add: trim_char_def dropWhile_none)
  moreover have "ToUpper uni t = t"
    using ch by (simp add: ToUpper_def map_idI)
  moreover have "untypeoify t = t"
    unfolding untypeoify_def replaceChar_def using ch by (simp add: map_idI)
  ultimately show ?thesis by simp
qed

section \<open>Properties\<close>

lemma base32_decode_body:
  assumes "\<forall>c\<in>set b. in_alphabet c"
  shows "base32_decode (b @ ''===='') = b32_decode_loop (b @ ''===='')"
proof -
  have "filter (\<lambda>c. c \<noteq> CHR 0x0D \<and> c \<noteq> CHR 0x0A) b = b"
    using assms in_alphabet_facts(7,8) by (simp add: filter_id_conv)
  then show ?thesis by (simp add: base32_decode_def)
qed

text \<open>
  Claim C26. Every 32-byte device ID has a textual form (printing never hits the \<open>panic\<close> of
  \<open>String\<close> or \<open>chunkify\<close>), and parsing that text, whatever the receiver held before
  and whatever the Unicode tables say, gives the device ID back.
\<close>

theorem DeviceID_String_roundtrip:
  assumes "is_DeviceID n" and "is_DeviceID m"
  shows "\<exists>s. DeviceID_String n = Ok s \<and> UnmarshalText uni m s = Ok n"
proof (cases "n = EmptyDeviceID")
  case True
  then have "DeviceID_String n = Ok []" by (simp add: DeviceID_String_def)
  moreover have "UnmarshalText uni m [] = Ok n"
    using True by (simp add: UnmarshalText_def trim_char_def ToUpper_def untypeoify_def
        unchunkify_def replaceChar_def)
  ultimately show ?thesis by blast
next
  case False
  define b where "b = b32_body n"
  have "length n = 5 * 6 + 2" using assms(1) by (simp add: is_DeviceID_def DeviceIDLength_def)
  note body = b32_body_props [OF this, folded b_def]
  then have bl: "length b = 52" and al: "\<forall>c\<in>set b. in_alphabet c" by simp_all
  have "b \<noteq> []" using bl by auto
  moreover have "\<forall>c\<in>set b. c \<noteq> CHR ''=''" using al in_alphabet_facts(3) by blast
  moreover have "base32_encode n = b @ replicate 4 (CHR ''='')" using body by (simp add: replicate_4)
  ultimately have "trim_char (CHR ''='') (base32_encode n) = b" by (simp add: trim_char_pad)
  moreover obtain t where t: "luhnify b = Ok t" "length t = 56" "\<forall>c\<in>set t. in_alphabet c"
      "unluhnify t = Ok b"
    using luhnify_roundtrip [OF bl al] .
  moreover obtain u where u: "chunkify t = Ok u" "unchunkify u = t"
      "\<forall>c\<in>set u. in_alphabet c \<or> c = CHR ''-''"
    using chunkify_roundtrip [OF t(2,3)] .
  ultimately have "DeviceID_String n = Ok u"
    using False by (simp add: DeviceID_String_def)
  moreover have "decodeID m b = Ok n"
    using body assms
    by (simp add: decodeID_def base32_decode_body [OF al] copyInto_def is_DeviceID_def)
  then have "UnmarshalText uni m u = Ok n"
    using t u by (auto simp: UnmarshalText_def clean_text)
  ultimately show ?thesis by blast
qed

theorem DeviceID_String_roundtrip_witness:
  "\<exists>s. DeviceID_String LocalDeviceID = Ok s \<and> UnmarshalText id EmptyDeviceID s = Ok LocalDeviceID"
  using DeviceID_String_roundtrip [of LocalDeviceID EmptyDeviceID id]
  by (simp add: is_DeviceID_def LocalDeviceID_def EmptyDeviceID_def repeatedDeviceID_def)

text \<open>
  Claim C27. The check characters expose every mistyped character: if a 56-character text
  passes the check, then changing any one of its characters (a check character included)
  makes \<open>unluhnify\<close> return an error.
\<close>

theorem unluhnify_detects:
  assumes "unluhnify s = Ok r" and "i < 56" and "c \<noteq> s ! i"
  shows "\<exists>e. unluhnify (s[i := c]) = Err e"
proof -
  define check where "check t k = (let p = take 13 (drop (k * 14) t)
      in bind_result (luhn32 p) (\<lambda>l. if t ! ((k + 1) * 14 - 1) \<noteq> l then Err LuhnCheck else Ok p))"
    for t k
  have len: "length s = 56" using assms(1) by (auto simp: unluhnify_def split: if_splits)
  define g j where "g = i div 14" and "j = i mod 14"
  have g: "g < 4" "i = g * 14 + j" "j < 14" using assms(2) by (simp_all add: g_def j_def)
  obtain ps where "traverse_result (check s) [0..<4] = Ok ps"
    using assms(1) len
    by (cases "traverse_result (check s) [0..<4]") (simp_all add: unluhnify_def check_def [abs_def])
  then have "list_all2 (\<lambda>k p. check s k = Ok p) [0..<4] ps" by (simp add: traverse_result_Ok_iff)
  then have "check s g = Ok (ps ! g)" using g by (auto simp: list_all2_conv_all_nth)
  then obtain l where l: "luhn32 (take 13 (drop (g * 14) s)) = Ok l" "s ! (g * 14 + 13) = l"
    by (cases "luhn32 (take 13 (drop (g * 14) s))")
      (auto simp: check_def Let_def algebra_simps split: if_splits)
  have bad: "check (s[i := c]) g \<noteq> Ok p" for p
  proof (cases "j = 13")
    case True
    then have "take 13 (drop (g * 14) (s[i := c])) = take 13 (drop (g * 14) s)"
      using g by (simp add: drop_update_swap)
    then show ?thesis using l True g assms(3) len by (auto simp: check_def Let_def algebra_simps)
  next
    case False
    then have j: "j < 13" using g by simp
    let ?p = "take 13 (drop (g * 14) s)"
    have "take 13 (drop (g * 14) (s[i := c])) = ?p[j := c]"
      using g j by (simp add: drop_update_swap take_update_swap)
    moreover have "luhn32 (?p[j := c]) \<noteq> Ok l"
      using luhn32_detects [of j ?p l c] l j g len assms by simp
    moreover have "s[i := c] ! (g * 14 + 13) = l" using l g j by simp
    ultimately show ?thesis
      by (cases "luhn32 (?p[j := c])") (auto simp: check_def Let_def algebra_simps)
  qed
  have "check t k \<noteq> Panic" for t k
    by (auto simp: check_def Let_def luhn32_sum)
  then have "traverse_result (check t) ks \<noteq> Panic" for t ks
    by (induction ks) (auto simp: bind_result_Panic)
  moreover have "traverse_result (check (s[i := c])) [0..<4] \<noteq> Ok ps" for ps
    using bad g by (auto simp: traverse_result_Ok_iff list_all2_conv_all_nth intro!: exI [of _ g])
  ultimately obtain e where "traverse_result (check (s[i := c])) [0..<4] = Err e"
    by (metis result.exhaust)
  then show ?thesis using len by (simp add: unluhnify_def check_def [abs_def])
qed

theorem unluhnify_detects_witness:
  "unluhnify (replicate 56 (CHR ''A'')) = Ok (replicate 52 (CHR ''A'')) \<and>
   (\<exists>e. unluhnify ((replicate 56 (CHR ''A''))[3 := CHR ''B'']) = Err e)"
proof -
  have ok: "unluhnify (replicate 56 (CHR ''A'')) = Ok (replicate 52 (CHR ''A''))" by code_simp
  then show ?thesis
    using unluhnify_detects [OF ok, of 3 "CHR ''B''"] by simp
qed

end
