(* ===== verification/Go_Time.thy ===== *)
theory Go_Time
  imports Prelude
begin

text \<open>
  Wall-clock instants of Go's \<open>time\<close> package, as far as the sources use them: an instant
  without a monotonic reading is a 64-bit count of seconds since year 1 and a count of
  nanoseconds below \<open>10 ^ 9\<close>; a \<open>Duration\<close> is a 64-bit count of nanoseconds. All
  additions are on \<open>int64\<close>; \<open>Sub\<close> saturates.
\<close>

record go_time =
  tSec :: int
  tNsec :: int

definition unixToInternal :: int where
  "unixToInternal = 62135596800"

definition time_Unix :: "int \<Rightarrow> int \<Rightarrow> go_time" where
  "time_Unix sec nsec =
     (if nsec < 0 \<or> nsec \<ge> 1000000000 then
        (let n = go_div nsec 1000000000;
             s = to_i64 (sec + n);
             r = nsec - n * 1000000000
         in if r < 0 then \<lparr>tSec = to_i64 (to_i64 (s - 1) + unixToInternal), tNsec = r + 1000000000\<rparr>
            else \<lparr>tSec = to_i64 (s + unixToInternal), tNsec = r\<rparr>)
      else \<lparr>tSec = to_i64 (sec + unixToInternal), tNsec = nsec\<rparr>)"

definition time_After :: "go_time \<Rightarrow> go_time \<Rightarrow> bool" where
  "time_After t u \<longleftrightarrow> tSec t > tSec u \<or> tSec t = tSec u \<and> tNsec t > tNsec u"

definition time_Before :: "go_time \<Rightarrow> go_time \<Rightarrow> bool" where
  "time_Before t u \<longleftrightarrow> tSec t < tSec u \<or> tSec t = tSec u \<and> tNsec t < tNsec u"

definition time_Equal :: "go_time \<Rightarrow> go_time \<Rightarrow> bool" where
  "time_Equal t u \<longleftrightarrow> tSec t = tSec u \<and> tNsec t = tNsec u"

definition time_addSec :: "int \<Rightarrow> int \<Rightarrow> int" where
  "time_addSec ext d =
     (let s = to_i64 (ext + d) in
      if (s > ext) = (d > 0) then s
      else if d > 0 then 2 ^ 63 - 1
      else - (2 ^ 63 - 1))"

definition time_Add :: "go_time \<Rightarrow> int \<Rightarrow> go_time" where
  "time_Add t d =
     (let dsec = go_div d 1000000000;
          nsec = tNsec t + go_mod d 1000000000
      in if nsec \<ge> 1000000000 then
           \<lparr>tSec = time_addSec (tSec t) (dsec + 1), tNsec = nsec - 1000000000\<rparr>
         else if nsec < 0 then
           \<lparr>tSec = time_addSec (tSec t) (dsec - 1), tNsec = nsec + 1000000000\<rparr>
         else \<lparr>tSec = time_addSec (tSec t) dsec, tNsec = nsec\<rparr>)"

definition time_UnixNano :: "go_time \<Rightarrow> int" where
  "time_UnixNano t = to_i64 (to_i64 (to_i64 (tSec t - unixToInternal) * 1000000000) + tNsec t)"

definition minDuration :: int where "minDuration = - (2 ^ 63)"
definition maxDuration :: int where "maxDuration = 2 ^ 63 - 1"

definition time_Sub :: "go_time \<Rightarrow> go_time \<Rightarrow> int" where
  "time_Sub t u =
     (let d = to_i64 (to_i64 (to_i64 (tSec t - tSec u) * 1000000000) + (tNsec t - tNsec u)) in
      if time_Equal (time_Add u d) t then d
      else if time_Before t u then minDuration
      else maxDuration)"

text \<open>What the constructors keep, and the nanoseconds an instant stands for.\<close>

definition time_wf :: "go_time \<Rightarrow> bool" where
  "time_wf t \<longleftrightarrow> is_i64 (tSec t) \<and> 0 \<le> tNsec t \<and> tNsec t < 1000000000"

definition time_ns :: "go_time \<Rightarrow> int" where
  "time_ns t = tSec t * 1000000000 + tNsec t"

lemma go_div_mod_bounds:
  assumes "0 < b"
  shows "b * go_div a b + go_mod a b = a"
    and "0 \<le> a \<Longrightarrow> 0 \<le> go_mod a b \<and> go_mod a b < b"
    and "a < 0 \<Longrightarrow> - b < go_mod a b \<and> go_mod a b \<le> 0"
proof -
  show "b * go_div a b + go_mod a b = a"
    by (simp add: go_mod_def)
  show "0 \<le> go_mod a b \<and> go_mod a b < b" if "0 \<le> a"
    using that assms by (simp add: go_mod_nonneg)
  show "- b < go_mod a b \<and> go_mod a b \<le> 0" if "a < 0"
  proof -
    have "go_mod a b = - ((- a) mod b)"
      using that assms by (simp add: go_mod_def go_div_def minus_div_mult_eq_mod [symmetric] mult.commute)
    with assms show ?thesis by simp
  qed
qed

lemma time_wf_Unix: "time_wf (time_Unix sec nsec)"
  using go_div_mod_bounds [of 1000000000 nsec]
  by (auto simp: time_wf_def time_Unix_def Let_def go_mod_def mult.commute)

lemma time_trichotomy:
  "time_After t u \<or> time_Before t u \<or> time_Equal t u"
  by (auto simp: time_After_def time_Before_def time_Equal_def)

lemma time_Before_After: "time_Before t u \<longleftrightarrow> time_After u t"
  by (auto simp: time_After_def time_Before_def)

lemma time_After_asym: "time_After t u \<Longrightarrow> \<not> time_After u t"
  by (auto simp: time_After_def)

lemma time_After_trans: "time_After t u \<Longrightarrow> time_After u v \<Longrightarrow> time_After t v"
  by (auto simp: time_After_def)

lemma time_Equal_iff: "time_Equal t u \<longleftrightarrow> t = u"
  by (cases t; cases u) (simp add: time_Equal_def)

lemma time_After_ns:
  "time_wf t \<Longrightarrow> time_wf u \<Longrightarrow> time_After t u \<longleftrightarrow> time_ns t > time_ns u"
  by (auto simp: time_After_def time_ns_def time_wf_def)

lemma time_Before_ns:
  "time_wf t \<Longrightarrow> time_wf u \<Longrightarrow> time_Before t u \<longleftrightarrow> time_ns t < time_ns u"
  by (simp add: time_Before_After time_After_ns)

lemma time_eq_ns: "time_wf t \<Longrightarrow> time_wf u \<Longrightarrow> t = u \<longleftrightarrow> time_ns t = time_ns u"
  using time_trichotomy [of t u] time_After_ns [of t u] time_Before_ns [of t u]
  by (auto simp: time_Equal_iff)

text \<open>\<open>Unix\<close> of a timestamp far from the ends of \<open>int64\<close> is the exact instant.\<close>

lemma time_Unix_ns:
  assumes "\<bar>sec\<bar> < 2 ^ 62" and "is_i32 nsec"
  shows "time_ns (time_Unix sec nsec) = (sec + unixToInternal) * 1000000000 + nsec"
proof -
  have q: "\<bar>go_div nsec 1000000000\<bar> \<le> 3"
    using assms(2) go_div_mod_bounds [of 1000000000 nsec]
    by (cases "nsec < 0") (simp_all add: is_i32_def)
  have i: "is_i64 (sec + go_div nsec 1000000000)"
    "is_i64 (sec + go_div nsec 1000000000 - 1)"
    "is_i64 (sec + go_div nsec 1000000000 - 1 + unixToInternal)"
    "is_i64 (sec + go_div nsec 1000000000 + unixToInternal)"
    "is_i64 (sec + unixToInternal)"
    using assms q by (auto simp: is_i64_def unixToInternal_def)
  then show ?thesis
    by (auto simp: time_Unix_def time_ns_def Let_def algebra_simps)
qed

text \<open>
  \<open>Sub\<close> of instants whose seconds are far from the ends of \<open>int64\<close>: the exact difference
  when it is a \<open>Duration\<close>, the saturated one otherwise.
\<close>

lemma to_i64_mod: "to_i64 x mod 2 ^ 64 = x mod 2 ^ 64"
  by (simp add: to_i64_def mod_simps)

lemma to_i64_cong: "x mod 2 ^ 64 = y mod 2 ^ 64 \<Longrightarrow> to_i64 x = to_i64 y"
  unfolding to_i64_def by (metis mod_add_left_eq)

lemma to_i64_inner [simp]: "to_i64 (to_i64 x + y) = to_i64 (x + y)"
  by (rule to_i64_cong) (metis to_i64_mod mod_add_left_eq)

lemma time_Add_ns:
  assumes "time_wf u" and "\<bar>tSec u\<bar> < 2 ^ 62" and "is_i64 d"
  shows "time_wf (time_Add u d)" and "time_ns (time_Add u d) = time_ns u + d"
proof -
  note b = go_div_mod_bounds [of 1000000000 d]
  have q: "\<bar>go_div d 1000000000\<bar> \<le> 2 ^ 61"
    using assms(3) b by (cases "d < 0") (simp_all add: is_i64_def)
  have s: "time_addSec (tSec u) x = tSec u + x" and i: "is_i64 (tSec u + x)" if "\<bar>x\<bar> \<le> 2 ^ 61 + 1" for x
  proof -
    show i: "is_i64 (tSec u + x)"
      using that assms(2) by (auto simp: is_i64_def abs_less_iff abs_le_iff)
    show "time_addSec (tSec u) x = tSec u + x"
      by (auto simp: time_addSec_def i Let_def)
  qed
  have m: "- 1000000000 < go_mod d 1000000000 \<and> go_mod d 1000000000 < 1000000000"
    using b by (cases "d < 0") simp_all
  show "time_wf (time_Add u d)"
    using q m assms(1) by (auto simp: time_Add_def Let_def time_wf_def s intro!: i)
  show "time_ns (time_Add u d) = time_ns u + d"
    using q b(1) by (auto simp: time_Add_def Let_def time_ns_def s)
qed

lemma time_Sub_ns:
  assumes "time_wf t" and "time_wf u" and "\<bar>tSec t\<bar> < 2 ^ 62" and "\<bar>tSec u\<bar> < 2 ^ 62"
  shows "time_Sub t u =
           (if time_ns t - time_ns u < minDuration then minDuration
            else if maxDuration < time_ns t - time_ns u then maxDuration
            else time_ns t - time_ns u)"
proof -
  define d where "d = to_i64 (to_i64 (to_i64 (tSec t - tSec u) * 1000000000) + (tNsec t - tNsec u))"
  have "is_i64 (tSec t - tSec u)"
    using assms(3,4) by (auto simp: is_i64_def abs_less_iff)
  then have "d = to_i64 ((tSec t - tSec u) * 1000000000 + (tNsec t - tNsec u))"
    by (simp add: d_def)
  then have d: "d = to_i64 (time_ns t - time_ns u)"
    by (simp add: time_ns_def algebra_simps)
  have di: "is_i64 d" by (simp add: d)
  have eq: "time_Equal (time_Add u d) t \<longleftrightarrow> d = time_ns t - time_ns u"
    using assms time_Add_ns [OF assms(2,4) di] by (auto simp: time_Equal_iff time_eq_ns)
  have bf: "time_Before t u \<longleftrightarrow> time_ns t < time_ns u"
    using assms by (simp add: time_Before_ns)
  have sub: "time_Sub t u = (if d = time_ns t - time_ns u then d
               else if time_ns t < time_ns u then minDuration else maxDuration)"
    unfolding time_Sub_def d_def [symmetric] Let_def eq bf ..
  show ?thesis
  proof (cases "is_i64 (time_ns t - time_ns u)")
    case True
    then show ?thesis
      by (auto simp: sub d is_i64_def minDuration_def maxDuration_def)
  next
    case False
    then have "d \<noteq> time_ns t - time_ns u" using di by metis
    with False show ?thesis
      by (auto simp: sub is_i64_def minDuration_def maxDuration_def)
  qed
qed

end
