(* ===== verification/File_Info.thy ===== *)
theory File_Info
  imports Vectors Go_Time
begin

text \<open>
  File metadata: \<open>lib/protocol/bep_fileinfo.go\<close>. Flag sets are 32-bit words, byte slices
  are byte lists (\<open>nil\<close> and the empty slice are the same list: the sources test only
  lengths and contents), a pointer that may be \<open>nil\<close> is an option. \<open>time.Now\<close>, SHA-256
  and the operating system the program is built for are arguments.
\<close>

unbundle bit_operations_syntax

section \<open>Local flags\<close>

type_synonym FlagLocal = u32

definition FlagLocalUnsupported :: FlagLocal where "FlagLocalUnsupported = push_bit 0 1"
definition FlagLocalIgnored :: FlagLocal where "FlagLocalIgnored = push_bit 1 1"
definition FlagLocalMustRescan :: FlagLocal where "FlagLocalMustRescan = push_bit 2 1"
definition FlagLocalReceiveOnly :: FlagLocal where "FlagLocalReceiveOnly = push_bit 3 1"
definition FlagLocalGlobal :: FlagLocal where "FlagLocalGlobal = push_bit 4 1"
definition FlagLocalNeeded :: FlagLocal where "FlagLocalNeeded = push_bit 5 1"
definition FlagLocalRemoteInvalid :: FlagLocal where "FlagLocalRemoteInvalid = push_bit 6 1"

definition LocalInvalidFlags :: FlagLocal where
  "LocalInvalidFlags = FlagLocalUnsupported OR FlagLocalIgnored OR FlagLocalMustRescan
     OR FlagLocalReceiveOnly OR FlagLocalRemoteInvalid"

definition LocalConflictFlags :: FlagLocal where
  "LocalConflictFlags = FlagLocalUnsupported OR FlagLocalIgnored OR FlagLocalReceiveOnly"

definition LocalAllFlags :: FlagLocal where
  "LocalAllFlags = FlagLocalUnsupported OR FlagLocalIgnored OR FlagLocalMustRescan
     OR FlagLocalReceiveOnly OR FlagLocalGlobal OR FlagLocalNeeded OR FlagLocalRemoteInvalid"

definition localFlagBitNames :: "(FlagLocal \<times> char) list" where
  "localFlagBitNames =
     [(FlagLocalUnsupported, CHR ''u''), (FlagLocalIgnored, CHR ''i''),
      (FlagLocalMustRescan, CHR ''r''), (FlagLocalReceiveOnly, CHR ''e''),
      (FlagLocalGlobal, CHR ''G''), (FlagLocalNeeded, CHR ''n''),
      (FlagLocalRemoteInvalid, CHR ''v'')]"

definition FlagLocal_IsInvalid :: "FlagLocal \<Rightarrow> bool" where
  "FlagLocal_IsInvalid f \<longleftrightarrow> f AND LocalInvalidFlags \<noteq> 0"

text \<open>\<open>%x\<close> of an unsigned integer.\<close>

fun show_hex :: "nat \<Rightarrow> string" where
  "show_hex n = (if n < 16 then [nibble_char n] else show_hex (n div 16) @ [nibble_char (n mod 16)])"

declare show_hex.simps [simp del]

text \<open>
  The loop of \<open>HumanString\<close>: \<open>k\<close> counts the iterations, so the loop's \<open>bit\<close> is
  \<open>1 << k\<close>. After 32 iterations every bit of \<open>f\<close> has been cleared, which is what
  the guard \<open>k < 32\<close> records.
\<close>

function humanLoop :: "nat \<Rightarrow> FlagLocal \<Rightarrow> string \<Rightarrow> string \<Rightarrow> string \<times> string" where
  "humanLoop k f res extra =
     (if f = 0 \<or> \<not> k < 32 then (res, extra)
      else
        (let bit = push_bit k 1;
             (res', extra') =
               (if f AND bit \<noteq> 0 then
                  (case map_of localFlagBitNames bit of
                     Some name \<Rightarrow> (res @ [name], extra)
                   | None \<Rightarrow> (res, extra @ ''+0x'' @ show_hex (unat bit)))
                else (res @ ''-'', extra))
         in humanLoop (Suc k) (f AND NOT bit) res' extra'))"
  by pat_completeness auto
termination
  by (relation "measure (\<lambda>(k, f, res, extra). 32 - k)") auto

declare humanLoop.simps [simp del]

definition HumanString :: "FlagLocal \<Rightarrow> string" where
  "HumanString f =
     (let n = length localFlagBitNames in
      if f = 0 then replicate n CHR ''-''
      else
        (let (res, extra) = humanLoop 0 f [] [];
             base = (if length res < n then res @ replicate (n - length res) CHR ''-'' else res)
         in rev base @ extra))"

section \<open>Block sizes\<close>

definition MinBlockSize :: int where "MinBlockSize = 131072"
definition MaxBlockSize :: int where "MaxBlockSize = 16777216"
definition DesiredPerFileBlocks :: int where "DesiredPerFileBlocks = 2000"
definition SyntheticDirectorySize :: int where "SyntheticDirectorySize = 128"

function blockSizesFrom :: "int \<Rightarrow> int list" where
  "blockSizesFrom bs =
     (if 0 < bs \<and> bs \<le> MaxBlockSize then bs # blockSizesFrom (bs * 2) else [])"
  by pat_completeness auto
termination
  by (relation "measure (\<lambda>bs. nat (MaxBlockSize + 1 - bs))") auto

declare blockSizesFrom.simps [simp del]

definition BlockSizes :: "int list" where
  "BlockSizes = blockSizesFrom MinBlockSize"

text \<open>
  \<open>BlockSize(fileSize)\<close>: the loop variable keeps the last value when the loop ends
  without \<open>break\<close>.
\<close>

fun blockSizeLoop :: "int \<Rightarrow> int \<Rightarrow> int list \<Rightarrow> int" where
  "blockSizeLoop fileSize blockSize [] = blockSize"
| "blockSizeLoop fileSize blockSize (b # bs) =
     (if fileSize < DesiredPerFileBlocks * b then b else blockSizeLoop fileSize b bs)"

definition BlockSize :: "int \<Rightarrow> int" where
  "BlockSize fileSize = blockSizeLoop fileSize 0 BlockSizes"

section \<open>Blocks\<close>

record BlockInfo =
  bHash :: "byte list"
  bOffset :: int
  bSize :: int

record bep_BlockInfo =
  wbHash :: "byte list"
  wbOffset :: int
  wbSize :: int

definition BlockInfo_ToWire :: "BlockInfo \<Rightarrow> bep_BlockInfo" where
  "BlockInfo_ToWire b = \<lparr>wbHash = bHash b, wbOffset = bOffset b, wbSize = to_i32 (bSize b)\<rparr>"

definition BlockInfoFromWire :: "bep_BlockInfo \<Rightarrow> BlockInfo" where
  "BlockInfoFromWire w = \<lparr>bHash = wbHash w, bOffset = wbOffset w, bSize = wbSize w\<rparr>"

definition sha256OfEmptyBlock :: "(int \<times> byte list) list" where
  "sha256OfEmptyBlock = [
      (131072, [250, 67, 35, 155, 206, 231, 185, 124, 166, 47, 0, 124, 198, 132, 135, 86,
        10, 57, 225, 159, 116, 243, 221, 231, 72, 109, 179, 249, 141, 248, 228, 113]),
      (262144, [138, 57, 210, 171, 211, 153, 154, 183, 60, 52, 219, 36, 118, 132, 156, 221,
        243, 3, 206, 56, 155, 53, 130, 104, 80, 249, 167, 0, 88, 155, 74, 144]),
      (524288, [7, 133, 77, 47, 239, 41, 122, 6, 186, 129, 104, 94, 102, 12, 51, 45,
        227, 109, 93, 24, 213, 70, 146, 125, 48, 218, 173, 109, 127, 218, 21, 65]),
      (1048576, [48, 225, 73, 85, 235, 241, 53, 34, 102, 220, 47, 248, 6, 126, 104, 16,
        70, 7, 231, 80, 171, 185, 211, 179, 101, 130, 184, 175, 144, 159, 203, 88]),
      (2097152, [86, 71, 240, 94, 193, 137, 88, 148, 125, 50, 135, 78, 235, 120, 143, 163,
        150, 160, 93, 11, 171, 124, 27, 113, 241, 18, 206, 183, 233, 179, 30, 238]),
      (4194304, [187, 159, 141, 246, 20, 116, 210, 94, 113, 250, 0, 114, 35, 24, 205, 56,
        115, 150, 202, 23, 54, 96, 94, 18, 72, 130, 28, 192, 222, 61, 58, 248]),
      (8388608, [45, 174, 177, 243, 96, 149, 180, 75, 49, 132, 16, 179, 244, 232, 181, 217,
        137, 220, 199, 187, 2, 61, 20, 38, 196, 146, 218, 176, 163, 5, 62, 116]),
      (16777216, [8, 10, 207, 53, 165, 7, 172, 152, 73, 207, 203, 164, 125, 194, 173, 131,
        224, 27, 117, 102, 58, 81, 98, 121, 200, 185, 210, 67, 183, 25, 100, 62])]"

definition BlockInfo_IsEmpty :: "BlockInfo \<Rightarrow> bool" where
  "BlockInfo_IsEmpty b =
     (case map_of sha256OfEmptyBlock (bSize b) of
        Some v \<Rightarrow> bHash b = v
      | None \<Rightarrow> False)"

text \<open>The check of \<open>init\<close> over the block sizes; \<open>False\<close> is the panic.\<close>

definition initBlockSizes :: bool where
  "initBlockSizes \<longleftrightarrow> list_all (\<lambda>bs. map_of sha256OfEmptyBlock bs \<noteq> None) BlockSizes"

definition BlocksHash :: "(byte list \<Rightarrow> byte list) \<Rightarrow> BlockInfo list \<Rightarrow> byte list" where
  "BlocksHash sha256 bs = sha256 (concat (map bHash bs))"

definition VectorHash :: "(byte list \<Rightarrow> byte list) \<Rightarrow> Vector \<Rightarrow> byte list" where
  "VectorHash sha256 v =
     sha256 (concat (map (\<lambda>c. be_encode 8 (unat (cID c)) @ be_encode 8 (unat (cValue c))) v))"

fun blocksEqualLoop :: "BlockInfo list \<Rightarrow> BlockInfo list \<Rightarrow> bool" where
  "blocksEqualLoop (x # xs) (y # ys) = (if bHash x \<noteq> bHash y then False else blocksEqualLoop xs ys)"
| "blocksEqualLoop _ _ = True"

definition blocksEqual :: "BlockInfo list \<Rightarrow> BlockInfo list \<Rightarrow> bool" where
  "blocksEqual a b = (if length b \<noteq> length a then False else blocksEqualLoop a b)"

section \<open>Platform data\<close>

datatype goos = OS_Windows | OS_Linux | OS_Darwin | OS_FreeBSD | OS_NetBSD | OS_Other

record Xattr =
  xName :: string
  xValue :: "byte list"

record bep_Xattr =
  wxName :: string
  wxValue :: "byte list"

type_synonym XattrData = "Xattr list"
type_synonym bep_XattrData = "bep_Xattr list"

record UnixData =
  uOwnerName :: string
  uGroupName :: string
  uUID :: int
  uGID :: int

record bep_UnixData =
  wuOwnerName :: string
  wuGroupName :: string
  wuUid :: int
  wuGid :: int

record WindowsData =
  winOwnerName :: string
  winOwnerIsGroup :: bool

record PlatformData =
  pUnix :: "UnixData option"
  pWindows :: "WindowsData option"
  pLinux :: "XattrData option"
  pDarwin :: "XattrData option"
  pFreeBSD :: "XattrData option"
  pNetBSD :: "XattrData option"

record bep_PlatformData =
  wpUnix :: "bep_UnixData option"
  wpWindows :: "WindowsData option"
  wpLinux :: "bep_XattrData option"
  wpDarwin :: "bep_XattrData option"
  wpFreebsd :: "bep_XattrData option"
  wpNetbsd :: "bep_XattrData option"

definition Xattr_toWire :: "Xattr \<Rightarrow> bep_Xattr" where
  "Xattr_toWire a = \<lparr>wxName = xName a, wxValue = xValue a\<rparr>"

definition xattrFromWire :: "bep_Xattr \<Rightarrow> Xattr" where
  "xattrFromWire w = \<lparr>xName = wxName w, xValue = wxValue w\<rparr>"

definition XattrData_toWire :: "XattrData option \<Rightarrow> bep_XattrData option" where
  "XattrData_toWire x = map_option (map Xattr_toWire) x"

definition xattrDataFromWire :: "bep_XattrData option \<Rightarrow> XattrData option" where
  "xattrDataFromWire w = map_option (map xattrFromWire) w"

definition UnixData_toWire :: "UnixData option \<Rightarrow> bep_UnixData option" where
  "UnixData_toWire u =
     (case u of
        None \<Rightarrow> None
      | Some d \<Rightarrow> Some \<lparr>wuOwnerName = uOwnerName d, wuGroupName = uGroupName d,
                        wuUid = to_i32 (uUID d), wuGid = to_i32 (uGID d)\<rparr>)"

definition unixDataFromWire :: "bep_UnixData option \<Rightarrow> UnixData option" where
  "unixDataFromWire w =
     (case w of
        None \<Rightarrow> None
      | Some d \<Rightarrow> Some \<lparr>uOwnerName = wuOwnerName d, uGroupName = wuGroupName d,
                        uUID = wuUid d, uGID = wuGid d\<rparr>)"

definition emptyPlatformData :: PlatformData where
  "emptyPlatformData =
     \<lparr>pUnix = None, pWindows = None, pLinux = None, pDarwin = None, pFreeBSD = None, pNetBSD = None\<rparr>"

definition PlatformData_toWire :: "PlatformData \<Rightarrow> bep_PlatformData" where
  "PlatformData_toWire p =
     \<lparr>wpUnix = UnixData_toWire (pUnix p), wpWindows = pWindows p,
      wpLinux = XattrData_toWire (pLinux p), wpDarwin = XattrData_toWire (pDarwin p),
      wpFreebsd = XattrData_toWire (pFreeBSD p), wpNetbsd = XattrData_toWire (pNetBSD p)\<rparr>"

definition platformDataFromWire :: "bep_PlatformData option \<Rightarrow> PlatformData" where
  "platformDataFromWire w =
     (case w of
        None \<Rightarrow> emptyPlatformData
      | Some w \<Rightarrow>
          \<lparr>pUnix = unixDataFromWire (wpUnix w), pWindows = wpWindows w,
           pLinux = xattrDataFromWire (wpLinux w), pDarwin = xattrDataFromWire (wpDarwin w),
           pFreeBSD = xattrDataFromWire (wpFreebsd w), pNetBSD = xattrDataFromWire (wpNetbsd w)\<rparr>)"

definition PlatformData_Xattrs :: "goos \<Rightarrow> PlatformData \<Rightarrow> Xattr list" where
  "PlatformData_Xattrs os p =
     (case os of
        OS_Linux \<Rightarrow> (case pLinux p of Some x \<Rightarrow> x | None \<Rightarrow> [])
      | OS_Darwin \<Rightarrow> (case pDarwin p of Some x \<Rightarrow> x | None \<Rightarrow> [])
      | OS_FreeBSD \<Rightarrow> (case pFreeBSD p of Some x \<Rightarrow> x | None \<Rightarrow> [])
      | OS_NetBSD \<Rightarrow> (case pNetBSD p of Some x \<Rightarrow> x | None \<Rightarrow> [])
      | _ \<Rightarrow> [])"

definition PlatformData_SetXattrs :: "goos \<Rightarrow> Xattr list \<Rightarrow> PlatformData \<Rightarrow> PlatformData" where
  "PlatformData_SetXattrs os xattrs p =
     (case os of
        OS_Linux \<Rightarrow> p\<lparr>pLinux := Some xattrs\<rparr>
      | OS_Darwin \<Rightarrow> p\<lparr>pDarwin := Some xattrs\<rparr>
      | OS_FreeBSD \<Rightarrow> p\<lparr>pFreeBSD := Some xattrs\<rparr>
      | OS_NetBSD \<Rightarrow> p\<lparr>pNetBSD := Some xattrs\<rparr>
      | _ \<Rightarrow> p)"

definition orElse :: "'a option \<Rightarrow> 'a option \<Rightarrow> 'a option" where
  "orElse a b = (if a = None then b else a)"

definition PlatformData_MergeWith :: "PlatformData \<Rightarrow> PlatformData \<Rightarrow> PlatformData" where
  "PlatformData_MergeWith p q =
     \<lparr>pUnix = orElse (pUnix p) (pUnix q), pWindows = orElse (pWindows p) (pWindows q),
      pLinux = orElse (pLinux p) (pLinux q), pDarwin = orElse (pDarwin p) (pDarwin q),
      pFreeBSD = orElse (pFreeBSD p) (pFreeBSD q), pNetBSD = orElse (pNetBSD p) (pNetBSD q)\<rparr>"

fun xattrsEqualLoop :: "Xattr list \<Rightarrow> Xattr list \<Rightarrow> bool" where
  "xattrsEqualLoop (x # xs) (y # ys) =
     (if xName x \<noteq> xName y then False
      else if xValue x \<noteq> xValue y then False
      else xattrsEqualLoop xs ys)"
| "xattrsEqualLoop _ _ = True"

definition xattrsEqual :: "XattrData option \<Rightarrow> XattrData option \<Rightarrow> bool" where
  "xattrsEqual a b =
     (let aEmpty = (case a of None \<Rightarrow> True | Some xs \<Rightarrow> xs = []);
          bEmpty = (case b of None \<Rightarrow> True | Some xs \<Rightarrow> xs = [])
      in if aEmpty \<and> bEmpty then True
         else if aEmpty \<or> bEmpty then False
         else if length (the a) \<noteq> length (the b) then False
         else xattrsEqualLoop (the a) (the b))"

definition unixOwnershipEqual :: "UnixData option \<Rightarrow> UnixData option \<Rightarrow> bool" where
  "unixOwnershipEqual a b =
     (case (a, b) of
        (None, None) \<Rightarrow> True
      | (Some x, Some y) \<Rightarrow>
          (if uUID x = uUID y \<and> uGID x = uGID y then True
           else if uOwnerName x = uOwnerName y \<and> uGroupName x = uGroupName y then True
           else False)
      | _ \<Rightarrow> False)"

definition windowsOwnershipEqual :: "WindowsData option \<Rightarrow> WindowsData option \<Rightarrow> bool" where
  "windowsOwnershipEqual a b =
     (case (a, b) of
        (None, None) \<Rightarrow> True
      | (Some x, Some y) \<Rightarrow> winOwnerName x = winOwnerName y \<and> winOwnerIsGroup x = winOwnerIsGroup y
      | _ \<Rightarrow> False)"

section \<open>File information\<close>

text \<open>The generated enumeration is an open \<open>int32\<close>; other values are \<open>FileInfoTypeOther\<close>.\<close>

datatype FileInfoType =
    FileInfoTypeFile
  | FileInfoTypeDirectory
  | FileInfoTypeSymlinkFile
  | FileInfoTypeSymlinkDirectory
  | FileInfoTypeSymlink
  | FileInfoTypeOther int

record FileInfo =
  fName :: string
  fSize :: int
  fModifiedS :: int
  fModifiedBy :: ShortID
  fVersion :: Vector
  fSequence :: int
  fBlocks :: "BlockInfo list"
  fSymlinkTarget :: "byte list"
  fBlocksHash :: "byte list"
  fPreviousBlocksHash :: "byte list"
  fEncrypted :: "byte list"
  fPlatform :: PlatformData
  fType :: FileInfoType
  fPermissions :: u32
  fModifiedNs :: int
  fRawBlockSize :: int
  fLocalFlags :: FlagLocal
  fEncryptionTrailerSize :: int
  fDeleted :: bool
  fNoPermissions :: bool
  fTruncated :: bool

record bep_FileInfo =
  wName :: string
  wSize :: int
  wModifiedS :: int
  wModifiedBy :: u64
  wVersion :: "bep_Vector option"
  wSequence :: int
  wBlocks :: "bep_BlockInfo list"
  wSymlinkTarget :: "byte list"
  wBlocksHash :: "byte list"
  wPreviousBlocksHash :: "byte list"
  wEncrypted :: "byte list"
  wType :: FileInfoType
  wPermissions :: u32
  wModifiedNs :: int
  wBlockSize :: int
  wPlatform :: "bep_PlatformData option"
  wLocalFlags :: u32
  wEncryptionTrailerSize :: int
  wDeleted :: bool
  wInvalid :: bool
  wNoPermissions :: bool

definition IsInvalid :: "FileInfo \<Rightarrow> bool" where
  "IsInvalid f = FlagLocal_IsInvalid (fLocalFlags f)"

definition IsUnsupported :: "FileInfo \<Rightarrow> bool" where
  "IsUnsupported f \<longleftrightarrow> fLocalFlags f AND FlagLocalUnsupported \<noteq> 0"

definition IsIgnored :: "FileInfo \<Rightarrow> bool" where
  "IsIgnored f \<longleftrightarrow> fLocalFlags f AND FlagLocalIgnored \<noteq> 0"

definition MustRescan :: "FileInfo \<Rightarrow> bool" where
  "MustRescan f \<longleftrightarrow> fLocalFlags f AND FlagLocalMustRescan \<noteq> 0"

definition IsReceiveOnlyChanged :: "FileInfo \<Rightarrow> bool" where
  "IsReceiveOnlyChanged f \<longleftrightarrow> fLocalFlags f AND FlagLocalReceiveOnly \<noteq> 0"

definition ShouldConflict :: "FileInfo \<Rightarrow> bool" where
  "ShouldConflict f \<longleftrightarrow> fLocalFlags f AND LocalConflictFlags \<noteq> 0"

definition IsDirectory :: "FileInfo \<Rightarrow> bool" where
  "IsDirectory f \<longleftrightarrow> fType f = FileInfoTypeDirectory"

definition IsSymlink :: "FileInfo \<Rightarrow> bool" where
  "IsSymlink f = (case fType f of
     FileInfoTypeSymlink \<Rightarrow> True
   | FileInfoTypeSymlinkDirectory \<Rightarrow> True
   | FileInfoTypeSymlinkFile \<Rightarrow> True
   | _ \<Rightarrow> False)"

definition HasPermissionBits :: "FileInfo \<Rightarrow> bool" where
  "HasPermissionBits f \<longleftrightarrow> \<not> fNoPermissions f"

definition FileSize :: "FileInfo \<Rightarrow> int" where
  "FileSize f =
     (if fDeleted f then 0
      else if IsDirectory f \<or> IsSymlink f then SyntheticDirectorySize
      else fSize f)"

definition FileInfo_BlockSize :: "FileInfo \<Rightarrow> int" where
  "FileInfo_BlockSize f = (if fRawBlockSize f < MinBlockSize then MinBlockSize else fRawBlockSize f)"

definition ModTime :: "FileInfo \<Rightarrow> go_time" where
  "ModTime f = time_Unix (fModifiedS f) (fModifiedNs f)"

section \<open>Wire and database forms\<close>

text \<open>\<open>ToWire\<close> has no error result; it can only panic.\<close>

definition FileInfo_ToWire :: "bool \<Rightarrow> FileInfo \<Rightarrow> (unit, bep_FileInfo) result" where
  "FileInfo_ToWire withInternalFields f =
     (if fTruncated f \<and> \<not> (fDeleted f \<or> IsInvalid f \<or> IsIgnored f) then Panic
      else
        (let w =
           \<lparr>wName = fName f, wSize = fSize f, wModifiedS = fModifiedS f,
            wModifiedBy = fModifiedBy f, wVersion = Some (Vector_ToWire (fVersion f)),
            wSequence = fSequence f, wBlocks = map BlockInfo_ToWire (fBlocks f),
            wSymlinkTarget = fSymlinkTarget f, wBlocksHash = fBlocksHash f,
            wPreviousBlocksHash = fPreviousBlocksHash f, wEncrypted = fEncrypted f,
            wType = fType f, wPermissions = fPermissions f, wModifiedNs = fModifiedNs f,
            wBlockSize = fRawBlockSize f, wPlatform = Some (PlatformData_toWire (fPlatform f)),
            wLocalFlags = 0, wEncryptionTrailerSize = 0,
            wDeleted = fDeleted f, wInvalid = IsInvalid f, wNoPermissions = fNoPermissions f\<rparr>
         in Ok (if withInternalFields
                then w\<lparr>wLocalFlags := fLocalFlags f,
                       wEncryptionTrailerSize := to_i32 (fEncryptionTrailerSize f)\<rparr>
                else w)))"

definition fileInfoFromWireWithBlocks :: "bep_FileInfo \<Rightarrow> BlockInfo list \<Rightarrow> FileInfo" where
  "fileInfoFromWireWithBlocks w blocks =
     \<lparr>fName = wName w, fSize = wSize w, fModifiedS = wModifiedS w, fModifiedBy = wModifiedBy w,
      fVersion = VectorFromWire (wVersion w), fSequence = wSequence w, fBlocks = blocks,
      fSymlinkTarget = wSymlinkTarget w, fBlocksHash = wBlocksHash w,
      fPreviousBlocksHash = wPreviousBlocksHash w, fEncrypted = wEncrypted w,
      fPlatform = platformDataFromWire (wPlatform w), fType = wType w,
      fPermissions = wPermissions w, fModifiedNs = wModifiedNs w, fRawBlockSize = wBlockSize w,
      fLocalFlags = (if wInvalid w then FlagLocalRemoteInvalid else 0),
      fEncryptionTrailerSize = 0, fDeleted = wDeleted w, fNoPermissions = wNoPermissions w,
      fTruncated = False\<rparr>"

definition FileInfoFromWire :: "bep_FileInfo \<Rightarrow> FileInfo" where
  "FileInfoFromWire w =
     (let blocks = (if length (wBlocks w) > 0 then map BlockInfoFromWire (wBlocks w) else [])
      in fileInfoFromWireWithBlocks w blocks)"

definition FileInfoFromDB :: "bep_FileInfo \<Rightarrow> FileInfo" where
  "FileInfoFromDB w =
     (FileInfoFromWire w)\<lparr>fLocalFlags := wLocalFlags w,
                          fEncryptionTrailerSize := wEncryptionTrailerSize w\<rparr>"

definition FileInfoFromDBTruncated :: "bep_FileInfo \<Rightarrow> FileInfo" where
  "FileInfoFromDBTruncated w =
     (fileInfoFromWireWithBlocks w [])\<lparr>fLocalFlags := wLocalFlags w,
                                       fEncryptionTrailerSize := wEncryptionTrailerSize w,
                                       fTruncated := True\<rparr>"

section \<open>Conflicts and equivalence\<close>

definition InConflictWith :: "FileInfo \<Rightarrow> FileInfo \<Rightarrow> bool" where
  "InConflictWith f previous =
     (if GreaterEqual (fVersion f) (fVersion previous) then False
      else if fPreviousBlocksHash f = [] \<or> fBlocksHash f = [] then True
      else fPreviousBlocksHash f \<noteq> fBlocksHash previous)"

definition WinsConflict :: "FileInfo \<Rightarrow> FileInfo \<Rightarrow> bool" where
  "WinsConflict f other =
     (if IsInvalid f \<noteq> IsInvalid other then \<not> IsInvalid f
      else if time_After (ModTime f) (ModTime other) then True
      else if time_Before (ModTime f) (ModTime other) then False
      else Compare (fVersion f) (fVersion other) = ConcurrentGreater)"

record FileInfoComparison =
  ModTimeWindow :: int
  IgnorePerms :: bool
  IgnoreBlocks :: bool
  IgnoreFlags :: FlagLocal
  IgnoreOwnership :: bool
  IgnoreXattrs :: bool

definition ModTimeEqual :: "go_time \<Rightarrow> go_time \<Rightarrow> int \<Rightarrow> bool" where
  "ModTimeEqual a b modTimeWindow =
     (if time_Equal a b then True
      else
        (let diff = time_Sub a b;
             diff' = (if diff < 0 then to_i64 (diff * -1) else diff)
         in diff' < modTimeWindow))"

definition PermsEqual :: "goos \<Rightarrow> u32 \<Rightarrow> u32 \<Rightarrow> bool" where
  "PermsEqual os a b =
     (if os = OS_Windows then a AND 384 = b AND 384
      else a AND 511 = b AND 511)"

definition BlocksEqual :: "FileInfo \<Rightarrow> FileInfo \<Rightarrow> bool" where
  "BlocksEqual f other =
     (if length (fBlocksHash f) > 0 \<and> length (fBlocksHash other) > 0 \<and> fBlocksHash f = fBlocksHash other
      then True
      else blocksEqual (fBlocks f) (fBlocks other))"

text \<open>
  \<open>f.Platform != other.Platform\<close> compares the pointers inside the two structures. Its
  outcome is the argument \<open>samePtr\<close>; equal pointers imply equal contents.
\<close>

definition isEquivalent :: "goos \<Rightarrow> bool \<Rightarrow> FileInfo \<Rightarrow> FileInfo \<Rightarrow> FileInfoComparison \<Rightarrow> bool" where
  "isEquivalent os samePtr f0 other0 cmp =
     (if MustRescan f0 \<or> MustRescan other0 then False
      else
        (let f = f0\<lparr>fLocalFlags := fLocalFlags f0 AND NOT (IgnoreFlags cmp)\<rparr>;
             other = other0\<lparr>fLocalFlags := fLocalFlags other0 AND NOT (IgnoreFlags cmp)\<rparr>;
             p = fPlatform f; q = fPlatform other
         in
         if fName f \<noteq> fName other \<or> fType f \<noteq> fType other \<or> fDeleted f \<noteq> fDeleted other
            \<or> IsInvalid f \<noteq> IsInvalid other then False
         else if \<not> IgnoreOwnership cmp \<and> \<not> samePtr
                 \<and> (\<not> unixOwnershipEqual (pUnix p) (pUnix q)
                    \<or> \<not> windowsOwnershipEqual (pWindows p) (pWindows q)) then False
         else if \<not> IgnoreXattrs cmp \<and> \<not> samePtr
                 \<and> (\<not> xattrsEqual (pLinux p) (pLinux q) \<or> \<not> xattrsEqual (pDarwin p) (pDarwin q)
                    \<or> \<not> xattrsEqual (pFreeBSD p) (pFreeBSD q) \<or> \<not> xattrsEqual (pNetBSD p) (pNetBSD q))
              then False
         else if \<not> IgnorePerms cmp \<and> \<not> fNoPermissions f \<and> \<not> fNoPermissions other
                 \<and> \<not> PermsEqual os (fPermissions f) (fPermissions other) then False
         else
           (case fType f of
              FileInfoTypeFile \<Rightarrow>
                fSize f = fSize other
                \<and> ModTimeEqual (ModTime f) (ModTime other) (ModTimeWindow cmp)
                \<and> (IgnoreBlocks cmp \<or> BlocksEqual f other)
            | FileInfoTypeSymlink \<Rightarrow> fSymlinkTarget f = fSymlinkTarget other
            | FileInfoTypeDirectory \<Rightarrow> True
            | _ \<Rightarrow> False)))"

definition IsEquivalentOptional :: "goos \<Rightarrow> bool \<Rightarrow> FileInfo \<Rightarrow> FileInfo \<Rightarrow> FileInfoComparison \<Rightarrow> bool" where
  "IsEquivalentOptional = isEquivalent"

definition IsEquivalent :: "goos \<Rightarrow> bool \<Rightarrow> FileInfo \<Rightarrow> FileInfo \<Rightarrow> int \<Rightarrow> bool" where
  "IsEquivalent os samePtr f other modTimeWindow =
     isEquivalent os samePtr f other
       \<lparr>ModTimeWindow = modTimeWindow, IgnorePerms = False, IgnoreBlocks = False,
        IgnoreFlags = 0, IgnoreOwnership = False, IgnoreXattrs = False\<rparr>"

section \<open>Setters\<close>

definition setNoContent :: "FileInfo \<Rightarrow> FileInfo" where
  "setNoContent f = f\<lparr>fBlocks := [], fBlocksHash := [], fSize := 0\<rparr>"

definition setLocalFlags :: "FlagLocal \<Rightarrow> FileInfo \<Rightarrow> FileInfo" where
  "setLocalFlags flags f = setNoContent (f\<lparr>fLocalFlags := flags\<rparr>)"

definition SetMustRescan :: "FileInfo \<Rightarrow> FileInfo" where
  "SetMustRescan f = setLocalFlags FlagLocalMustRescan f"

definition SetIgnored :: "FileInfo \<Rightarrow> FileInfo" where
  "SetIgnored f = setLocalFlags FlagLocalIgnored f"

definition SetUnsupported :: "FileInfo \<Rightarrow> FileInfo" where
  "SetUnsupported f = setLocalFlags FlagLocalUnsupported f"

definition SetDeleted :: "ShortID \<Rightarrow> int \<Rightarrow> FileInfo \<Rightarrow> FileInfo" where
  "SetDeleted by_dev now f =
     setNoContent (f\<lparr>fModifiedBy := by_dev, fDeleted := True,
                     fVersion := Update (fVersion f) by_dev now, fModifiedS := now\<rparr>)"

section \<open>Flags\<close>

lemma and_push_bit_neq_0: "(f :: 'a :: len word) AND push_bit n 1 \<noteq> 0 \<longleftrightarrow> bit f n"
  by (simp add: bit_iff_and_push_bit_not_eq_0)

lemma and_OR_neq_0: "(f :: 'a :: len word) AND (a OR b) \<noteq> 0 \<longleftrightarrow> f AND a \<noteq> 0 \<or> f AND b \<noteq> 0"
  by (simp add: bit.conj_disj_distrib or_eq_0_iff)

lemmas flag_defs =
  FlagLocalUnsupported_def FlagLocalIgnored_def FlagLocalMustRescan_def FlagLocalReceiveOnly_def
  FlagLocalGlobal_def FlagLocalNeeded_def FlagLocalRemoteInvalid_def

lemma FlagLocal_IsInvalid_bits:
  "FlagLocal_IsInvalid f \<longleftrightarrow> bit f 0 \<or> bit f 1 \<or> bit f 2 \<or> bit f 3 \<or> bit f 6"
  unfolding FlagLocal_IsInvalid_def LocalInvalidFlags_def flag_defs and_OR_neq_0 and_push_bit_neq_0
  by blast

lemma flag_test_bits:
  "IsUnsupported f \<longleftrightarrow> bit (fLocalFlags f) 0"
  "IsIgnored f \<longleftrightarrow> bit (fLocalFlags f) 1"
  "MustRescan f \<longleftrightarrow> bit (fLocalFlags f) 2"
  "IsReceiveOnlyChanged f \<longleftrightarrow> bit (fLocalFlags f) 3"
  "ShouldConflict f \<longleftrightarrow> bit (fLocalFlags f) 0 \<or> bit (fLocalFlags f) 1 \<or> bit (fLocalFlags f) 3"
  "IsInvalid f \<longleftrightarrow> FlagLocal_IsInvalid (fLocalFlags f)"
  unfolding IsUnsupported_def IsIgnored_def MustRescan_def IsReceiveOnlyChanged_def
    ShouldConflict_def LocalConflictFlags_def IsInvalid_def flag_defs and_OR_neq_0 and_push_bit_neq_0
  by blast+

lemma FlagLocal_IsInvalid_consts [simp]:
  "FlagLocal_IsInvalid FlagLocalRemoteInvalid" "\<not> FlagLocal_IsInvalid 0"
  "FlagLocal_IsInvalid FlagLocalIgnored" "FlagLocal_IsInvalid FlagLocalMustRescan"
  "FlagLocal_IsInvalid FlagLocalUnsupported" "FlagLocal_IsInvalid FlagLocalReceiveOnly"
  "\<not> FlagLocal_IsInvalid FlagLocalGlobal" "\<not> FlagLocal_IsInvalid FlagLocalNeeded"
  by (simp_all add: FlagLocal_IsInvalid_bits flag_defs bit_push_bit_iff bit_1_iff)

section \<open>Round trips\<close>

definition fi_blank :: FileInfo where
  "fi_blank =
     \<lparr>fName = [], fSize = 0, fModifiedS = 0, fModifiedBy = 0, fVersion = [], fSequence = 0,
      fBlocks = [], fSymlinkTarget = [], fBlocksHash = [], fPreviousBlocksHash = [],
      fEncrypted = [], fPlatform = emptyPlatformData, fType = FileInfoTypeFile,
      fPermissions = 0, fModifiedNs = 0, fRawBlockSize = 0, fLocalFlags = 0,
      fEncryptionTrailerSize = 0, fDeleted = False, fNoPermissions = False,
      fTruncated = False\<rparr>"

definition fi_sample :: FileInfo where
  "fi_sample = fi_blank\<lparr>fName := ''a'', fSize := 10, fModifiedS := 1700000000, fModifiedNs := 5,
     fVersion := [mkCounter 1 2, mkCounter 7 1],
     fBlocks := [\<lparr>bHash = [1, 2], bOffset = 0, bSize = 10\<rparr>], fBlocksHash := [9],
     fPlatform := emptyPlatformData\<lparr>pUnix := Some \<lparr>uOwnerName = ''u'', uGroupName = ''g'', uUID = 1000, uGID = 100\<rparr>\<rparr>,
     fPermissions := 420, fLocalFlags := FlagLocalIgnored\<rparr>"

definition fi_fits :: "FileInfo \<Rightarrow> bool" where
  "fi_fits f \<longleftrightarrow>
     list_all (\<lambda>b. is_i32 (bSize b)) (fBlocks f) \<and> is_i32 (fEncryptionTrailerSize f)
     \<and> (case pUnix (fPlatform f) of None \<Rightarrow> True | Some u \<Rightarrow> is_i32 (uUID u) \<and> is_i32 (uGID u))"

lemma BlockInfo_wire [wire_simps]:
  "is_i32 (bSize b) \<Longrightarrow> BlockInfoFromWire (BlockInfo_ToWire b) = b"
  by (simp add: BlockInfoFromWire_def BlockInfo_ToWire_def)

lemma blocks_wire [wire_simps]:
  "list_all (\<lambda>b. is_i32 (bSize b)) bs \<Longrightarrow> map BlockInfoFromWire (map BlockInfo_ToWire bs) = bs"
  by (induction bs) (simp_all add: wire_simps)

lemma Xattr_wire [wire_simps]: "xattrFromWire (Xattr_toWire x) = x"
  by (simp add: xattrFromWire_def Xattr_toWire_def)

lemma XattrData_wire [wire_simps]: "xattrDataFromWire (XattrData_toWire x) = x"
  by (cases x) (simp_all add: xattrDataFromWire_def XattrData_toWire_def wire_simps map_idI)

lemma UnixData_wire [wire_simps]:
  "(case u of None \<Rightarrow> True | Some d \<Rightarrow> is_i32 (uUID d) \<and> is_i32 (uGID d)) \<Longrightarrow>
    unixDataFromWire (UnixData_toWire u) = u"
  by (cases u) (simp_all add: unixDataFromWire_def UnixData_toWire_def)

lemma PlatformData_wire [wire_simps]:
  "(case pUnix p of None \<Rightarrow> True | Some d \<Rightarrow> is_i32 (uUID d) \<and> is_i32 (uGID d)) \<Longrightarrow>
    platformDataFromWire (Some (PlatformData_toWire p)) = p"
  by (simp add: platformDataFromWire_def PlatformData_toWire_def wire_simps)

lemma FileInfo_ToWire_Panic_iff:
  "FileInfo_ToWire int_fields f = Panic \<longleftrightarrow> fTruncated f \<and> \<not> (fDeleted f \<or> IsInvalid f \<or> IsIgnored f)"
  by (simp add: FileInfo_ToWire_def Let_def)

lemma FileInfo_ToWire_cases:
  "\<not> fTruncated f \<Longrightarrow> \<exists>w. FileInfo_ToWire int_fields f = Ok w"
  by (simp add: FileInfo_ToWire_def Let_def)

lemma blocks_FromWire: "(if 0 < length ws then map BlockInfoFromWire ws else []) = map BlockInfoFromWire ws"
  by simp

text \<open>
  A file info that is not truncated and whose block sizes, trailer size and Unix
  IDs fit the 32-bit fields of the database form is read back unchanged, local flags
  included.
\<close>

lemma FileInfo_db_roundtrip:
  assumes "fi_fits f" and "\<not> fTruncated f"
  shows "bind_result (FileInfo_ToWire True f) (\<lambda>w. Ok (FileInfoFromDB w)) = Ok f"
proof -
  have "list_all (\<lambda>b. is_i32 (bSize b)) (fBlocks f)"
    using assms by (simp add: fi_fits_def)
  note b = blocks_wire [OF this]
  from assms show ?thesis
    by (simp add: FileInfo_ToWire_def Let_def FileInfoFromDB_def FileInfoFromWire_def
        fileInfoFromWireWithBlocks_def fi_fits_def wire_simps b del: map_map)
qed

text \<open>
  What a peer receives: the same file info with the local flags replaced by the
  remote-invalid flag exactly when the sender's copy is invalid, and no encryption trailer
  size; in particular validity survives the trip and no other local flag leaks.
\<close>

lemma FileInfo_wire:
  assumes "fi_fits f" and "\<not> fTruncated f"
  shows "\<exists>w. FileInfo_ToWire False f = Ok w
           \<and> FileInfoFromWire w =
               f\<lparr>fLocalFlags := (if IsInvalid f then FlagLocalRemoteInvalid else 0),
                 fEncryptionTrailerSize := 0\<rparr>
           \<and> IsInvalid (FileInfoFromWire w) = IsInvalid f
           \<and> wLocalFlags w = 0"
proof -
  have "list_all (\<lambda>b. is_i32 (bSize b)) (fBlocks f)"
    using assms by (simp add: fi_fits_def)
  note b = blocks_wire [OF this]
  from assms show ?thesis
    by (simp add: FileInfo_ToWire_def Let_def FileInfoFromWire_def IsInvalid_def
        fileInfoFromWireWithBlocks_def fi_fits_def wire_simps b del: map_map)
qed

section \<open>Conflict resolution\<close>

text \<open>
  The contract that resolving a conflict needs: between files with concurrent versions
  exactly one of the two wins, and winning is transitive among them. Then every collection
  of pairwise concurrent files has exactly one winner, whatever order it is examined in.
\<close>

locale conflict_resolution = version_order cmp wf
  for cmp :: "'v \<Rightarrow> 'v \<Rightarrow> Ordering" and wf :: "'v \<Rightarrow> bool" +
  fixes ver :: "'f \<Rightarrow> 'v" and wins :: "'f \<Rightarrow> 'f \<Rightarrow> bool"
  assumes wins_decides:
      "wf (ver f) \<Longrightarrow> wf (ver g) \<Longrightarrow> cmp (ver f) (ver g) \<notin> {Equal, Greater, Lesser} \<Longrightarrow>
        wins f g \<longleftrightarrow> \<not> wins g f"
    and wins_trans:
      "wf (ver f) \<Longrightarrow> wf (ver g) \<Longrightarrow> wf (ver h) \<Longrightarrow>
        cmp (ver f) (ver h) \<notin> {Equal, Greater, Lesser} \<Longrightarrow>
        wins f g \<Longrightarrow> wins g h \<Longrightarrow> wins f h"
begin

definition rivals :: "'f set \<Rightarrow> bool" where
  "rivals F \<longleftrightarrow> (\<forall>f\<in>F. wf (ver f)) \<and>
     (\<forall>f\<in>F. \<forall>g\<in>F. f \<noteq> g \<longrightarrow> cmp (ver f) (ver g) \<notin> {Equal, Greater, Lesser})"

lemma winner_exists:
  assumes "finite F" "F \<noteq> {}" "rivals F"
  shows "\<exists>f\<in>F. \<forall>g\<in>F. g \<noteq> f \<longrightarrow> wins f g"
  using assms
proof (induction F rule: finite_ne_induct)
  case (insert x F)
  then have "rivals F" by (auto simp: rivals_def)
  with insert.IH obtain f where f: "f \<in> F" "\<And>g. g \<in> F \<Longrightarrow> g \<noteq> f \<Longrightarrow> wins f g" by blast
  show ?case
  proof (cases "wins f x")
    case True
    with f show ?thesis by (intro bexI [of _ f]) auto
  next
    case False
    have fx: "f \<noteq> x" using f(1) insert.hyps by auto
    then have xf: "wins x f"
      using False wins_decides [of x f] insert.prems f(1) by (auto simp: rivals_def)
    have "wins x g" if "g \<in> F" for g
    proof (cases "g = f")
      case False
      then show ?thesis
        using wins_trans [of x f g] xf f that insert.prems insert.hyps by (auto simp: rivals_def)
    qed (use xf in simp)
    then show ?thesis by (intro bexI [of _ x]) auto
  qed
qed simp

lemma winner_unique:
  assumes "finite F" "F \<noteq> {}" "rivals F"
  shows "\<exists>!f. f \<in> F \<and> (\<forall>g\<in>F. g \<noteq> f \<longrightarrow> wins f g)"
proof -
  obtain f where f: "f \<in> F" "\<forall>g\<in>F. g \<noteq> f \<longrightarrow> wins f g"
    using winner_exists [OF assms] by blast
  have "h = f" if "h \<in> F" "\<forall>g\<in>F. g \<noteq> h \<longrightarrow> wins h g" for h
  proof (rule ccontr)
    assume "h \<noteq> f"
    then have "wins f h" "wins h f" using f that by auto
    moreover have "wf (ver f)" "wf (ver h)" "cmp (ver f) (ver h) \<notin> {Equal, Greater, Lesser}"
      using \<open>h \<noteq> f\<close> f(1) that(1) assms(3) by (auto simp: rivals_def)
    ultimately show False using wins_decides by blast
  qed
  with f show ?thesis by blast
qed

end

lemma first_exceeds_trans:
  assumes "first_exceeds a b" and "first_exceeds b c"
  shows "first_exceeds a c"
proof -
  obtain i where i: "Counter_of a i > Counter_of b i" "\<And>j. j < i \<Longrightarrow> Counter_of a j = Counter_of b j"
    using assms(1) by (auto simp: first_exceeds_def)
  obtain k where k: "Counter_of b k > Counter_of c k" "\<And>j. j < k \<Longrightarrow> Counter_of b j = Counter_of c j"
    using assms(2) by (auto simp: first_exceeds_def)
  have "Counter_of a (min i k) > Counter_of c (min i k)"
    using i(1) i(2) [of k] k(1) k(2) [of i] by (cases i k rule: linorder_cases) auto
  moreover have "Counter_of a j = Counter_of c j" if "j < min i k" for j
    using that i(2) k(2) by simp
  ultimately show ?thesis by (auto simp: first_exceeds_def)
qed

lemma Compare_ConcurrentGreater:
  "vv_wf a \<Longrightarrow> vv_wf b \<Longrightarrow>
    Compare a b = ConcurrentGreater \<longleftrightarrow> exceeds a b \<and> exceeds b a \<and> first_exceeds a b"
  by (auto simp: Compare_spec loop_spec_def)

lemma WinsConflict_decides:
  assumes "Compare (fVersion f) (fVersion g) \<notin> {Equal, Greater, Lesser}"
  shows "WinsConflict f g \<longleftrightarrow> \<not> WinsConflict g f"
proof -
  have "Compare (fVersion f) (fVersion g) = ConcurrentGreater \<longleftrightarrow>
        Compare (fVersion g) (fVersion f) \<noteq> ConcurrentGreater"
    using assms Compare_swap [of "fVersion g" "fVersion f"]
    by (cases "Compare (fVersion f) (fVersion g)") auto
  then show ?thesis
    by (auto simp: WinsConflict_def time_Before_After dest: time_After_asym)
qed

lemma WinsConflict_trans:
  assumes wf: "vv_wf (fVersion f)" "vv_wf (fVersion g)" "vv_wf (fVersion h)"
    and c: "Compare (fVersion f) (fVersion h) \<notin> {Equal, Greater, Lesser}"
    and fg: "WinsConflict f g" and gh: "WinsConflict g h"
  shows "WinsConflict f h"
proof -
  have conc: "Compare (fVersion f) (fVersion h) = ConcurrentGreater"
    if "Compare (fVersion f) (fVersion g) = ConcurrentGreater"
      "Compare (fVersion g) (fVersion h) = ConcurrentGreater"
  proof -
    have "first_exceeds (fVersion f) (fVersion h)"
      using that wf by (auto simp: Compare_ConcurrentGreater intro: first_exceeds_trans)
    with c wf show ?thesis by (auto simp: Compare_spec loop_spec_def split: if_splits)
  qed
  have tr: "time_After (ModTime f) (ModTime h)"
    if "time_After (ModTime f) (ModTime g)" "\<not> time_Before (ModTime g) (ModTime h)"
    using that by (auto simp: time_After_def time_Before_def)
  have tr': "time_After (ModTime f) (ModTime h)"
    if "\<not> time_Before (ModTime f) (ModTime g)" "time_After (ModTime g) (ModTime h)"
    using that by (auto simp: time_After_def time_Before_def)
  have eq: "\<not> time_Before (ModTime f) (ModTime h)"
    if "\<not> time_Before (ModTime f) (ModTime g)" "\<not> time_Before (ModTime g) (ModTime h)"
    using that by (auto simp: time_Before_def)
  have as: "\<not> time_Before (ModTime a) (ModTime b)" if "time_After (ModTime a) (ModTime b)" for a b
    using that by (simp add: time_Before_After time_After_asym)
  show ?thesis
    using fg gh conc tr tr' eq as [of f g] as [of g h] as [of f h]
    by (auto simp: WinsConflict_def split: if_splits)
qed

interpretation wins: conflict_resolution Compare vv_wf fVersion WinsConflict
proof unfold_locales
  show "WinsConflict f g \<longleftrightarrow> \<not> WinsConflict g f"
    if "vv_wf (fVersion f)" "vv_wf (fVersion g)"
      "Compare (fVersion f) (fVersion g) \<notin> {Equal, Greater, Lesser}" for f g
    using that(3) by (rule WinsConflict_decides)
qed (rule WinsConflict_trans)

text \<open>
  Claim C19. Conflict resolution is deterministic: among any non-empty collection of files
  whose versions are sorted and pairwise concurrent there is exactly one that
  \<open>WinsConflict\<close> prefers over all others, so every device picks the same winner whatever
  order it compares them in.
\<close>

theorem WinsConflict_unique_winner:
  assumes "fs \<noteq> []"
    and "\<And>f. f \<in> set fs \<Longrightarrow> vv_wf (fVersion f)"
    and "\<And>f g. f \<in> set fs \<Longrightarrow> g \<in> set fs \<Longrightarrow> f \<noteq> g \<Longrightarrow> Concurrent (fVersion f) (fVersion g)"
  shows "\<exists>!f. f \<in> set fs \<and> (\<forall>g. g \<in> set fs \<and> g \<noteq> f \<longrightarrow> WinsConflict f g)"
proof -
  have "wins.rivals (set fs)"
    using assms(2,3) by (auto simp: wins.rivals_def compare_methods)
  then show ?thesis
    using wins.winner_unique [of "set fs"] assms(1) by (simp add: Ball_def imp_conjL)
qed

definition conflict_sample :: "FileInfo list" where
  "conflict_sample =
     [fi_blank\<lparr>fVersion := [mkCounter 1 2, mkCounter 2 1]\<rparr>,
      fi_blank\<lparr>fVersion := [mkCounter 1 1, mkCounter 2 2]\<rparr>]"

theorem WinsConflict_unique_winner_witness:
  "\<exists>!f. f \<in> set conflict_sample \<and>
     (\<forall>g. g \<in> set conflict_sample \<and> g \<noteq> f \<longrightarrow> WinsConflict f g)"
proof (rule WinsConflict_unique_winner)
  have c: "Compare [mkCounter 1 2, mkCounter 2 1] [mkCounter 1 1, mkCounter 2 2] = ConcurrentGreater"
    by code_simp
  show "Concurrent (fVersion f) (fVersion g)"
    if "f \<in> set conflict_sample" "g \<in> set conflict_sample" "f \<noteq> g" for f g
    using that c Compare_swap [of "[mkCounter 1 1, mkCounter 2 2]" "[mkCounter 1 2, mkCounter 2 1]"]
    by (auto simp: conflict_sample_def compare_methods)
qed (auto simp: conflict_sample_def vv_wf_def)

text \<open>
  A new version that continues the old one is never a conflict; otherwise it is
  one unless the new content was made from the content we have.
\<close>

lemma InConflictWith_correct:
  assumes "vv_wf (fVersion f)" and "vv_wf (fVersion p)"
  shows "InConflictWith f p \<longleftrightarrow>
    (\<exists>i. Counter_of (fVersion f) i < Counter_of (fVersion p) i)
    \<and> (fPreviousBlocksHash f = [] \<or> fBlocksHash f = [] \<or> fPreviousBlocksHash f \<noteq> fBlocksHash p)"
  unfolding InConflictWith_def compare_methods Compare_ge_iff [OF assms] not_le [symmetric]
  by auto

section \<open>Block sizes\<close>

lemma BlockSizes_eq [code]:
  "BlockSizes = [131072, 262144, 524288, 1048576, 2097152, 4194304, 8388608, 16777216]"
  by (simp add: BlockSizes_def blockSizesFrom.simps MinBlockSize_def MaxBlockSize_def)

lemma initBlockSizes_ok: "initBlockSizes"
  by (simp add: initBlockSizes_def BlockSizes_eq sha256OfEmptyBlock_def)

text \<open>
  \<open>BlockSize\<close> returns one of the eight valid block sizes; it is the smallest one
  with fewer than 2000 blocks' worth of data for the file, or the largest valid size when
  the file is too big for that.
\<close>

lemma BlockSize_correct:
  "BlockSize n \<in> set BlockSizes
   \<and> (n < DesiredPerFileBlocks * BlockSize n \<or> BlockSize n = MaxBlockSize)
   \<and> \<not> (\<exists>b\<in>set BlockSizes. b < BlockSize n \<and> n < DesiredPerFileBlocks * b)"
  by (simp add: BlockSize_def BlockSizes_eq DesiredPerFileBlocks_def MaxBlockSize_def)

section \<open>Modification times\<close>

lemma ModTimeEqual_ns:
  assumes "time_wf a" and "time_wf b" and "\<bar>tSec a\<bar> < 2 ^ 62" and "\<bar>tSec b\<bar> < 2 ^ 62"
    and "\<bar>time_ns a - time_ns b\<bar> < 2 ^ 63"
  shows "ModTimeEqual a b w \<longleftrightarrow> a = b \<or> \<bar>time_ns a - time_ns b\<bar> < w"
proof -
  have "time_Sub a b = time_ns a - time_ns b"
    using assms by (auto simp: time_Sub_ns minDuration_def maxDuration_def abs_less_iff)
  moreover have "is_i64 (time_ns b - time_ns a)"
    using assms(5) by (auto simp: is_i64_def abs_less_iff)
  ultimately show ?thesis
    by (auto simp: ModTimeEqual_def time_Equal_iff Let_def)
qed

text \<open>
  For timestamps that are not at the far ends of \<open>int64\<close> and are less than
  \<open>2 ^ 63\<close> nanoseconds (292 years) apart, \<open>ModTimeEqual\<close> holds exactly when the instants are
  the same or their distance is below the window.
\<close>

lemma ModTimeEqual_correct:
  assumes "time_wf a" and "time_wf b" and "\<bar>tSec a\<bar> < 2 ^ 62" and "\<bar>tSec b\<bar> < 2 ^ 62"
    and "\<bar>time_ns a - time_ns b\<bar> < 2 ^ 63"
  shows "ModTimeEqual a b w \<longleftrightarrow> a = b \<or> \<bar>time_ns a - time_ns b\<bar> < w"
  using assms by (rule ModTimeEqual_ns)

text \<open>
  When the first instant is more than 292 years before the second one, the
  saturated difference is the least \<open>Duration\<close>, whose negation is itself: it stays negative
  and is below every positive window, so the two times count as equal; with the arguments
  exchanged they do not.
\<close>

lemma ModTimeEqual_saturates:
  assumes "time_wf a" and "time_wf b" and "\<bar>tSec a\<bar> < 2 ^ 62" and "\<bar>tSec b\<bar> < 2 ^ 62"
    and "time_ns b - time_ns a > 2 ^ 63" and "0 \<le> w" and "is_i64 w"
  shows "ModTimeEqual a b w \<and> \<not> ModTimeEqual b a w"
proof -
  have "time_Sub a b = - (2 ^ 63)" "time_Sub b a = 2 ^ 63 - 1"
    using assms by (auto simp: time_Sub_ns minDuration_def maxDuration_def)
  moreover have "a \<noteq> b" using assms(5) by auto
  ultimately show ?thesis
    using assms(6,7) by (auto simp: ModTimeEqual_def time_Equal_iff to_i64_def is_i64_def)
qed

section \<open>Equivalence\<close>

lemma xattrsEqualLoop_iff:
  "length xs = length ys \<Longrightarrow> xattrsEqualLoop xs ys \<longleftrightarrow> xs = ys"
  by (induction xs ys rule: list_induct2) (auto intro: Xattr.equality)

lemma xattrsEqual_iff:
  "xattrsEqual a b \<longleftrightarrow> (case a of None \<Rightarrow> [] | Some xs \<Rightarrow> xs) = (case b of None \<Rightarrow> [] | Some ys \<Rightarrow> ys)"
  by (cases a; cases b) (auto simp: xattrsEqual_def Let_def xattrsEqualLoop_iff)

lemma ownership_refl [simp]: "unixOwnershipEqual u u" "windowsOwnershipEqual w w"
  by (cases u; simp add: unixOwnershipEqual_def) (cases w; simp add: windowsOwnershipEqual_def)

lemma ownership_sym:
  "unixOwnershipEqual u v = unixOwnershipEqual v u"
  "windowsOwnershipEqual w x = windowsOwnershipEqual x w"
  by (cases u; cases v; auto simp: unixOwnershipEqual_def)
    (cases w; cases x; auto simp: windowsOwnershipEqual_def)

lemma xattrsEqual_refl [simp]: "xattrsEqual x x"
  by (simp add: xattrsEqual_iff)

lemma xattrsEqual_sym: "xattrsEqual x y = xattrsEqual y x"
  by (auto simp: xattrsEqual_iff)

lemma PermsEqual_sym: "PermsEqual os a b = PermsEqual os b a"
  by (auto simp: PermsEqual_def)

lemma blocksEqualLoop_iff:
  "length xs = length ys \<Longrightarrow> blocksEqualLoop xs ys \<longleftrightarrow> map bHash xs = map bHash ys"
  by (induction xs ys rule: list_induct2) auto

lemma blocksEqual_iff: "blocksEqual a b \<longleftrightarrow> map bHash a = map bHash b"
proof (cases "length a = length b")
  case False
  then have "map bHash a \<noteq> map bHash b" using map_eq_imp_length_eq by blast
  with False show ?thesis by (simp add: blocksEqual_def)
qed (simp add: blocksEqual_def blocksEqualLoop_iff)

lemma BlocksEqual_sym: "BlocksEqual f g = BlocksEqual g f"
  by (auto simp: BlocksEqual_def blocksEqual_iff)

lemma isEquivalent_samePtr:
  assumes "fPlatform f = fPlatform g"
  shows "isEquivalent os samePtr f g cmp = isEquivalent os False f g cmp"
  unfolding isEquivalent_def Let_def by (simp add: assms)

text \<open>The comparison as one conjunction.\<close>

definition ownership_ok :: "PlatformData \<Rightarrow> PlatformData \<Rightarrow> bool" where
  "ownership_ok p q \<longleftrightarrow>
     unixOwnershipEqual (pUnix p) (pUnix q) \<and> windowsOwnershipEqual (pWindows p) (pWindows q)"

definition xattrs_ok :: "PlatformData \<Rightarrow> PlatformData \<Rightarrow> bool" where
  "xattrs_ok p q \<longleftrightarrow>
     xattrsEqual (pLinux p) (pLinux q) \<and> xattrsEqual (pDarwin p) (pDarwin q)
     \<and> xattrsEqual (pFreeBSD p) (pFreeBSD q) \<and> xattrsEqual (pNetBSD p) (pNetBSD q)"

definition perms_ok :: "goos \<Rightarrow> FileInfo \<Rightarrow> FileInfo \<Rightarrow> bool" where
  "perms_ok os f g \<longleftrightarrow>
     fNoPermissions f \<or> fNoPermissions g \<or> PermsEqual os (fPermissions f) (fPermissions g)"

definition content_ok :: "FileInfo \<Rightarrow> FileInfo \<Rightarrow> FileInfoComparison \<Rightarrow> bool" where
  "content_ok f g cmp \<longleftrightarrow>
     fType f = fType g \<and>
     (fType f = FileInfoTypeFile \<and> fSize f = fSize g
        \<and> ModTimeEqual (ModTime f) (ModTime g) (ModTimeWindow cmp)
        \<and> (IgnoreBlocks cmp \<or> BlocksEqual f g)
      \<or> fType f = FileInfoTypeSymlink \<and> fSymlinkTarget f = fSymlinkTarget g
      \<or> fType f = FileInfoTypeDirectory)"

definition equivalent_spec :: "goos \<Rightarrow> FileInfo \<Rightarrow> FileInfo \<Rightarrow> FileInfoComparison \<Rightarrow> bool" where
  "equivalent_spec os f g cmp \<longleftrightarrow>
     \<not> (MustRescan f \<or> MustRescan g) \<and> fName f = fName g \<and> fDeleted f = fDeleted g
     \<and> FlagLocal_IsInvalid (fLocalFlags f AND NOT (IgnoreFlags cmp))
         = FlagLocal_IsInvalid (fLocalFlags g AND NOT (IgnoreFlags cmp))
     \<and> (IgnoreOwnership cmp \<or> ownership_ok (fPlatform f) (fPlatform g))
     \<and> (IgnoreXattrs cmp \<or> xattrs_ok (fPlatform f) (fPlatform g))
     \<and> (IgnorePerms cmp \<or> perms_ok os f g)
     \<and> content_ok f g cmp"

lemma oks_sym:
  "ownership_ok p q = ownership_ok q p"
  "xattrs_ok p q = xattrs_ok q p"
  "perms_ok os f g = perms_ok os g f"
  using ownership_sym xattrsEqual_sym PermsEqual_sym
  by (auto simp: ownership_ok_def xattrs_ok_def perms_ok_def)

lemma case_FileInfoType:
  "(case t of FileInfoTypeFile \<Rightarrow> A | FileInfoTypeSymlink \<Rightarrow> B | FileInfoTypeDirectory \<Rightarrow> True | _ \<Rightarrow> False)
    \<longleftrightarrow> t = FileInfoTypeFile \<and> A \<or> t = FileInfoTypeSymlink \<and> B \<or> t = FileInfoTypeDirectory"
  by (cases t) simp_all

lemma masked_simps:
  "ModTime (f\<lparr>fLocalFlags := x\<rparr>) = ModTime f"
  "IsInvalid (f\<lparr>fLocalFlags := x\<rparr>) = FlagLocal_IsInvalid x"
  "BlocksEqual (f\<lparr>fLocalFlags := x\<rparr>) (g\<lparr>fLocalFlags := y\<rparr>) = BlocksEqual f g"
  by (simp_all add: ModTime_def IsInvalid_def BlocksEqual_def)

lemma isEquivalent_spec: "isEquivalent os False f g cmp = equivalent_spec os f g cmp"
  unfolding isEquivalent_def equivalent_spec_def Let_def case_FileInfoType masked_simps
    content_ok_def ownership_ok_def xattrs_ok_def perms_ok_def
  by simp blast

lemma content_ok_sym:
  assumes "ModTimeEqual (ModTime f) (ModTime g) (ModTimeWindow cmp)
             = ModTimeEqual (ModTime g) (ModTime f) (ModTimeWindow cmp)"
  shows "content_ok f g cmp = content_ok g f cmp"
  using BlocksEqual_sym [of f g]
  by (cases "fType f"; cases "fType g") (auto simp: content_ok_def assms)

lemma equivalent_spec_sym:
  assumes "ModTimeEqual (ModTime f) (ModTime g) (ModTimeWindow cmp)
             = ModTimeEqual (ModTime g) (ModTime f) (ModTimeWindow cmp)"
  shows "equivalent_spec os f g cmp = equivalent_spec os g f cmp"
  unfolding equivalent_spec_def content_ok_sym [OF assms] oks_sym(3) [of os f g]
    oks_sym(1,2) [of "fPlatform f" "fPlatform g"]
  by (simp only: disj_commute eq_commute)

text \<open>
  \<open>isEquivalent\<close>, whether it skips the platform comparison because the pointers
  agree or not, decides the documented conjunction: same name, type, deletion state and
  (masked) validity, matching ownership, extended attributes and permission bits unless
  ignored, and by type equal size, modification time and blocks (file), equal target
  (symlink) or nothing more (directory).
\<close>

lemma isEquivalent_correct:
  assumes "samePtr \<longrightarrow> fPlatform f = fPlatform g"
  shows "isEquivalent os samePtr f g cmp \<longleftrightarrow> equivalent_spec os f g cmp"
  using assms isEquivalent_samePtr [of f g] by (cases samePtr) (simp_all add: isEquivalent_spec)

lemma ModTime_sec: "\<bar>fModifiedS f\<bar> < 2 ^ 61 \<Longrightarrow> is_i32 (fModifiedNs f) \<Longrightarrow> \<bar>tSec (ModTime f)\<bar> < 2 ^ 62"
proof -
  assume a: "\<bar>fModifiedS f\<bar> < 2 ^ 61" "is_i32 (fModifiedNs f)"
  have "time_ns (ModTime f) = (fModifiedS f + unixToInternal) * 1000000000 + fModifiedNs f"
    unfolding ModTime_def using a by (intro time_Unix_ns) auto
  moreover have "0 \<le> tNsec (ModTime f)" "tNsec (ModTime f) < 1000000000"
    using time_wf_Unix by (auto simp: ModTime_def time_wf_def)
  ultimately show ?thesis
    using a by (auto simp: time_ns_def unixToInternal_def is_i32_def abs_less_iff)
qed

text \<open>
  Equivalence of scanned files is reflexive (for every file that need not be
  rescanned and has a supported type) and symmetric as long as the modification times are
  less than 292 years apart.
\<close>

lemma isEquivalent_refl_sym:
  assumes "\<bar>fModifiedS f\<bar> < 2 ^ 61" "is_i32 (fModifiedNs f)"
    and "\<bar>fModifiedS g\<bar> < 2 ^ 61" "is_i32 (fModifiedNs g)"
    and "\<bar>time_ns (ModTime f) - time_ns (ModTime g)\<bar> < 2 ^ 63"
  shows "isEquivalent os False f g cmp = isEquivalent os False g f cmp
    \<and> (\<not> MustRescan f \<and> fType f \<in> {FileInfoTypeFile, FileInfoTypeSymlink, FileInfoTypeDirectory} \<longrightarrow>
          isEquivalent os False f f cmp)"
proof (intro conjI impI)
  have wf: "time_wf (ModTime f)" "time_wf (ModTime g)"
    by (simp_all add: ModTime_def time_wf_Unix)
  have "ModTimeEqual (ModTime f) (ModTime g) w = ModTimeEqual (ModTime g) (ModTime f) w" for w
    using assms ModTime_sec [of f] ModTime_sec [of g] wf
    by (simp add: ModTimeEqual_ns abs_minus_commute eq_commute)
  then show "isEquivalent os False f g cmp = isEquivalent os False g f cmp"
    unfolding isEquivalent_spec by (intro equivalent_spec_sym)
  show "isEquivalent os False f f cmp"
    if "\<not> MustRescan f \<and> fType f \<in> {FileInfoTypeFile, FileInfoTypeSymlink, FileInfoTypeDirectory}"
    using that
    by (auto simp: isEquivalent_spec equivalent_spec_def ModTimeEqual_def time_Equal_iff
        ownership_ok_def xattrs_ok_def perms_ok_def content_ok_def PermsEqual_def BlocksEqual_def
        blocksEqual_iff)
qed

section \<open>Setters and display\<close>

text \<open>
  The setters leave no stale content behind: blocks, block hash and size are
  cleared, exactly the named reason is set and the file counts as invalid; a deletion moves
  the version strictly forward unless the device's counter is at its maximum.
\<close>

lemma setters_correct:
  assumes "vv_wf (fVersion f)"
  shows "(\<forall>s. s \<in> {SetIgnored, SetMustRescan, SetUnsupported} \<longrightarrow>
            fBlocks (s f) = [] \<and> fBlocksHash (s f) = [] \<and> fSize (s f) = 0 \<and> IsInvalid (s f))
    \<and> IsIgnored (SetIgnored f) \<and> \<not> MustRescan (SetIgnored f) \<and> \<not> IsUnsupported (SetIgnored f)
    \<and> MustRescan (SetMustRescan f) \<and> \<not> IsIgnored (SetMustRescan f) \<and> \<not> IsUnsupported (SetMustRescan f)
    \<and> IsUnsupported (SetUnsupported f) \<and> \<not> IsIgnored (SetUnsupported f) \<and> \<not> MustRescan (SetUnsupported f)
    \<and> fDeleted (SetDeleted i now f) \<and> fBlocks (SetDeleted i now f) = [] \<and> FileSize (SetDeleted i now f) = 0
    \<and> IsInvalid (SetDeleted i now f) = IsInvalid f
    \<and> (Counter_of (fVersion f) i \<noteq> - 1 \<longrightarrow>
         Compare (fVersion (SetDeleted i now f)) (fVersion f) = Greater)"
proof (intro conjI)
  show "Counter_of (fVersion f) i \<noteq> - 1 \<longrightarrow>
         Compare (fVersion (SetDeleted i now f)) (fVersion f) = Greater"
    using assms vv.bump_greater by (simp add: SetDeleted_def setNoContent_def Update_def)
qed (auto simp: SetIgnored_def SetMustRescan_def SetUnsupported_def SetDeleted_def setLocalFlags_def
    setNoContent_def flag_test_bits flag_defs FlagLocal_IsInvalid_bits bit_push_bit_iff bit_1_iff FileSize_def)

text \<open>The iteration bound of \<open>humanLoop\<close> is never what ends the loop.\<close>

lemma humanLoop_clears:
  "(\<And>n. n < k \<Longrightarrow> \<not> bit f n) \<Longrightarrow> n < Suc k \<Longrightarrow> \<not> bit ((f :: u32) AND NOT (push_bit k 1)) n"
  by (auto simp: bit_simps less_Suc_eq)

lemma humanLoop_bound: "(\<And>n. n < k \<Longrightarrow> \<not> bit f n) \<Longrightarrow> 32 \<le> k \<Longrightarrow> (f :: u32) = 0"
  by (rule bit_word_eqI) (simp add: le_trans)

end
