(* ===== verification/Folder_DB.thy ===== *)
theory Folder_DB
  imports File_Info Device_ID "HOL-Library.Multiset" "HOL-Library.AList"
begin

text \<open>
  The per-folder database: \<open>internal/db/sqlite/folderdb_update.go\<close>, \<open>folderdb_open.go\<close> and
  the schema under \<open>sql/schema/folder\<close>.

  The state is the content of the tables. The tables \<open>file_names\<close> and \<open>file_versions\<close>
  only intern strings (their indexes are a bijection), so a row of \<open>files\<close> holds the name
  and the version text themselves; \<open>devices\<close> is keyed by the device ID, whose text is a
  bijection as well. The statements of the sources, the unique indexes of the schema
  (\<open>INSERT OR REPLACE\<close> deletes the rows it conflicts with and, with recursive triggers
  enabled, fires their delete triggers), the cascading foreign keys and the triggers that
  maintain \<open>counts\<close> and \<open>indexids\<close> are written out. Failures of SQLite itself are not
  modelled; an error of the program rolls the transaction back.

  What is not under \<open>src/\<close> is collected in \<open>db_env\<close>: file name normalisation, SHA-256, the
  protobuf marshallers and \<open>slices.SortFunc\<close> applied to \<open>fileRow.Compare\<close>. The order in
  which a \<open>SELECT\<close> without \<open>ORDER BY\<close> yields its rows is the list order here; the results
  hold for every permutation the sort may return.
\<close>

section \<open>Tables\<close>

record db_row =
  rDevice :: int
  rSequence :: int
  rRemoteSeq :: "int option"
  rName :: string
  rType :: FileInfoType
  rModified :: int
  rSize :: int
  rVersion :: string
  rDeleted :: bool
  rFlags :: FlagLocal
  rBlocklist :: "byte list option"

type_synonym counts_key = "int \<times> FileInfoType \<times> FlagLocal \<times> bool"
type_synonym counts_table = "(counts_key \<times> int \<times> int) list"

record folderDB =
  devices :: "(int \<times> DeviceID) list"
  nextDevice :: int
  files :: "db_row list"
  nextSeq :: int
  counts :: counts_table
  indexids :: "int \<Rightarrow> (string \<times> int) option"
  fileinfos :: "int \<Rightarrow> (byte list) option"
  blocklists :: "byte list \<Rightarrow> (byte list) option"
  blocks :: "byte list \<times> byte list \<times> nat \<Rightarrow> (int \<times> int) option"
  localDeviceIdx :: int

record fileRow =
  eName :: string
  eVersion :: Vector
  eDeviceIdx :: int
  eSequence :: int
  eModified :: int
  eLocalFlags :: FlagLocal
  eDeleted :: bool

record db_env =
  NormalizedFilename :: "string \<Rightarrow> string"
  NativeFilename :: "string \<Rightarrow> string"
  sha256 :: "byte list \<Rightarrow> byte list"
  sortRows :: "fileRow list \<Rightarrow> fileRow list"
  marshalFI :: "bep_FileInfo \<Rightarrow> byte list"
  unmarshalFI :: "byte list \<Rightarrow> bep_FileInfo option"
  marshalBL :: "bep_BlockInfo list \<Rightarrow> byte list"
  unmarshalBL :: "byte list \<Rightarrow> bep_BlockInfo list option"

datatype db_error = DuplicateRemoteSequence int | BadVersion vector_error | UnmarshalError | EmptyIn | SqlSyntax

section \<open>Triggers\<close>

definition rowKey :: "db_row \<Rightarrow> counts_key" where
  "rowKey r = (rDevice r, rType r, rFlags r, rDeleted r)"

definition trig_counts_insert :: "db_row \<Rightarrow> counts_table \<Rightarrow> counts_table" where
  "trig_counts_insert r c =
     (case map_of c (rowKey r) of
        None \<Rightarrow> AList.update (rowKey r) (1, rSize r) c
      | Some (n, s) \<Rightarrow> AList.update (rowKey r) (n + 1, s + rSize r) c)"

definition trig_counts_delete :: "db_row \<Rightarrow> counts_table \<Rightarrow> counts_table" where
  "trig_counts_delete r c =
     (case map_of c (rowKey r) of
        None \<Rightarrow> c
      | Some (n, s) \<Rightarrow> AList.update (rowKey r) (n - 1, s - rSize r) c)"

definition trig_counts_update :: "db_row \<Rightarrow> db_row \<Rightarrow> counts_table \<Rightarrow> counts_table" where
  "trig_counts_update old new c =
     (if rFlags new \<noteq> rFlags old then trig_counts_delete old (trig_counts_insert new c) else c)"

definition trig_indexids_seq ::
  "db_row \<Rightarrow> (int \<Rightarrow> (string \<times> int) option) \<Rightarrow> (int \<Rightarrow> (string \<times> int) option)" where
  "trig_indexids_seq r m =
     (let s = (case rRemoteSeq r of Some q \<Rightarrow> q | None \<Rightarrow> rSequence r) in
      case m (rDevice r) of
        None \<Rightarrow> m(rDevice r := Some ([], s))
      | Some (i, _) \<Rightarrow> m(rDevice r := Some (i, s)))"

section \<open>Statements\<close>

text \<open>\<open>DELETE FROM files WHERE P\<close>: the delete trigger for each row, and the cascade to \<open>fileinfos\<close>.\<close>

definition deleteFiles :: "(db_row \<Rightarrow> bool) \<Rightarrow> folderDB \<Rightarrow> folderDB" where
  "deleteFiles P db =
     (let gone = filter P (files db) in
      db\<lparr>files := filter (\<lambda>r. \<not> P r) (files db),
         counts := fold trig_counts_delete gone (counts db),
         fileinfos := (\<lambda>s. if s \<in> rSequence ` set gone then None else fileinfos db s)\<rparr>)"

text \<open>\<open>UPDATE files SET local_flags = g(local_flags) WHERE P\<close>.\<close>

definition updateFlags :: "(db_row \<Rightarrow> bool) \<Rightarrow> (FlagLocal \<Rightarrow> FlagLocal) \<Rightarrow> folderDB \<Rightarrow> folderDB" where
  "updateFlags P g db =
     (let upd = (\<lambda>r. if P r then r\<lparr>rFlags := g (rFlags r)\<rparr> else r) in
      db\<lparr>files := map upd (files db),
         counts := fold (\<lambda>r. trig_counts_update r (upd r)) (files db) (counts db)\<rparr>)"

text \<open>
  \<open>INSERT OR REPLACE INTO files\<close>: rows with the same device and name, or the same device and
  (non-null) remote sequence, are replaced; the new row gets the next sequence number.
\<close>

definition insertConflict :: "db_row \<Rightarrow> db_row \<Rightarrow> bool" where
  "insertConflict r x \<longleftrightarrow>
     rDevice x = rDevice r
     \<and> (rName x = rName r \<or> rRemoteSeq r \<noteq> None \<and> rRemoteSeq x = rRemoteSeq r)"

definition insertFile :: "db_row \<Rightarrow> folderDB \<Rightarrow> int \<times> folderDB" where
  "insertFile r0 db0 =
     (let r = r0\<lparr>rSequence := nextSeq db0\<rparr>;
          db = deleteFiles (insertConflict r) db0
      in (nextSeq db0,
          db\<lparr>files := files db @ [r], nextSeq := nextSeq db0 + 1,
             counts := trig_counts_insert r (counts db),
             indexids := trig_indexids_seq r (indexids db)\<rparr>))"

definition deviceIdxLocked :: "DeviceID \<Rightarrow> folderDB \<Rightarrow> int \<times> folderDB" where
  "deviceIdxLocked d db =
     (case map_of (map (\<lambda>(i, d). (d, i)) (devices db)) d of
        Some i \<Rightarrow> (i, db)
      | None \<Rightarrow> (nextDevice db, db\<lparr>devices := devices db @ [(nextDevice db, d)],
                                    nextDevice := nextDevice db + 1\<rparr>))"

text \<open>
  \<open>openFolderDB\<close> on a new database: the schema is empty and the local device is touched
  first, so it has the lowest index.
\<close>

definition emptyDB :: folderDB where
  "emptyDB =
     \<lparr>devices = [], nextDevice = 1, files = [], nextSeq = 1, counts = [],
      indexids = (\<lambda>_. None), fileinfos = (\<lambda>_. None), blocklists = (\<lambda>_. None),
      blocks = (\<lambda>_. None), localDeviceIdx = 0\<rparr>"

definition openFolderDB :: "folderDB \<Rightarrow> folderDB" where
  "openFolderDB db0 = (let (i, db) = deviceIdxLocked LocalDeviceID db0 in db\<lparr>localDeviceIdx := i\<rparr>)"

section \<open>Choosing the global version\<close>

definition fileRow_IsInvalid :: "fileRow \<Rightarrow> bool" where
  "fileRow_IsInvalid e = FlagLocal_IsInvalid (eLocalFlags e)"

definition cmp_int :: "int \<Rightarrow> int \<Rightarrow> int" where
  "cmp_int a b = (if a < b then - 1 else if a > b then 1 else 0)"

definition fileRow_Compare :: "fileRow \<Rightarrow> fileRow \<Rightarrow> int" where
  "fileRow_Compare e other =
     (let vc = Compare (eVersion e) (eVersion other) in
      case vc of
        Equal \<Rightarrow>
          (if fileRow_IsInvalid e \<noteq> fileRow_IsInvalid other then
             (if fileRow_IsInvalid e then 1 else - 1)
           else cmp_int (eDeviceIdx e) (eDeviceIdx other))
      | Greater \<Rightarrow> - 1
      | Lesser \<Rightarrow> 1
      | _ \<Rightarrow>
          (if fileRow_IsInvalid e \<noteq> fileRow_IsInvalid other then
             (if fileRow_IsInvalid e then 1 else - 1)
           else
             (let d = cmp_int (eModified e) (eModified other) in
              if d \<noteq> 0 then - d
              else if vc = ConcurrentGreater then - 1
              else 1)))"

text \<open>\<open>slices.IndexFunc\<close>.\<close>

fun IndexFunc :: "('a \<Rightarrow> bool) \<Rightarrow> 'a list \<Rightarrow> int" where
  "IndexFunc P [] = - 1"
| "IndexFunc P (x # xs) = (if P x then 0 else (let i = IndexFunc P xs in if i < 0 then - 1 else i + 1))"

definition scanRow :: "db_row \<Rightarrow> (db_error, fileRow) result" where
  "scanRow r =
     (case dbVector_Scan (rVersion r) of
        Ok v \<Rightarrow> Ok \<lparr>eName = rName r, eVersion = v, eDeviceIdx = rDevice r, eSequence = rSequence r,
                     eModified = rModified r, eLocalFlags = rFlags r, eDeleted = rDeleted r\<rparr>
      | Err e \<Rightarrow> Err (BadVersion e)
      | Panic \<Rightarrow> Panic)"

text \<open>The choice among the sorted entries: the position of the global one, and whether we have it.\<close>

definition globalIdx :: "fileRow list \<Rightarrow> int" where
  "globalIdx es =
     (let i = IndexFunc (\<lambda>e. \<not> fileRow_IsInvalid e) es in if i < 0 then 0 else i)"

definition hasLocal :: "int \<Rightarrow> fileRow list \<Rightarrow> bool" where
  "hasLocal localIdxDev es =
     (let globIdx = globalIdx es;
          global = es ! nat globIdx;
          localIdx = IndexFunc (\<lambda>e. eDeviceIdx e = localIdxDev) es
      in localIdx \<ge> 0 \<and> localIdx \<le> globIdx
         \<or> localIdx \<ge> 0 \<and> VEqual (eVersion (es ! nat localIdx)) (eVersion global)
         \<or> localIdx < 0 \<and> eDeleted global)"

definition globalFlags :: "int \<Rightarrow> fileRow list \<Rightarrow> FlagLocal" where
  "globalFlags localIdxDev es =
     (let global = es ! nat (globalIdx es);
          fl = eLocalFlags global OR FlagLocalGlobal
      in if hasLocal localIdxDev es \<or> FlagLocal_IsInvalid fl then fl AND NOT FlagLocalNeeded
         else fl OR FlagLocalNeeded)"

definition recalcGlobalForFile :: "db_env \<Rightarrow> string \<Rightarrow> folderDB \<Rightarrow> (db_error, folderDB) result" where
  "recalcGlobalForFile env file db =
     bind_result (traverse_result scanRow (filter (\<lambda>r. rName r = file) (files db))) (\<lambda>es0.
       if es0 = [] then Ok db
       else
         (let es = sortRows env es0;
              global = es ! nat (globalIdx es);
              fl = globalFlags (localDeviceIdx db) es;
              db1 = updateFlags (\<lambda>r. rDevice r = eDeviceIdx global \<and> rSequence r = eSequence global)
                      (\<lambda>_. fl) db;
              both = FlagLocalNeeded OR FlagLocalGlobal;
              db2 = updateFlags
                      (\<lambda>r. rName r = eName global \<and> rSequence r \<noteq> eSequence global
                           \<and> rFlags r AND both \<noteq> 0)
                      (\<lambda>x. x AND NOT both) db1
          in Ok db2))"

text \<open>\<open>fold\<close> of a fallible step over a list, stopping at the first failure.\<close>

fun foldM :: "('a \<Rightarrow> 's \<Rightarrow> ('e, 's) result) \<Rightarrow> 'a list \<Rightarrow> 's \<Rightarrow> ('e, 's) result" where
  "foldM f [] s = Ok s"
| "foldM f (x # xs) s = bind_result (f x s) (foldM f xs)"

definition noGlobalNames :: "folderDB \<Rightarrow> string list" where
  "noGlobalNames db =
     remdups (map rName (filter (\<lambda>f. \<not> (\<exists>g\<in>set (files db). rName g = rName f
                                          \<and> rFlags g AND FlagLocalGlobal \<noteq> 0)) (files db)))"

definition recalcGlobalForFolder :: "db_env \<Rightarrow> folderDB \<Rightarrow> (db_error, folderDB) result" where
  "recalcGlobalForFolder env db = foldM (recalcGlobalForFile env) (noGlobalNames db) db"

section \<open>Updates\<close>

definition insertBlocksLocked :: "byte list \<Rightarrow> BlockInfo list \<Rightarrow> folderDB \<Rightarrow> folderDB" where
  "insertBlocksLocked h bs db =
     db\<lparr>blocks := fold (\<lambda>(i, b) m.
         let k = (bHash b, h, i) in if m k = None then m(k := Some (bOffset b, bSize b)) else m)
       (enumerate 0 bs) (blocks db)\<rparr>"

text \<open>One iteration of the loop of \<open>Update\<close>; \<open>prev\<close> is \<open>prevRemoteSeq\<close>, \<open>None\<close> before the first file.\<close>

definition prepareFile :: "db_env \<Rightarrow> FileInfo \<Rightarrow> FileInfo" where
  "prepareFile env f0 =
     (let f1 = f0\<lparr>fName := NormalizedFilename env (fName f0)\<rparr>;
          f2 = f1\<lparr>fBlocksHash := (if fBlocks f1 = [] then [] else BlocksHash (sha256 env) (fBlocks f1))\<rparr>
      in if fType f2 = FileInfoTypeDirectory then f2\<lparr>fSize := 128\<rparr> else f2)"

definition fileDBRow :: "int \<Rightarrow> int option \<Rightarrow> FileInfo \<Rightarrow> db_row" where
  "fileDBRow deviceIdx remoteSeq f =
     \<lparr>rDevice = deviceIdx, rSequence = 0, rRemoteSeq = remoteSeq, rName = fName f, rType = fType f,
      rModified = time_UnixNano (ModTime f), rSize = fSize f, rVersion = Vector_String (fVersion f),
      rDeleted = fDeleted f, rFlags = fLocalFlags f,
      rBlocklist = (if fBlocks f = [] then None else Some (fBlocksHash f))\<rparr>"

definition storeBlocks :: "db_env \<Rightarrow> bool \<Rightarrow> bool \<Rightarrow> FileInfo \<Rightarrow> folderDB \<Rightarrow> folderDB" where
  "storeBlocks env isLocal skipBlockIndex f db =
     (if fBlocks f = [] then db
      else
        (let bl = blocklists db;
             db1 = db\<lparr>blocklists :=
               (if bl (fBlocksHash f) = None
                then bl(fBlocksHash f := Some (marshalBL env (map BlockInfo_ToWire (fBlocks f)))) else bl)\<rparr>
         in if isLocal \<and> \<not> skipBlockIndex then insertBlocksLocked (fBlocksHash f) (fBlocks f) db1 else db1))"

definition lift_unit :: "(unit, 'a) result \<Rightarrow> ('e, 'a) result" where
  "lift_unit r = (case r of Ok a \<Rightarrow> Ok a | Err _ \<Rightarrow> Panic | Panic \<Rightarrow> Panic)"

definition updateFile ::
  "db_env \<Rightarrow> DeviceID \<Rightarrow> int \<Rightarrow> bool \<Rightarrow> FileInfo \<Rightarrow> int option \<times> folderDB \<Rightarrow>
     (db_error, int option \<times> folderDB) result" where
  "updateFile env device deviceIdx skipBlockIndex f0 = (\<lambda>(prev, db).
     (let f = prepareFile env f0; isLocal = (device = LocalDeviceID) in
      if \<not> isLocal \<and> prev = Some (fSequence f) then Err (DuplicateRemoteSequence (fSequence f))
      else
        (let remoteSeq = (if isLocal then None else Some (fSequence f));
             (localSeq, db1) = insertFile (fileDBRow deviceIdx remoteSeq f) db;
             db2 = storeBlocks env isLocal skipBlockIndex f db1;
             g = f\<lparr>fBlocks := [], fSequence := (if isLocal then localSeq else fSequence f)\<rparr>
         in bind_result (lift_unit (FileInfo_ToWire True g)) (\<lambda>w.
              let db3 = db2\<lparr>fileinfos := (fileinfos db2)(localSeq := Some (marshalFI env w))\<rparr>
              in bind_result (recalcGlobalForFile env (fName g) db3) (\<lambda>db4.
                   Ok (if isLocal then prev else Some (fSequence f), db4))))))"

text \<open>The result, and the state after the commit or the rollback.\<close>

definition commit :: "folderDB \<Rightarrow> (db_error, folderDB) result \<Rightarrow> (db_error, unit) result \<times> folderDB" where
  "commit db r = (case r of Ok db' \<Rightarrow> (Ok (), db') | Err e \<Rightarrow> (Err e, db) | Panic \<Rightarrow> (Panic, db))"

definition db_Update ::
  "db_env \<Rightarrow> DeviceID \<Rightarrow> FileInfo list \<Rightarrow> bool \<Rightarrow> folderDB \<Rightarrow> (db_error, unit) result \<times> folderDB" where
  "db_Update env device fs skipBlockIndex db0 =
     (let (deviceIdx, db) = deviceIdxLocked device db0 in
      commit db
        (bind_result (foldM (updateFile env device deviceIdx skipBlockIndex) fs (None, db))
          (\<lambda>(prev, db'). Ok db')))"

definition DropDevice ::
  "db_env \<Rightarrow> DeviceID \<Rightarrow> folderDB \<Rightarrow> (db_error, unit) result \<times> folderDB" where
  "DropDevice env device db =
     (if device = LocalDeviceID then (Panic, db)
      else
        (let idxs = map fst (filter (\<lambda>(i, d). d = device) (devices db));
             db1 = deleteFiles (\<lambda>r. rDevice r \<in> set idxs) db;
             db2 = db1\<lparr>devices := filter (\<lambda>(i, d). d \<noteq> device) (devices db1),
                       counts := filter (\<lambda>(k, _). fst k \<notin> set idxs) (counts db1),
                       indexids := (\<lambda>i. if i \<in> set idxs then None else indexids db1 i)\<rparr>
         in commit db (recalcGlobalForFolder env db2)))"

definition DropAllFiles ::
  "db_env \<Rightarrow> DeviceID \<Rightarrow> folderDB \<Rightarrow> (db_error, unit) result \<times> folderDB" where
  "DropAllFiles env device db0 =
     (let (deviceIdx, db) = deviceIdxLocked device db0;
          db1 = deleteFiles (\<lambda>r. rDevice r = deviceIdx) db
      in if filter (\<lambda>r. rDevice r = deviceIdx) (files db) = [] then (Ok (), db1)
         else commit db (recalcGlobalForFolder env db1))"

text \<open>\<open>sqlx.In\<close> refuses an empty list of names.\<close>

definition DropFilesNamed ::
  "db_env \<Rightarrow> DeviceID \<Rightarrow> string list \<Rightarrow> folderDB \<Rightarrow> (db_error, unit) result \<times> folderDB" where
  "DropFilesNamed env device names0 db0 =
     (let names = map (NormalizedFilename env) names0;
          (deviceIdx, db) = deviceIdxLocked device db0;
          db1 = deleteFiles (\<lambda>r. rDevice r = deviceIdx \<and> rName r \<in> set names) db
      in if names = [] then (Err EmptyIn, db)
         else commit db (foldM (recalcGlobalForFile env) names db1))"

section \<open>The counts table\<close>

text \<open>
  What the triggers maintain: the entry of a bucket is the number and the total size of the
  rows in it, a missing entry standing for none.
\<close>

definition tally :: "db_row multiset \<Rightarrow> counts_key \<Rightarrow> int \<times> int" where
  "tally M k = (int (size (filter_mset (\<lambda>r. rowKey r = k) M)),
                sum_mset (image_mset rSize (filter_mset (\<lambda>r. rowKey r = k) M)))"

definition bucket :: "counts_table \<Rightarrow> counts_key \<Rightarrow> int \<times> int" where
  "bucket c k = (case map_of c k of None \<Rightarrow> (0, 0) | Some p \<Rightarrow> p)"

definition represents :: "counts_table \<Rightarrow> db_row multiset \<Rightarrow> bool" where
  "represents c M \<longleftrightarrow> distinct (map fst c) \<and> bucket c = tally M"

lemma tally_add:
  "tally (add_mset r M) =
     (tally M)(rowKey r := (fst (tally M (rowKey r)) + 1, snd (tally M (rowKey r)) + rSize r))"
  by (rule ext) (simp add: tally_def)

lemma tally_nonneg: "0 \<le> fst (tally M k)"
  by (simp add: tally_def)

lemma bucket_insert:
  "bucket (trig_counts_insert r c) =
     (bucket c)(rowKey r := (fst (bucket c (rowKey r)) + 1, snd (bucket c (rowKey r)) + rSize r))"
  by (rule ext) (simp add: bucket_def trig_counts_insert_def update_conv' split: option.splits)

lemma distinct_trig:
  "distinct (map fst c) \<Longrightarrow> distinct (map fst (trig_counts_insert r c))"
  "distinct (map fst c) \<Longrightarrow> distinct (map fst (trig_counts_delete r c))"
  by (simp_all add: trig_counts_insert_def trig_counts_delete_def distinct_update split: option.splits)

lemma bucket_delete:
  "0 < fst (bucket c (rowKey r)) \<Longrightarrow>
    bucket (trig_counts_delete r c) =
      (bucket c)(rowKey r := (fst (bucket c (rowKey r)) - 1, snd (bucket c (rowKey r)) - rSize r))"
  by (rule ext) (auto simp: bucket_def trig_counts_delete_def update_conv' split: option.splits)

lemma represents_insert: "represents c M \<Longrightarrow> represents (trig_counts_insert r c) (add_mset r M)"
  by (simp add: represents_def bucket_insert tally_add distinct_trig)

lemma represents_delete:
  assumes "represents c (add_mset r M)"
  shows "represents (trig_counts_delete r c) M"
proof -
  have b: "bucket c = tally (add_mset r M)" and d: "distinct (map fst c)"
    using assms by (simp_all add: represents_def)
  then have "0 < fst (bucket c (rowKey r))"
    using tally_nonneg [of M "rowKey r"] by (simp add: tally_add)
  with d show ?thesis by (simp add: represents_def b tally_add bucket_delete distinct_trig)
qed

lemma represents_update:
  assumes "represents c (add_mset r M)" and "r' = r\<lparr>rFlags := fl\<rparr>"
  shows "represents (trig_counts_update r r' c) (add_mset r' M)"
proof (cases "rFlags r' = rFlags r")
  case True
  then have "r' = r" using assms(2) by simp
  with assms(1) show ?thesis by (simp add: trig_counts_update_def)
next
  case False
  have "represents (trig_counts_insert r' c) (add_mset r (add_mset r' M))"
    using represents_insert [OF assms(1), of r'] by (simp add: add_mset_commute)
  with False show ?thesis by (simp add: trig_counts_update_def represents_delete)
qed

lemma represents_fold_delete:
  "represents c (mset xs + M) \<Longrightarrow> represents (fold trig_counts_delete xs c) M"
  by (induction xs arbitrary: c) (auto intro: represents_delete)

lemma represents_fold_update:
  assumes "\<And>r. \<exists>fl. f r = r\<lparr>rFlags := fl\<rparr>"
  shows "represents c (mset xs + M) \<Longrightarrow>
    represents (fold (\<lambda>r. trig_counts_update r (f r)) xs c) (mset (map f xs) + M)"
proof (induction xs arbitrary: c M)
  case (Cons x xs)
  obtain fl where "f x = x\<lparr>rFlags := fl\<rparr>" using assms by blast
  then have "represents (trig_counts_update x (f x) c) (mset xs + add_mset (f x) M)"
    using represents_update [of c x "mset xs + M"] Cons.prems by simp
  from Cons.IH [OF this] show ?case by simp
qed simp

definition counts_ok :: "folderDB \<Rightarrow> bool" where
  "counts_ok db \<longleftrightarrow> represents (counts db) (mset (files db))"

lemma mset_filter_split: "mset xs = mset (filter P xs) + mset (filter (\<lambda>x. \<not> P x) xs)"
  by (induction xs) auto

lemma counts_ok_deleteFiles: "counts_ok db \<Longrightarrow> counts_ok (deleteFiles P db)"
  unfolding counts_ok_def deleteFiles_def Let_def
  by (subst (asm) mset_filter_split [of _ P]) (simp add: represents_fold_delete)

lemma upd_only_flags: "\<exists>fl. (if P r then r\<lparr>rFlags := g (rFlags r)\<rparr> else r) = r\<lparr>rFlags := fl\<rparr>"
  by (rule exI [of _ "if P r then g (rFlags r) else rFlags r"]) simp

lemma counts_ok_updateFlags:
  assumes "counts_ok db"
  shows "counts_ok (updateFlags P g db)"
proof -
  let ?f = "\<lambda>r. if P r then r\<lparr>rFlags := g (rFlags r)\<rparr> else r"
  have "represents (counts db) (mset (files db) + {#})"
    using assms by (simp add: counts_ok_def)
  then have "represents (fold (\<lambda>r. trig_counts_update r (?f r)) (files db) (counts db))
      (mset (map ?f (files db)) + {#})"
    by (rule represents_fold_update [OF upd_only_flags])
  then show ?thesis by (simp add: counts_ok_def updateFlags_def Let_def)
qed

lemma counts_ok_insertFile: "counts_ok db \<Longrightarrow> counts_ok (snd (insertFile r db))"
  using counts_ok_deleteFiles [of db "insertConflict (r\<lparr>rSequence := nextSeq db\<rparr>)"]
  by (simp add: counts_ok_def insertFile_def Let_def represents_insert)

section \<open>Invariant\<close>

definition is_global :: "db_row \<Rightarrow> bool" where
  "is_global r \<longleftrightarrow> rFlags r AND FlagLocalGlobal \<noteq> 0"

definition is_needed :: "db_row \<Rightarrow> bool" where
  "is_needed r \<longleftrightarrow> rFlags r AND FlagLocalNeeded \<noteq> 0"

definition row_invalid :: "db_row \<Rightarrow> bool" where
  "row_invalid r = FlagLocal_IsInvalid (rFlags r)"

definition keys_ok :: "folderDB \<Rightarrow> bool" where
  "keys_ok db \<longleftrightarrow>
     distinct (map rSequence (files db)) \<and> (\<forall>r\<in>set (files db). rSequence r < nextSeq db)
     \<and> distinct (map (\<lambda>r. (rDevice r, rName r)) (files db))"

definition versions_ok :: "folderDB \<Rightarrow> bool" where
  "versions_ok db \<longleftrightarrow> (\<forall>r\<in>set (files db). \<exists>v. rVersion r = Vector_String v)"

definition devices_ok :: "folderDB \<Rightarrow> bool" where
  "devices_ok db \<longleftrightarrow>
     distinct (map fst (devices db)) \<and> distinct (map snd (devices db))
     \<and> (\<forall>i\<in>fst ` set (devices db). i < nextDevice db)
     \<and> (localDeviceIdx db, LocalDeviceID) \<in> set (devices db)
     \<and> rDevice ` set (files db) \<subseteq> fst ` set (devices db)"

definition infos_ok :: "folderDB \<Rightarrow> bool" where
  "infos_ok db \<longleftrightarrow> dom (fileinfos db) = rSequence ` set (files db)"

text \<open>
  A name has exactly one global row; only that row can be needed, and then it is valid and
  announced by another device.
\<close>

definition rowsOf :: "folderDB \<Rightarrow> string \<Rightarrow> db_row set" where
  "rowsOf db n = {r \<in> set (files db). rName r = n}"

definition rows_ok :: "int \<Rightarrow> db_row set \<Rightarrow> bool" where
  "rows_ok loc R \<longleftrightarrow>
     R \<noteq> {} \<longrightarrow>
       (\<exists>!g. g \<in> R \<and> is_global g)
       \<and> (\<forall>r\<in>R. is_needed r \<longrightarrow> is_global r \<and> \<not> row_invalid r \<and> rDevice r \<noteq> loc)"

definition name_ok :: "folderDB \<Rightarrow> string \<Rightarrow> bool" where
  "name_ok db n \<longleftrightarrow> rows_ok (localDeviceIdx db) (rowsOf db n)"

definition base_ok :: "folderDB \<Rightarrow> bool" where
  "base_ok db \<longleftrightarrow> keys_ok db \<and> versions_ok db \<and> devices_ok db \<and> infos_ok db \<and> counts_ok db"

definition db_inv :: "folderDB \<Rightarrow> bool" where
  "db_inv db \<longleftrightarrow>
     base_ok db \<and> (\<forall>n. name_ok db n)"

lemma row_flag_bits:
  "is_global r \<longleftrightarrow> bit (rFlags r) 4" "is_needed r \<longleftrightarrow> bit (rFlags r) 5"
  "row_invalid r \<longleftrightarrow> bit (rFlags r) 0 \<or> bit (rFlags r) 1 \<or> bit (rFlags r) 2 \<or> bit (rFlags r) 3 \<or> bit (rFlags r) 6"
  unfolding is_global_def is_needed_def row_invalid_def FlagLocal_IsInvalid_bits flag_defs and_push_bit_neq_0
  by (rule refl)+

section \<open>Reading the rows of a name\<close>

definition entry :: "db_row \<Rightarrow> fileRow" where
  "entry r =
     \<lparr>eName = rName r, eVersion = (case dbVector_Scan (rVersion r) of Ok v \<Rightarrow> v | _ \<Rightarrow> []),
      eDeviceIdx = rDevice r, eSequence = rSequence r, eModified = rModified r,
      eLocalFlags = rFlags r, eDeleted = rDeleted r\<rparr>"

lemma entry_simps [simp]:
  "eName (entry r) = rName r" "eDeviceIdx (entry r) = rDevice r" "eSequence (entry r) = rSequence r"
  "eModified (entry r) = rModified r" "eLocalFlags (entry r) = rFlags r" "eDeleted (entry r) = rDeleted r"
  by (simp_all add: entry_def)

lemma dbVector_Scan_String: "dbVector_Scan (Vector_String v) = Ok (sort_key cID v)"
  by (cases "v = []") (simp_all add: dbVector_Scan_def Vector_String_Nil_iff VectorFromString_String)

lemma scanRow_entry: "rVersion r = Vector_String v \<Longrightarrow> scanRow r = Ok (entry r)"
  by (simp add: scanRow_def entry_def dbVector_Scan_String)

lemma traverse_scanRow:
  "(\<And>r. r \<in> set rs \<Longrightarrow> \<exists>v. rVersion r = Vector_String v) \<Longrightarrow> traverse_result scanRow rs = Ok (map entry rs)"
proof (induction rs)
  case (Cons r rs)
  obtain v where "rVersion r = Vector_String v" using Cons.prems [of r] by auto
  then have "scanRow r = Ok (entry r)" by (rule scanRow_entry)
  with Cons show ?case by simp
qed simp

section \<open>Sorting\<close>

text \<open>
  \<open>slices.SortFunc\<close> permutes its argument and, when the comparison is a strict weak order on
  it, leaves no inversion. \<open>insertionSort\<close> is the algorithm the standard library uses for up
  to twelve elements.
\<close>

definition weak_order :: "fileRow set \<Rightarrow> bool" where
  "weak_order E \<longleftrightarrow>
     (\<forall>a\<in>E. \<forall>b\<in>E. fileRow_Compare a b < 0 \<longrightarrow> \<not> fileRow_Compare b a < 0)
     \<and> (\<forall>a\<in>E. \<forall>b\<in>E. \<forall>c\<in>E. fileRow_Compare a b < 0 \<longrightarrow> fileRow_Compare b c < 0 \<longrightarrow> fileRow_Compare a c < 0)
     \<and> (\<forall>a\<in>E. \<forall>b\<in>E. \<forall>c\<in>E. \<not> fileRow_Compare a b < 0 \<longrightarrow> \<not> fileRow_Compare b c < 0 \<longrightarrow>
          \<not> fileRow_Compare a c < 0)"

locale row_sort =
  fixes srt :: "fileRow list \<Rightarrow> fileRow list"
  assumes srt_perm: "mset (srt es) = mset es"
    and srt_sorted: "weak_order (set es) \<Longrightarrow> sorted_wrt (\<lambda>a b. \<not> fileRow_Compare b a < 0) (srt es)"
begin

lemma set_srt: "set (srt es) = set es"
  using srt_perm [of es] by (metis set_mset_mset)

lemma srt_Nil_iff: "srt es = [] \<longleftrightarrow> es = []"
  using srt_perm [of es] by (metis mset_zero_iff)

end

fun insertBack :: "fileRow \<Rightarrow> fileRow list \<Rightarrow> fileRow list" where
  "insertBack x [] = [x]"
| "insertBack x (y # ys) = (if fileRow_Compare x y < 0 then y # insertBack x ys else x # y # ys)"

text \<open>The sorted part is kept reversed: an element moves left past every larger one.\<close>

definition insertionSort :: "fileRow list \<Rightarrow> fileRow list" where
  "insertionSort es = rev (fold insertBack es [])"

lemma mset_insertBack: "mset (insertBack x ys) = add_mset x (mset ys)"
  by (induction ys) auto

lemma mset_fold_insertBack: "mset (fold insertBack es acc) = mset es + mset acc"
  by (induction es arbitrary: acc) (auto simp: mset_insertBack)

lemma insertBack_sorted:
  assumes w: "weak_order E" and x: "x \<in> E" and ys: "set ys \<subseteq> E"
    and s: "sorted_wrt (\<lambda>a b. \<not> fileRow_Compare a b < 0) ys"
  shows "sorted_wrt (\<lambda>a b. \<not> fileRow_Compare a b < 0) (insertBack x ys)"
  using ys s
proof (induction ys)
  case (Cons y ys)
  have mem: "set (insertBack x ys) = insert x (set ys)"
    using mset_insertBack [of x ys] by (metis set_mset_mset set_mset_add_mset_insert)
  show ?case
  proof (cases "fileRow_Compare x y < 0")
    case True
    then have "\<not> fileRow_Compare y x < 0"
      using w x Cons.prems(1) unfolding weak_order_def by (metis list.set_intros(1) subsetD)
    moreover have "sorted_wrt (\<lambda>a b. \<not> fileRow_Compare a b < 0) (insertBack x ys)"
      using Cons.IH Cons.prems by simp
    ultimately show ?thesis
      using True Cons.prems(2) by (simp add: mem)
  next
    case False
    have "\<not> fileRow_Compare x z < 0" if "z \<in> set ys" for z
    proof -
      have "\<not> fileRow_Compare y z < 0" using Cons.prems(2) that by simp
      moreover have "y \<in> E" "z \<in> E" using Cons.prems(1) that by auto
      ultimately show ?thesis using w x False unfolding weak_order_def by blast
    qed
    with False Cons.prems show ?thesis by auto
  qed
qed simp

lemma fold_insertBack_sorted:
  assumes "weak_order E" "set es \<subseteq> E" "set acc \<subseteq> E"
    "sorted_wrt (\<lambda>a b. \<not> fileRow_Compare a b < 0) acc"
  shows "sorted_wrt (\<lambda>a b. \<not> fileRow_Compare a b < 0) (fold insertBack es acc)"
  using assms(2-)
proof (induction es arbitrary: acc)
  case (Cons x es)
  have "set (insertBack x acc) \<subseteq> E"
    using Cons.prems mset_insertBack [of x acc] by (metis insert_subset list.simps(15) set_mset_add_mset_insert set_mset_mset)
  with Cons assms(1) show ?case by (simp add: insertBack_sorted)
qed simp

interpretation goSort: row_sort insertionSort
proof
  fix es
  show "mset (insertionSort es) = mset es"
    by (simp add: insertionSort_def mset_fold_insertBack)
  assume "weak_order (set es)"
  then show "sorted_wrt (\<lambda>a b. \<not> fileRow_Compare b a < 0) (insertionSort es)"
    by (simp add: insertionSort_def sorted_wrt_rev fold_insertBack_sorted)
qed

section \<open>The effect of recalculating one name\<close>

definition clearBoth :: "FlagLocal \<Rightarrow> FlagLocal" where
  "clearBoth x = x AND NOT (FlagLocalNeeded OR FlagLocalGlobal)"

definition setGlobal :: "string \<Rightarrow> int \<Rightarrow> FlagLocal \<Rightarrow> db_row \<Rightarrow> db_row" where
  "setGlobal n sq fl r =
     (if rName r \<noteq> n then r
      else if rSequence r = sq then r\<lparr>rFlags := fl\<rparr>
      else r\<lparr>rFlags := clearBoth (rFlags r)\<rparr>)"

definition nameEntries :: "db_env \<Rightarrow> folderDB \<Rightarrow> string \<Rightarrow> fileRow list" where
  "nameEntries env db n = sortRows env (map entry (filter (\<lambda>r. rName r = n) (files db)))"

lemma clearBoth_bits: "bit (clearBoth x) i \<longleftrightarrow> bit x i \<and> i \<noteq> 4 \<and> i \<noteq> 5"
proof -
  have "bit (clearBoth x) i \<longleftrightarrow> bit x i \<and> \<not> (5 \<le> i \<and> i - 5 = 0 \<or> 4 \<le> i \<and> i - 4 = 0)"
    using bit_imp_le_length [of x i]
    unfolding clearBoth_def flag_defs bit_and_iff bit_not_iff bit_or_iff bit_push_bit_iff bit_1_iff
    by auto
  then show ?thesis by auto
qed

lemma no_both_bits: "x AND (FlagLocalNeeded OR FlagLocalGlobal) \<noteq> 0 \<longleftrightarrow> bit x 5 \<or> bit x 4"
  unfolding and_OR_neq_0 flag_defs and_push_bit_neq_0 by (rule refl)

lemma clearBoth_id: "\<not> x AND (FlagLocalNeeded OR FlagLocalGlobal) \<noteq> 0 \<Longrightarrow> clearBoth x = x"
  unfolding no_both_bits by (rule bit_word_eqI) (auto simp: clearBoth_bits)

lemma IndexFunc_bounds:
  "IndexFunc P xs < int (length xs)" "IndexFunc P xs < 0 \<longleftrightarrow> \<not> (\<exists>x\<in>set xs. P x)"
  by (induction xs) (auto simp: Let_def)

lemma IndexFunc_nonneg:
  "0 \<le> IndexFunc P xs \<Longrightarrow> P (xs ! nat (IndexFunc P xs)) \<and> (\<forall>j<nat (IndexFunc P xs). \<not> P (xs ! j))"
proof (induction xs)
  case (Cons x xs)
  then show ?case
    by (auto simp: Let_def nth_Cons' nat_add_distrib less_Suc_eq_0_disj split: if_splits)
qed simp

lemma globalIdx_bounds: "es \<noteq> [] \<Longrightarrow> 0 \<le> globalIdx es \<and> globalIdx es < int (length es)"
  using IndexFunc_bounds(1) [of "\<lambda>e. \<not> fileRow_IsInvalid e" es]
  by (auto simp: globalIdx_def Let_def)

lemma global_in_set: "es \<noteq> [] \<Longrightarrow> es ! nat (globalIdx es) \<in> set es"
  using globalIdx_bounds [of es] by (simp add: nat_less_iff)

lemma files_updateFlags:
  "files (updateFlags P g db) = map (\<lambda>r. if P r then r\<lparr>rFlags := g (rFlags r)\<rparr> else r) (files db)"
  by (simp add: updateFlags_def Let_def)

lemma recalc_row_eq:
  assumes "r = g \<longleftrightarrow> rSequence r = rSequence g" and "rName g = n"
  shows "(let r' = (if rDevice r = rDevice g \<and> rSequence r = rSequence g then r\<lparr>rFlags := fl\<rparr> else r)
          in if rName r' = n \<and> rSequence r' \<noteq> rSequence g
                \<and> rFlags r' AND (FlagLocalNeeded OR FlagLocalGlobal) \<noteq> 0
             then r'\<lparr>rFlags := clearBoth (rFlags r')\<rparr> else r')
         = setGlobal n (rSequence g) fl r"
proof (cases "rSequence r = rSequence g")
  case True
  with assms show ?thesis by (simp add: setGlobal_def)
next
  case False
  then show ?thesis
    using clearBoth_id [of "rFlags r"]
    by (cases "rFlags r AND (FlagLocalNeeded OR FlagLocalGlobal) \<noteq> 0") (simp_all add: setGlobal_def)
qed

lemma recalc_files_eq:
  assumes k: "keys_ok db" and g: "g \<in> set (files db)" "rName g = n"
  shows "files (updateFlags (\<lambda>r. rName r = n \<and> rSequence r \<noteq> rSequence g
             \<and> rFlags r AND (FlagLocalNeeded OR FlagLocalGlobal) \<noteq> 0)
           (\<lambda>x. x AND NOT (FlagLocalNeeded OR FlagLocalGlobal))
           (updateFlags (\<lambda>r. rDevice r = rDevice g \<and> rSequence r = rSequence g) (\<lambda>_. fl) db))
         = map (setGlobal n (rSequence g) fl) (files db)"
proof -
  have "r = g \<longleftrightarrow> rSequence r = rSequence g" if "r \<in> set (files db)" for r
    using k g(1) that by (auto simp: keys_ok_def distinct_map dest: inj_onD)
  from recalc_row_eq [OF this g(2)] show ?thesis
    unfolding files_updateFlags map_map comp_def clearBoth_def [symmetric] Let_def
    by (intro map_cong refl) simp
qed

lemma updateFlags_frame:
  "updateFlags P g db = db\<lparr>files := files (updateFlags P g db), counts := counts (updateFlags P g db)\<rparr>"
  by (simp add: updateFlags_def Let_def)

lemma updateFlags_frame2:
  "updateFlags P g (updateFlags Q h db) =
     db\<lparr>files := files (updateFlags P g (updateFlags Q h db)),
        counts := counts (updateFlags P g (updateFlags Q h db))\<rparr>"
  by (simp add: updateFlags_def Let_def)

lemma recalc_spec:
  assumes srt: "row_sort (sortRows env)" and k: "keys_ok db" and v: "versions_ok db"
    and ex: "\<exists>r\<in>set (files db). rName r = n"
  shows "\<exists>g db'. recalcGlobalForFile env n db = Ok db' \<and> g \<in> set (files db) \<and> rName g = n
    \<and> entry g = nameEntries env db n ! nat (globalIdx (nameEntries env db n))
    \<and> files db' = map (setGlobal n (rSequence g) (globalFlags (localDeviceIdx db) (nameEntries env db n))) (files db)
    \<and> db' = db\<lparr>files := files db', counts := counts db'\<rparr> \<and> (counts_ok db \<longrightarrow> counts_ok db')"
proof -
  let ?rs = "filter (\<lambda>r. rName r = n) (files db)"
  let ?es = "nameEntries env db n"
  let ?fl = "globalFlags (localDeviceIdx db) ?es"
  have t: "traverse_result scanRow ?rs = Ok (map entry ?rs)"
    using v by (intro traverse_scanRow) (auto simp: versions_ok_def)
  have ne: "map entry ?rs \<noteq> []" using ex by (auto simp: filter_empty_conv)
  then have "?es \<noteq> []"
    using row_sort.srt_Nil_iff [OF srt, of "map entry ?rs"] unfolding nameEntries_def by blast
  then have "?es ! nat (globalIdx ?es) \<in> set (map entry ?rs)"
    using global_in_set [of ?es] row_sort.set_srt [OF srt] unfolding nameEntries_def by metis
  then obtain g where g: "g \<in> set (files db)" "rName g = n" "entry g = ?es ! nat (globalIdx ?es)"
    by auto
  define db' where "db' =
    updateFlags (\<lambda>r. rName r = n \<and> rSequence r \<noteq> rSequence g
             \<and> rFlags r AND (FlagLocalNeeded OR FlagLocalGlobal) \<noteq> 0)
           (\<lambda>x. x AND NOT (FlagLocalNeeded OR FlagLocalGlobal))
           (updateFlags (\<lambda>r. rDevice r = rDevice g \<and> rSequence r = rSequence g) (\<lambda>_. ?fl) db)"
  have "recalcGlobalForFile env n db = Ok db'"
    unfolding recalcGlobalForFile_def t bind_result.simps Let_def db'_def
      nameEntries_def [symmetric] g(3) [symmetric] entry_simps g(2)
    using ne by simp
  moreover have "files db' = map (setGlobal n (rSequence g) ?fl) (files db)"
    unfolding db'_def by (rule recalc_files_eq [OF k g(1,2)])
  moreover have "db' = db\<lparr>files := files db', counts := counts db'\<rparr>"
    unfolding db'_def by (rule updateFlags_frame2)
  moreover have "counts_ok db \<longrightarrow> counts_ok db'"
    unfolding db'_def by (intro impI counts_ok_updateFlags)
  ultimately show ?thesis using g by blast
qed

lemma recalc_absent:
  "\<not> (\<exists>r\<in>set (files db). rName r = n) \<Longrightarrow> recalcGlobalForFile env n db = Ok db"
  by (simp add: recalcGlobalForFile_def filter_empty_conv)

lemma globalFlags_bits:
  fixes es defines "g \<equiv> es ! nat (globalIdx es)"
  shows "bit (globalFlags loc es) 4"
    and "bit (globalFlags loc es) 5 \<longleftrightarrow> \<not> hasLocal loc es \<and> \<not> fileRow_IsInvalid g"
    and "i \<noteq> 4 \<Longrightarrow> i \<noteq> 5 \<Longrightarrow> bit (globalFlags loc es) i = bit (eLocalFlags g) i"
proof -
  have or: "bit (x OR push_bit n 1) i \<longleftrightarrow> bit x i \<or> i = n \<and> i < 32" for x :: u32 and n i
    using bit_imp_le_length [of x i] unfolding bit_or_iff bit_push_bit_iff bit_1_iff by auto
  have an: "bit (x AND NOT (push_bit n 1)) i \<longleftrightarrow> bit x i \<and> i \<noteq> n" for x :: u32 and n i
    using bit_imp_le_length [of x i]
    unfolding bit_and_iff bit_not_iff bit_push_bit_iff bit_1_iff by auto
  have inv: "FlagLocal_IsInvalid (eLocalFlags g OR push_bit 4 1) = fileRow_IsInvalid g"
    unfolding fileRow_IsInvalid_def FlagLocal_IsInvalid_bits or by simp
  have fl: "globalFlags loc es =
      (if hasLocal loc es \<or> fileRow_IsInvalid g then (eLocalFlags g OR push_bit 4 1) AND NOT (push_bit 5 1)
       else (eLocalFlags g OR push_bit 4 1) OR push_bit 5 1)"
    unfolding globalFlags_def Let_def flag_defs g_def [symmetric] inv ..
  show "bit (globalFlags loc es) 4"
    unfolding fl by (simp only: or an split: if_split) auto
  show "bit (globalFlags loc es) 5 \<longleftrightarrow> \<not> hasLocal loc es \<and> \<not> fileRow_IsInvalid g"
    unfolding fl by (simp only: or an split: if_split) auto
  show "bit (globalFlags loc es) i = bit (eLocalFlags g) i" if "i \<noteq> 4" "i \<noteq> 5"
    using that unfolding fl by (simp only: or an split: if_split) auto
qed

lemma IndexFunc_le: "i < length xs \<Longrightarrow> P (xs ! i) \<Longrightarrow> 0 \<le> IndexFunc P xs \<and> IndexFunc P xs \<le> int i"
proof (induction xs arbitrary: i)
  case (Cons x xs)
  show ?case
  proof (cases i)
    case (Suc k)
    then have "0 \<le> IndexFunc P xs \<and> IndexFunc P xs \<le> int k"
      using Cons.prems by (intro Cons.IH) simp_all
    with Suc show ?thesis by (auto simp: Let_def)
  qed (use Cons.prems in simp)
qed simp

lemma hasLocal_if_global_local:
  assumes "es \<noteq> []" and "eDeviceIdx (es ! nat (globalIdx es)) = loc"
  shows "hasLocal loc es"
  using IndexFunc_le [of "nat (globalIdx es)" es "\<lambda>e. eDeviceIdx e = loc"] globalIdx_bounds [OF assms(1)] assms(2)
  by (auto simp: hasLocal_def Let_def nat_less_iff)

lemma setGlobal_flags:
  "\<exists>fl'. setGlobal n sq fl r = r\<lparr>rFlags := fl'\<rparr>"
  unfolding setGlobal_def
  by (cases "rName r = n"; cases "rSequence r = sq") (auto intro: exI [of _ "rFlags r"])

lemma setGlobal_simps [simp]:
  "rName (setGlobal n sq fl r) = rName r" "rSequence (setGlobal n sq fl r) = rSequence r"
  "rDevice (setGlobal n sq fl r) = rDevice r" "rVersion (setGlobal n sq fl r) = rVersion r"
  "rRemoteSeq (setGlobal n sq fl r) = rRemoteSeq r" "rDeleted (setGlobal n sq fl r) = rDeleted r"
  by (simp_all add: setGlobal_def)

lemma rowsOf_setGlobal_other:
  assumes "files db' = map (setGlobal n sq fl) (files db)" and "m \<noteq> n"
  shows "rowsOf db' m = rowsOf db m"
proof -
  have "setGlobal n sq fl r = r" if "rName r = m" for r
    using that assms(2) by (simp add: setGlobal_def)
  then show ?thesis
    unfolding rowsOf_def assms(1) set_map by (auto simp: image_iff) force
qed

lemma base_ok_same_rows:
  assumes "files db' = map f (files db)" and "db' = db\<lparr>files := files db', counts := counts db'\<rparr>"
    and f: "\<And>r. rSequence (f r) = rSequence r" "\<And>r. rName (f r) = rName r"
      "\<And>r. rDevice (f r) = rDevice r" "\<And>r. rVersion (f r) = rVersion r"
    and "base_ok db" "counts_ok db'"
  shows "base_ok db'"
proof -
  have eqs: "nextSeq db' = nextSeq db" "devices db' = devices db" "nextDevice db' = nextDevice db"
    "localDeviceIdx db' = localDeviceIdx db" "fileinfos db' = fileinfos db"
    by (subst assms(2); simp)+
  show ?thesis
    using assms(7,8) unfolding base_ok_def keys_ok_def versions_ok_def devices_ok_def infos_ok_def assms(1) eqs
    by (simp add: f comp_def image_image)
qed

lemma recalc_rows_ok:
  assumes g: "g \<in> R" and inj: "inj_on rSequence R" and n: "\<And>r. r \<in> R \<Longrightarrow> rName r = n"
    and fl: "bit fl 4" "bit fl 5 \<Longrightarrow> \<not> row_invalid g \<and> rDevice g \<noteq> loc"
      "\<And>i. i \<noteq> 4 \<Longrightarrow> i \<noteq> 5 \<Longrightarrow> bit fl i = bit (rFlags g) i"
  shows "rows_ok loc (setGlobal n (rSequence g) fl ` R)"
proof -
  let ?s = "setGlobal n (rSequence g) fl"
  have sg: "?s r = (if r = g then r\<lparr>rFlags := fl\<rparr> else r\<lparr>rFlags := clearBoth (rFlags r)\<rparr>)" if "r \<in> R" for r
    using that g inj n by (auto simp: setGlobal_def dest: inj_onD)
  have glob: "is_global (?s r) \<longleftrightarrow> r = g" "is_needed (?s r) \<Longrightarrow> r = g" if "r \<in> R" for r
    using fl(1) sg [OF that] by (auto simp: row_flag_bits clearBoth_bits split: if_splits)
  have "row_invalid (?s g) = row_invalid g"
    using sg [OF g] fl(3) by (simp add: row_flag_bits)
  moreover have "is_needed (?s g) \<longleftrightarrow> bit fl 5" using sg [OF g] by (simp add: row_flag_bits)
  ultimately show ?thesis
    unfolding rows_ok_def using g glob fl(2) by (auto intro!: ex1I [of _ "?s g"])
qed

lemma filter_image: "(\<And>r. N (f r) = N r) \<Longrightarrow> {r \<in> f ` S. N r = n} = f ` {r \<in> S. N r = n}"
  by auto

lemma flags_self: "\<exists>fl. r = r\<lparr>rFlags := fl\<rparr>"
  by (rule exI [of _ "rFlags r"]) simp

lemma recalc_inv:
  assumes srt: "row_sort (sortRows env)" and b: "base_ok db"
  shows "\<exists>db'. recalcGlobalForFile env n db = Ok db' \<and> base_ok db' \<and> name_ok db' n
    \<and> localDeviceIdx db' = localDeviceIdx db \<and> (\<forall>m. m \<noteq> n \<longrightarrow> rowsOf db' m = rowsOf db m)
    \<and> (\<exists>f. files db' = map f (files db) \<and> (\<forall>r. \<exists>fl. f r = r\<lparr>rFlags := fl\<rparr>))
    \<and> db' = db\<lparr>files := files db', counts := counts db'\<rparr>"
proof (cases "\<exists>r\<in>set (files db). rName r = n")
  case False
  then have "rowsOf db n = {}" by (auto simp: rowsOf_def)
  moreover have "\<exists>f. files db = map f (files db) \<and> (\<forall>r. \<exists>fl. f r = r\<lparr>rFlags := fl\<rparr>)"
    by (rule exI [of _ id]) (simp add: flags_self)
  ultimately show ?thesis
    using False b recalc_absent [of db n env] by (simp add: name_ok_def rows_ok_def)
next
  case True
  have k: "keys_ok db" "versions_ok db" using b by (auto simp: base_ok_def)
  let ?es = "nameEntries env db n" and ?loc = "localDeviceIdx db"
  obtain g db' where g: "recalcGlobalForFile env n db = Ok db'" "g \<in> set (files db)" "rName g = n"
      "entry g = ?es ! nat (globalIdx ?es)"
    and f: "files db' = map (setGlobal n (rSequence g) (globalFlags ?loc ?es)) (files db)"
    and db': "db' = db\<lparr>files := files db', counts := counts db'\<rparr>" and c: "counts_ok db \<longrightarrow> counts_ok db'"
    using recalc_spec [OF srt k True] by blast
  have loc: "localDeviceIdx db' = ?loc" by (subst db') simp
  have ne: "?es \<noteq> []"
    using True row_sort.srt_Nil_iff [OF srt] by (auto simp: nameEntries_def filter_empty_conv)
  have base: "base_ok db'"
    using b c by (intro base_ok_same_rows [OF f db']) (simp_all add: base_ok_def)
  have "rows_ok ?loc (setGlobal n (rSequence g) (globalFlags ?loc ?es) ` rowsOf db n)"
  proof (rule recalc_rows_ok)
    show "g \<in> rowsOf db n" using g by (simp add: rowsOf_def)
    show "inj_on rSequence (rowsOf db n)"
      using k(1) by (auto simp: keys_ok_def distinct_map rowsOf_def intro: inj_on_subset)
    show "\<not> row_invalid g \<and> rDevice g \<noteq> ?loc" if "bit (globalFlags ?loc ?es) 5"
      using that globalFlags_bits(2) [of ?loc ?es] hasLocal_if_global_local [OF ne, of ?loc] g(4)
      by (metis entry_simps(2,5) fileRow_IsInvalid_def row_invalid_def)
    show "bit (globalFlags ?loc ?es) i = bit (rFlags g) i" if "i \<noteq> 4" "i \<noteq> 5" for i
      using globalFlags_bits(3) [OF that, of ?loc ?es] g(4) by (metis entry_simps(5))
  qed (auto simp: rowsOf_def globalFlags_bits)
  moreover have "rowsOf db' n = setGlobal n (rSequence g) (globalFlags ?loc ?es) ` rowsOf db n"
    unfolding rowsOf_def f set_map by (rule filter_image) simp
  ultimately have "name_ok db' n" by (simp add: name_ok_def loc)
  with g(1) base loc f db' show ?thesis
    using rowsOf_setGlobal_other [OF f] setGlobal_flags by blast
qed

section \<open>Preservation by the statements\<close>

lemma files_deleteFiles [simp]: "files (deleteFiles P db) = filter (\<lambda>r. \<not> P r) (files db)"
  by (simp add: deleteFiles_def Let_def)

lemma deleteFiles_simps [simp]:
  "nextSeq (deleteFiles P db) = nextSeq db" "devices (deleteFiles P db) = devices db"
  "nextDevice (deleteFiles P db) = nextDevice db" "localDeviceIdx (deleteFiles P db) = localDeviceIdx db"
  "indexids (deleteFiles P db) = indexids db" "blocklists (deleteFiles P db) = blocklists db"
  by (simp_all add: deleteFiles_def Let_def)

lemma rowsOf_deleteFiles: "rowsOf (deleteFiles P db) n = {r \<in> rowsOf db n. \<not> P r}"
  by (auto simp: rowsOf_def)

lemma infos_ok_deleteFiles:
  assumes "infos_ok db" and "keys_ok db"
  shows "infos_ok (deleteFiles P db)"
proof -
  have inj: "inj_on rSequence (set (files db))"
    using assms(2) by (simp add: keys_ok_def distinct_map)
  have "dom (fileinfos (deleteFiles P db)) =
      dom (fileinfos db) - rSequence ` {r \<in> set (files db). P r}"
    by (auto simp: deleteFiles_def Let_def dom_def)
  also have "\<dots> = rSequence ` {r \<in> set (files db). \<not> P r}"
    using assms(1) inj by (auto simp: infos_ok_def dest: inj_onD)
  finally show ?thesis by (simp add: infos_ok_def)
qed

lemma base_ok_deleteFiles: "base_ok db \<Longrightarrow> base_ok (deleteFiles P db)"
  by (auto simp: base_ok_def infos_ok_deleteFiles counts_ok_deleteFiles keys_ok_def versions_ok_def
      devices_ok_def distinct_map_filter)

lemma rows_ok_subset:
  assumes "rows_ok loc R" and "R' \<subseteq> R" and "\<exists>g\<in>R'. is_global g"
  shows "rows_ok loc R'"
  using assms unfolding rows_ok_def by blast

lemma foldM_recalc_inv:
  assumes srt: "row_sort (sortRows env)" and b: "base_ok db"
  shows "\<exists>db'. foldM (recalcGlobalForFile env) ns db = Ok db' \<and> base_ok db'
    \<and> (\<forall>n\<in>set ns. name_ok db' n) \<and> (\<forall>m. m \<notin> set ns \<longrightarrow> rowsOf db' m = rowsOf db m)
    \<and> localDeviceIdx db' = localDeviceIdx db"
  using b
proof (induction ns arbitrary: db)
  case (Cons n ns)
  obtain d1 where d1: "recalcGlobalForFile env n db = Ok d1" "base_ok d1" "name_ok d1 n"
      "localDeviceIdx d1 = localDeviceIdx db" "\<And>m. m \<noteq> n \<Longrightarrow> rowsOf d1 m = rowsOf db m"
    using recalc_inv [OF srt Cons.prems, of n] by blast
  obtain d2 where d2: "foldM (recalcGlobalForFile env) ns d1 = Ok d2" "base_ok d2"
      "\<And>n. n \<in> set ns \<Longrightarrow> name_ok d2 n" "\<And>m. m \<notin> set ns \<Longrightarrow> rowsOf d2 m = rowsOf d1 m"
      "localDeviceIdx d2 = localDeviceIdx d1"
    using Cons.IH [OF d1(2)] by blast
  have "name_ok d2 n"
    using d1(3) d2(3) [of n] d2(4) [of n] d2(5) by (cases "n \<in> set ns") (auto simp: name_ok_def)
  with d1 d2 show ?case by (intro exI [of _ d2]) auto
qed simp

lemma recalcGlobalForFolder_inv:
  assumes srt: "row_sort (sortRows env)" and b: "base_ok db"
    and n: "\<And>n. name_ok db n \<or> \<not> (\<exists>g\<in>rowsOf db n. is_global g)"
  shows "\<exists>db'. recalcGlobalForFolder env db = Ok db' \<and> db_inv db'"
proof -
  obtain db' where db': "foldM (recalcGlobalForFile env) (noGlobalNames db) db = Ok db'" "base_ok db'"
      "\<And>n. n \<in> set (noGlobalNames db) \<Longrightarrow> name_ok db' n"
      "\<And>m. m \<notin> set (noGlobalNames db) \<Longrightarrow> rowsOf db' m = rowsOf db m"
      "localDeviceIdx db' = localDeviceIdx db"
    using foldM_recalc_inv [OF srt b, of "noGlobalNames db"] by blast
  have "name_ok db' m" for m
  proof (cases "m \<in> set (noGlobalNames db)")
    case False
    have "rowsOf db m = {} \<or> (\<exists>g\<in>rowsOf db m. is_global g)"
      using False by (auto simp: noGlobalNames_def rowsOf_def is_global_def)
    then have "name_ok db m" using n [of m] by (auto simp: name_ok_def rows_ok_def)
    then show ?thesis using db'(4) [OF False] db'(5) by (simp add: name_ok_def)
  qed (use db'(3) in blast)
  with db'(1,2) show ?thesis
    by (auto simp: recalcGlobalForFolder_def db_inv_def)
qed

lemma deleteFiles_names:
  assumes "\<forall>n. name_ok db n"
  shows "name_ok (deleteFiles P db) n \<or> \<not> (\<exists>g\<in>rowsOf (deleteFiles P db) n. is_global g)"
proof -
  have "rows_ok (localDeviceIdx db) (rowsOf db n)" using assms by (simp add: name_ok_def)
  then show ?thesis
    using rows_ok_subset [of "localDeviceIdx db" "rowsOf db n" "rowsOf (deleteFiles P db) n"]
    by (auto simp: name_ok_def rowsOf_deleteFiles)
qed

section \<open>Preservation by the operations\<close>

lemma deviceIdxLocked_spec:
  assumes "base_ok db" and "deviceIdxLocked d db = (i, db')"
  shows "base_ok db' \<and> (i, d) \<in> set (devices db') \<and> files db' = files db
    \<and> localDeviceIdx db' = localDeviceIdx db \<and> nextSeq db' = nextSeq db"
proof (cases "map_of (map (\<lambda>(i, d). (d, i)) (devices db)) d")
  case (Some j)
  then have "(j, d) \<in> set (devices db)" by (auto dest!: map_of_SomeD)
  with Some assms show ?thesis by (simp add: deviceIdxLocked_def)
next
  case None
  then have "d \<notin> snd ` set (devices db)"
    by (auto simp: map_of_eq_None_iff image_image case_prod_beta)
  moreover have "nextDevice db \<notin> fst ` set (devices db)"
    using assms(1) unfolding base_ok_def devices_ok_def by blast
  moreover have "db' = db\<lparr>devices := devices db @ [(i, d)], nextDevice := i + 1\<rparr>" "i = nextDevice db"
    using None assms(2) by (auto simp: deviceIdxLocked_def)
  ultimately have "devices_ok db'"
    using assms(1) unfolding base_ok_def devices_ok_def by simp force
  with \<open>db' = _\<close> assms(1) show ?thesis
    by (simp add: base_ok_def keys_ok_def versions_ok_def infos_ok_def counts_ok_def)
qed

lemma db_inv_device:
  assumes "db_inv db" and "deviceIdxLocked d db = (i, db')"
  shows "db_inv db'"
  using deviceIdxLocked_spec [of db d i db'] assms
  by (auto simp: db_inv_def name_ok_def rowsOf_def)

lemma commit_inv:
  assumes "db_inv db" and "\<And>db'. r = Ok db' \<Longrightarrow> db_inv db'"
  shows "db_inv (snd (commit db r))"
  using assms by (cases r) (simp_all add: commit_def)

lemma DropAllFiles_inv:
  assumes srt: "row_sort (sortRows env)" and inv: "db_inv db"
  shows "db_inv (snd (DropAllFiles env d db)) \<and> fst (DropAllFiles env d db) = Ok ()"
proof -
  obtain i db1 where d: "deviceIdxLocked d db = (i, db1)" by fastforce
  have inv1: "db_inv db1" by (rule db_inv_device [OF inv d])
  let ?P = "\<lambda>r. rDevice r = i"
  have base: "base_ok (deleteFiles ?P db1)"
    using inv1 by (simp add: db_inv_def base_ok_deleteFiles)
  have "name_ok (deleteFiles ?P db1) n \<or> \<not> (\<exists>g\<in>rowsOf (deleteFiles ?P db1) n. is_global g)" for n
    using inv1 by (intro deleteFiles_names) (simp add: db_inv_def)
  from recalcGlobalForFolder_inv [OF srt base this]
  obtain db' where db': "recalcGlobalForFolder env (deleteFiles ?P db1) = Ok db'" "db_inv db'" by blast
  have "db_inv (deleteFiles ?P db1)" if "filter ?P (files db1) = []"
  proof -
    have "rowsOf (deleteFiles ?P db1) n = rowsOf db1 n" for n
      using that by (auto simp: rowsOf_def filter_empty_conv)
    with inv1 base show ?thesis by (simp add: db_inv_def name_ok_def)
  qed
  with db' d show ?thesis by (simp add: DropAllFiles_def commit_def Let_def)
qed

lemma DropFilesNamed_inv:
  assumes srt: "row_sort (sortRows env)" and inv: "db_inv db"
  shows "db_inv (snd (DropFilesNamed env d ns db))"
proof -
  obtain i db1 where d: "deviceIdxLocked d db = (i, db1)" by fastforce
  have inv1: "db_inv db1" by (rule db_inv_device [OF inv d])
  let ?N = "map (NormalizedFilename env) ns"
  let ?db2 = "deleteFiles (\<lambda>r. rDevice r = i \<and> rName r \<in> set ?N) db1"
  have "base_ok ?db2" using inv1 by (simp add: db_inv_def base_ok_deleteFiles)
  from foldM_recalc_inv [OF srt this, of ?N]
  obtain db' where db': "foldM (recalcGlobalForFile env) ?N ?db2 = Ok db'" "base_ok db'"
      "\<And>n. n \<in> set ?N \<Longrightarrow> name_ok db' n" "\<And>m. m \<notin> set ?N \<Longrightarrow> rowsOf db' m = rowsOf ?db2 m"
      "localDeviceIdx db' = localDeviceIdx ?db2"
    by blast
  have "name_ok db' m" for m
  proof (cases "m \<in> set ?N")
    case False
    then have "rowsOf db' m = rowsOf db1 m"
      unfolding db'(4) [OF False] rowsOf_deleteFiles by (auto simp: rowsOf_def)
    then show ?thesis using inv1 db'(5) by (simp add: name_ok_def db_inv_def)
  qed (use db'(3) in blast)
  then have "db_inv db'" using db'(2) by (simp add: db_inv_def)
  then show ?thesis
    using d inv1 db'(1) by (simp add: DropFilesNamed_def Let_def commit_def)
qed

lemma base_ok_dropDevice:
  assumes b: "base_ok db" and d: "d \<noteq> LocalDeviceID"
    and I: "I = set (map fst (filter (\<lambda>(i, e). e = d) (devices db)))"
  shows "base_ok ((deleteFiles (\<lambda>r. rDevice r \<in> I) db)
     \<lparr>devices := filter (\<lambda>(i, e). e \<noteq> d) (devices db),
      counts := filter (\<lambda>(k, _). fst k \<notin> I) (counts (deleteFiles (\<lambda>r. rDevice r \<in> I) db)),
      indexids := ix\<rparr>)"
proof -
  let ?db1 = "deleteFiles (\<lambda>r. rDevice r \<in> I) db"
  have b1: "base_ok ?db1" using b by (rule base_ok_deleteFiles)
  have rep: "represents (filter (\<lambda>(k, _). fst k \<notin> I) (counts ?db1)) (mset (files ?db1))"
  proof -
    have "bucket (counts ?db1) = tally (mset (files ?db1))" "distinct (map fst (counts ?db1))"
      using b1 by (simp_all add: base_ok_def counts_ok_def represents_def)
    moreover have "map_of (filter (\<lambda>(k, _). fst k \<notin> I) xs) k = (if fst k \<in> I then None else map_of xs k)"
      for xs :: counts_table and k
      by (induction xs) auto
    moreover have "tally (mset (files ?db1)) k = (0, 0)" if "fst k \<in> I" for k
    proof -
      have "filter (\<lambda>r. rowKey r = k) (files ?db1) = []"
        using that by (auto simp: filter_empty_conv rowKey_def)
      then show ?thesis by (simp only: tally_def mset_filter [symmetric]) simp
    qed
    ultimately show ?thesis by (auto simp: represents_def bucket_def fun_eq_iff distinct_map_filter)
  qed
  have dev: "devices_ok db" using b by (simp add: base_ok_def)
  have "i \<in> fst ` {x \<in> set (devices db). snd x \<noteq> d}" if i: "i \<in> rDevice ` set (files ?db1)" for i
  proof -
    have "i \<notin> I" "i \<in> fst ` set (devices db)" using i dev by (auto simp: devices_ok_def)
    then obtain e where "(i, e) \<in> set (devices db)" "e \<noteq> d" using I by force
    then show ?thesis by force
  qed
  then have "devices_ok (?db1\<lparr>devices := filter (\<lambda>(i, e). e \<noteq> d) (devices db),
      counts := filter (\<lambda>(k, _). fst k \<notin> I) (counts ?db1), indexids := ix\<rparr>)"
    using dev d by (auto simp: devices_ok_def distinct_map_filter case_prod_beta)
  with b1 rep show ?thesis
    by (simp add: base_ok_def keys_ok_def versions_ok_def infos_ok_def counts_ok_def)
qed

lemma DropDevice_inv:
  assumes srt: "row_sort (sortRows env)" and inv: "db_inv db" and d: "d \<noteq> LocalDeviceID"
  shows "db_inv (snd (DropDevice env d db)) \<and> fst (DropDevice env d db) = Ok ()"
proof -
  define I where "I = set (map fst (filter (\<lambda>(i, e). e = d) (devices db)))"
  define db2 where "db2 = (deleteFiles (\<lambda>r. rDevice r \<in> I) db)
     \<lparr>devices := filter (\<lambda>(i, e). e \<noteq> d) (devices db),
      counts := filter (\<lambda>(k, _). fst k \<notin> I) (counts (deleteFiles (\<lambda>r. rDevice r \<in> I) db)),
      indexids := (\<lambda>i. if i \<in> I then None else indexids db i)\<rparr>"
  have base: "base_ok db2"
    unfolding db2_def using inv by (intro base_ok_dropDevice [OF _ d I_def]) (simp add: db_inv_def)
  have rows: "rowsOf db2 n = rowsOf (deleteFiles (\<lambda>r. rDevice r \<in> I) db) n" for n
    by (simp add: db2_def rowsOf_def)
  have "name_ok db2 n \<or> \<not> (\<exists>g\<in>rowsOf db2 n. is_global g)" for n
    using deleteFiles_names [of db "\<lambda>r. rDevice r \<in> I" n] inv
    by (simp add: db_inv_def rows name_ok_def) (simp add: db2_def)
  from recalcGlobalForFolder_inv [OF srt base this]
  obtain db' where db': "recalcGlobalForFolder env db2 = Ok db'" "db_inv db'" by blast
  have "DropDevice env d db = commit db (recalcGlobalForFolder env db2)"
    using d unfolding DropDevice_def Let_def I_def [symmetric] db2_def deleteFiles_simps by simp
  with db' show ?thesis by (simp add: commit_def)
qed

text \<open>
  A remote device may announce a file under a sequence number only if the database does not
  hold another of its files under that number.
\<close>

definition seq_unused :: "db_env \<Rightarrow> DeviceID \<Rightarrow> int \<Rightarrow> FileInfo \<Rightarrow> db_row list \<Rightarrow> bool" where
  "seq_unused env d i f rs \<longleftrightarrow> d = LocalDeviceID \<or>
     (\<forall>r\<in>set rs. rDevice r = i \<and> rRemoteSeq r = Some (fSequence f) \<longrightarrow>
        rName r = NormalizedFilename env (fName f))"

definition announce_ok :: "db_env \<Rightarrow> DeviceID \<Rightarrow> int \<Rightarrow> FileInfo list \<Rightarrow> db_row list \<Rightarrow> bool" where
  "announce_ok env d i fs rs \<longleftrightarrow>
     (\<forall>f\<in>set fs. seq_unused env d i f rs)
     \<and> (d = LocalDeviceID \<or>
        (\<forall>f\<in>set fs. \<forall>g\<in>set fs. fSequence f = fSequence g \<longrightarrow>
           NormalizedFilename env (fName f) = NormalizedFilename env (fName g)))"

lemma prepareFile_simps [simp]:
  "fName (prepareFile env f) = NormalizedFilename env (fName f)"
  "fSequence (prepareFile env f) = fSequence f" "fVersion (prepareFile env f) = fVersion f"
  "fDeleted (prepareFile env f) = fDeleted f" "fLocalFlags (prepareFile env f) = fLocalFlags f"
  "fBlocks (prepareFile env f) = fBlocks f"
  by (simp_all add: prepareFile_def Let_def)

lemma storeBlocks_frame:
  "files (storeBlocks env l sk f db) = files db" "nextSeq (storeBlocks env l sk f db) = nextSeq db"
  "devices (storeBlocks env l sk f db) = devices db" "counts (storeBlocks env l sk f db) = counts db"
  "nextDevice (storeBlocks env l sk f db) = nextDevice db"
  "localDeviceIdx (storeBlocks env l sk f db) = localDeviceIdx db"
  "fileinfos (storeBlocks env l sk f db) = fileinfos db"
  "indexids (storeBlocks env l sk f db) = indexids db"
  by (simp_all add: storeBlocks_def Let_def insertBlocksLocked_def)

lemma insertFile_base:
  assumes b: "base_ok db" and r: "rDevice r \<in> fst ` set (devices db)" "\<exists>v. rVersion r = Vector_String v"
    and i: "insertFile r db = (sq, db1)"
    and f: "files db2 = files db1" "nextSeq db2 = nextSeq db1" "devices db2 = devices db1"
      "counts db2 = counts db1" "nextDevice db2 = nextDevice db1" "localDeviceIdx db2 = localDeviceIdx db1"
      "fileinfos db2 = (fileinfos db1)(sq := Some w)"
  shows "base_ok db2"
proof -
  define r' where "r' = r\<lparr>rSequence := nextSeq db\<rparr>"
  define db0 where "db0 = deleteFiles (insertConflict r') db"
  have b0: "base_ok db0" unfolding db0_def using b by (rule base_ok_deleteFiles)
  have sq: "sq = nextSeq db" and db1: "db1 = db0\<lparr>files := files db0 @ [r'], nextSeq := nextSeq db + 1,
      counts := trig_counts_insert r' (counts db0), indexids := trig_indexids_seq r' (indexids db0)\<rparr>"
    using i by (auto simp: insertFile_def Let_def r'_def db0_def)
  have lt: "rSequence x < nextSeq db" if "x \<in> set (files db0)" for x
    using b that by (auto simp: base_ok_def keys_ok_def db0_def)
  have nc: "(rDevice x, rName x) \<noteq> (rDevice r, rName r)" if "x \<in> set (files db0)" for x
    using that by (auto simp: db0_def insertConflict_def r'_def)
  have dk: "distinct (map rSequence (files db0))" "distinct (map (\<lambda>r. (rDevice r, rName r)) (files db0))"
    using b0 by (auto simp: base_ok_def keys_ok_def)
  have "keys_ok db2"
    using lt nc dk by (auto simp: keys_ok_def f db1 r'_def image_iff) (fastforce+)?
  moreover have "versions_ok db2"
    using b0 r(2) by (auto simp: base_ok_def versions_ok_def f db1 r'_def)
  moreover have "devices_ok db2"
    using b0 r(1) by (simp add: base_ok_def devices_ok_def f db1 r'_def) (simp add: db0_def)
  moreover have "infos_ok db2"
    using b0 by (auto simp: base_ok_def infos_ok_def f db1 sq r'_def)
  moreover have "counts_ok db2"
    using b0 by (simp add: base_ok_def counts_ok_def f db1 represents_insert)
  ultimately show ?thesis by (simp add: base_ok_def)
qed

lemma insertFile_rows:
  assumes "insertFile r db = (sq, db1)" and "files db2 = files db1"
  shows "m \<noteq> rName r \<Longrightarrow>
      (\<And>x. x \<in> set (files db) \<Longrightarrow> rDevice x = rDevice r \<Longrightarrow> rRemoteSeq r \<noteq> None \<Longrightarrow>
         rRemoteSeq x = rRemoteSeq r \<Longrightarrow> rName x = rName r) \<Longrightarrow> rowsOf db2 m = rowsOf db m"
    and "set (files db2) \<subseteq> insert (r\<lparr>rSequence := sq\<rparr>) (set (files db))"
  using assms by (auto simp: insertFile_def Let_def rowsOf_def insertConflict_def)

lemma insertFile_frame:
  assumes "insertFile r db = (sq, db1)"
  shows "devices db1 = devices db" "localDeviceIdx db1 = localDeviceIdx db" "sq = nextSeq db"
    "r\<lparr>rSequence := sq\<rparr> \<in> set (files db1)" "nextSeq db1 = nextSeq db + 1"
  using assms by (auto simp: insertFile_def Let_def)

text \<open>What \<open>updateFile\<close> does up to the recalculation.\<close>

definition storeFile :: "db_env \<Rightarrow> DeviceID \<Rightarrow> int \<Rightarrow> bool \<Rightarrow> FileInfo \<Rightarrow> bep_FileInfo \<Rightarrow> folderDB \<Rightarrow> folderDB" where
  "storeFile env device deviceIdx skipBlockIndex f w db =
     (let isLocal = (device = LocalDeviceID);
          (localSeq, db1) = insertFile (fileDBRow deviceIdx (if isLocal then None else Some (fSequence f)) f) db;
          db2 = storeBlocks env isLocal skipBlockIndex f db1
      in db2\<lparr>fileinfos := (fileinfos db2)(localSeq := Some (marshalFI env w))\<rparr>)"

lemma updateFile_cases:
  assumes "updateFile env d i sk f0 (prev, db) = Ok (prev', db')"
  obtains w where "recalcGlobalForFile env (NormalizedFilename env (fName f0))
      (storeFile env d i sk (prepareFile env f0) w db) = Ok db'"
    "FileInfo_ToWire True ((prepareFile env f0)\<lparr>fBlocks := [],
       fSequence := (if d = LocalDeviceID then nextSeq db else fSequence f0)\<rparr>) = Ok w"
    "prev' = (if d = LocalDeviceID then prev else Some (fSequence f0))"
proof -
  let ?f = "prepareFile env f0"
  obtain sq db1 where i: "insertFile (fileDBRow i (if d = LocalDeviceID then None else Some (fSequence ?f)) ?f) db = (sq, db1)"
    by fastforce
  have sq: "sq = nextSeq db" using insertFile_frame(3) [OF i] .
  show thesis
    using assms that i sq
    by (auto simp: updateFile_def storeFile_def Let_def bind_result_Ok lift_unit_def
        split: if_splits result.splits)
qed

lemma storeFile_inv:
  fixes env d i sk f w db
  defines "db3 \<equiv> storeFile env d i sk f w db"
  assumes inv: "db_inv db" and i: "i \<in> fst ` set (devices db)"
    and u: "d = LocalDeviceID \<or> (\<forall>r\<in>set (files db). rDevice r = i \<and> rRemoteSeq r = Some (fSequence f) \<longrightarrow> rName r = fName f)"
  shows "base_ok db3" "localDeviceIdx db3 = localDeviceIdx db" "devices db3 = devices db"
    "\<And>m. m \<noteq> fName f \<Longrightarrow> rowsOf db3 m = rowsOf db m"
    "set (files db3) \<subseteq> insert ((fileDBRow i (if d = LocalDeviceID then None else Some (fSequence f)) f)\<lparr>rSequence := nextSeq db\<rparr>) (set (files db))"
proof -
  let ?r = "fileDBRow i (if d = LocalDeviceID then None else Some (fSequence f)) f"
  obtain sq db1 where ins: "insertFile ?r db = (sq, db1)" by fastforce
  let ?db2 = "storeBlocks env (d = LocalDeviceID) sk f db1"
  have db3: "db3 = ?db2\<lparr>fileinfos := (fileinfos ?db2)(sq := Some (marshalFI env w))\<rparr>"
    by (simp add: db3_def storeFile_def ins Let_def)
  note fr = insertFile_frame [OF ins]
  have fl: "files db3 = files db1" by (simp add: db3 storeBlocks_frame)
  show "base_ok db3"
    by (rule insertFile_base [OF _ _ _ ins, where w = "marshalFI env w"])
      (use inv i in \<open>auto simp: db_inv_def fileDBRow_def db3 storeBlocks_frame\<close>)
  show "localDeviceIdx db3 = localDeviceIdx db" "devices db3 = devices db"
    by (simp_all add: db3 storeBlocks_frame fr)
  show "rowsOf db3 m = rowsOf db m" if "m \<noteq> fName f" for m
    using that u by (intro insertFile_rows(1) [OF ins fl]) (auto simp: fileDBRow_def split: if_splits)
  show "set (files db3) \<subseteq> insert (?r\<lparr>rSequence := nextSeq db\<rparr>) (set (files db))"
    using insertFile_rows(2) [OF ins fl] fr(3) by simp
qed

definition row_id :: "db_row \<Rightarrow> int \<times> int option \<times> string" where
  "row_id r = (rDevice r, rRemoteSeq r, rName r)"

lemma updateFile_inv:
  assumes srt: "row_sort (sortRows env)" and inv: "db_inv db" and i: "i \<in> fst ` set (devices db)"
    and u: "seq_unused env d i f (files db)"
    and ok: "updateFile env d i sk f (prev, db) = Ok (prev', db')"
  shows "db_inv db' \<and> devices db' = devices db \<and> localDeviceIdx db' = localDeviceIdx db
    \<and> row_id ` set (files db') \<subseteq>
        insert (i, if d = LocalDeviceID then None else Some (fSequence f), NormalizedFilename env (fName f))
          (row_id ` set (files db))"
proof -
  let ?n = "NormalizedFilename env (fName f)" and ?f = "prepareFile env f"
  obtain w where rc: "recalcGlobalForFile env ?n (storeFile env d i sk ?f w db) = Ok db'"
    using updateFile_cases [OF ok] by blast
  let ?db3 = "storeFile env d i sk ?f w db"
  have u': "d = LocalDeviceID \<or> (\<forall>r\<in>set (files db). rDevice r = i \<and> rRemoteSeq r = Some (fSequence ?f) \<longrightarrow> rName r = fName ?f)"
    using u by (simp add: seq_unused_def)
  note st = storeFile_inv [OF inv i u', where env = env and sk = sk and w = w, unfolded prepareFile_simps]
  obtain d4 where d4: "recalcGlobalForFile env ?n ?db3 = Ok d4" "base_ok d4 \<and> name_ok d4 ?n
      \<and> localDeviceIdx d4 = localDeviceIdx ?db3 \<and> (\<forall>m. m \<noteq> ?n \<longrightarrow> rowsOf d4 m = rowsOf ?db3 m)
      \<and> (\<exists>g. files d4 = map g (files ?db3) \<and> (\<forall>r. \<exists>fl. g r = r\<lparr>rFlags := fl\<rparr>))
      \<and> d4 = ?db3\<lparr>files := files d4, counts := counts d4\<rparr>"
    using recalc_inv [OF srt st(1), of ?n] by blast
  have "d4 = db'" using d4(1) rc by simp
  then obtain g where r: "base_ok db'" "name_ok db' ?n" "localDeviceIdx db' = localDeviceIdx ?db3"
      "\<And>m. m \<noteq> ?n \<Longrightarrow> rowsOf db' m = rowsOf ?db3 m" "files db' = map g (files ?db3)"
      "\<And>r. \<exists>fl. g r = r\<lparr>rFlags := fl\<rparr>" "db' = ?db3\<lparr>files := files db', counts := counts db'\<rparr>"
    using d4(2) by blast
  have "name_ok db' m" for m
    using r(2,3) r(4) [of m] st(2) st(4) [of m] inv
    by (cases "m = ?n") (auto simp: name_ok_def db_inv_def)
  moreover have "devices db' = devices db" by (subst r(7)) (simp add: st(3))
  moreover have "row_id (g r) = row_id r" for r
    using r(6) [of r] by (auto simp: row_id_def)
  then have "row_id ` set (files db') = row_id ` set (files ?db3)"
    by (simp add: r(5) image_image)
  then have "row_id ` set (files db') \<subseteq>
      insert (i, if d = LocalDeviceID then None else Some (fSequence f), ?n) (row_id ` set (files db))"
    using st(5) unfolding fileDBRow_def row_id_def by auto
  ultimately show ?thesis using r(1,3) st(2) by (simp add: db_inv_def)
qed

lemma foldM_update_inv:
  assumes srt: "row_sort (sortRows env)"
  shows "db_inv db \<Longrightarrow> i \<in> fst ` set (devices db) \<Longrightarrow> announce_ok env d i fs (files db) \<Longrightarrow>
    foldM (updateFile env d i sk) fs (prev, db) = Ok (prev', db') \<Longrightarrow> db_inv db'"
proof (induction fs arbitrary: prev db)
  case (Cons f fs)
  obtain p1 db1 where 1: "updateFile env d i sk f (prev, db) = Ok (p1, db1)"
      "foldM (updateFile env d i sk) fs (p1, db1) = Ok (prev', db')"
    using Cons.prems(4) by (auto simp: bind_result_Ok)
  have "seq_unused env d i f (files db)" using Cons.prems(3) by (simp add: announce_ok_def)
  note s = updateFile_inv [OF srt Cons.prems(1,2) this 1(1)]
  have "seq_unused env d i g (files db1)" if g: "g \<in> set fs" for g
  proof (cases "d = LocalDeviceID")
    case False
    have "rName r = NormalizedFilename env (fName g)"
      if r: "r \<in> set (files db1)" "rDevice r = i" "rRemoteSeq r = Some (fSequence g)" for r
    proof -
      have "row_id r \<in> insert (i, Some (fSequence f), NormalizedFilename env (fName f)) (row_id ` set (files db))"
        using s r(1) False by auto
      then consider "fSequence g = fSequence f" "rName r = NormalizedFilename env (fName f)"
        | x where "x \<in> set (files db)" "row_id x = row_id r"
        using r by (auto simp: row_id_def)
      then show ?thesis
      proof cases
        case 1
        then show ?thesis using Cons.prems(3) False g unfolding announce_ok_def by (metis list.set_intros)
      next
        case 2
        moreover have "seq_unused env d i g (files db)" using Cons.prems(3) g by (simp add: announce_ok_def)
        ultimately show ?thesis using r False by (auto simp: seq_unused_def row_id_def)
      qed
    qed
    then show ?thesis by (auto simp: seq_unused_def)
  qed (simp add: seq_unused_def)
  then have "announce_ok env d i fs (files db1)"
    using Cons.prems(3) unfolding announce_ok_def by (meson list.set_intros(2))
  then show ?case
    by (intro Cons.IH [OF _ _ _ 1(2)]) (use s Cons.prems(2) in simp_all)
qed simp

section \<open>Which version becomes global\<close>

text \<open>
  \<open>fileRow.Compare\<close> on entries whose versions are all comparable is the lexicographic order of
  the version (newer first), validity (valid first) and the device index.
\<close>

definition newer_eq :: "fileRow \<Rightarrow> fileRow \<Rightarrow> bool" where
  "newer_eq a b \<longleftrightarrow> Compare (eVersion a) (eVersion b) \<in> {Greater, Equal}"

definition rank_less :: "fileRow \<Rightarrow> fileRow \<Rightarrow> bool" where
  "rank_less a b \<longleftrightarrow>
     \<not> fileRow_IsInvalid a \<and> fileRow_IsInvalid b
     \<or> fileRow_IsInvalid a = fileRow_IsInvalid b \<and> eDeviceIdx a < eDeviceIdx b"

definition comparable :: "fileRow set \<Rightarrow> bool" where
  "comparable E \<longleftrightarrow> (\<forall>a\<in>E. vv_wf (eVersion a)) \<and>
     (\<forall>a\<in>E. \<forall>b\<in>E. \<not> Concurrent (eVersion a) (eVersion b))"

lemma cmp_int_neg: "cmp_int a b < 0 \<longleftrightarrow> a < b"
  by (simp add: cmp_int_def)

lemma comparable_cases:
  "comparable E \<Longrightarrow> a \<in> E \<Longrightarrow> b \<in> E \<Longrightarrow> Compare (eVersion a) (eVersion b) \<in> {Equal, Greater, Lesser}"
  unfolding comparable_def compare_methods by blast

lemma comparable_newer:
  assumes "comparable E"
  shows "a \<in> E \<Longrightarrow> b \<in> E \<Longrightarrow> newer_eq a b \<or> newer_eq b a"
    and "a \<in> E \<Longrightarrow> b \<in> E \<Longrightarrow> c \<in> E \<Longrightarrow> newer_eq a b \<Longrightarrow> newer_eq b c \<Longrightarrow> newer_eq a c"
    and "a \<in> E \<Longrightarrow> b \<in> E \<Longrightarrow> fileRow_Compare a b < 0 \<longleftrightarrow> newer_eq a b \<and> (newer_eq b a \<longrightarrow> rank_less a b)"
proof -
  show "newer_eq a b \<or> newer_eq b a" if "a \<in> E" "b \<in> E"
    using comparable_cases [OF assms that] Compare_swap [of "eVersion b" "eVersion a"]
    by (auto simp: newer_eq_def)
  show "newer_eq a c" if "a \<in> E" "b \<in> E" "c \<in> E" "newer_eq a b" "newer_eq b c"
    using that assms vv.cmp_trans [of "eVersion a" "eVersion b" "eVersion c"]
    by (simp add: newer_eq_def comparable_def)
  show "fileRow_Compare a b < 0 \<longleftrightarrow> newer_eq a b \<and> (newer_eq b a \<longrightarrow> rank_less a b)" if "a \<in> E" "b \<in> E"
    using comparable_cases [OF assms that] Compare_swap [of "eVersion b" "eVersion a"]
    by (auto simp: newer_eq_def rank_less_def fileRow_Compare_def cmp_int_neg)
qed

lemma rank_less_order:
  "rank_less a b \<Longrightarrow> \<not> rank_less b a" "rank_less a b \<Longrightarrow> rank_less b c \<Longrightarrow> rank_less a c"
  "\<not> rank_less a b \<Longrightarrow> \<not> rank_less b c \<Longrightarrow> \<not> rank_less a c"
  by (auto simp: rank_less_def)

lemma comparable_weak_order:
  assumes "comparable E"
  shows "weak_order E"
  unfolding weak_order_def
proof (intro conjI ballI impI)
  note n = comparable_newer [OF assms]
  fix a b assume ab: "a \<in> E" "b \<in> E" and lt: "fileRow_Compare a b < 0"
  then show "\<not> fileRow_Compare b a < 0"
    using n(3) rank_less_order(1) by blast
next
  note n = comparable_newer [OF assms]
  fix a b c assume abc: "a \<in> E" "b \<in> E" "c \<in> E"
  {
    assume "fileRow_Compare a b < 0" "fileRow_Compare b c < 0"
    then show "fileRow_Compare a c < 0"
      using abc n(2,3) rank_less_order(2) by meson
  next
    assume "\<not> fileRow_Compare a b < 0" "\<not> fileRow_Compare b c < 0"
    then have "newer_eq b a" "newer_eq c b" "newer_eq a b \<longrightarrow> \<not> rank_less a b" "newer_eq b c \<longrightarrow> \<not> rank_less b c"
      using abc n(1,3) by blast+
    then have "newer_eq c a" "newer_eq a c \<longrightarrow> \<not> rank_less a c"
      using abc n(2) rank_less_order(3) by blast+
    then show "\<not> fileRow_Compare a c < 0" using abc n(3) by blast
  }
qed

lemma global_newest:
  assumes srt: "sorted_wrt (\<lambda>a b. \<not> fileRow_Compare b a < 0) es" and c: "comparable (set es)"
    and v: "\<exists>e\<in>set es. \<not> fileRow_IsInvalid e"
  shows "\<not> fileRow_IsInvalid (es ! nat (globalIdx es))"
    and "e \<in> set es \<Longrightarrow> \<not> fileRow_IsInvalid e \<Longrightarrow> newer_eq (es ! nat (globalIdx es)) e"
proof -
  let ?i = "IndexFunc (\<lambda>e. \<not> fileRow_IsInvalid e) es" and ?g = "es ! nat (globalIdx es)"
  have i: "0 \<le> ?i" using v IndexFunc_bounds(2) [of "\<lambda>e. \<not> fileRow_IsInvalid e" es] by linarith
  then have gi: "globalIdx es = ?i" by (simp add: globalIdx_def Let_def)
  note f = IndexFunc_nonneg [OF i]
  show "\<not> fileRow_IsInvalid ?g" using f by (simp add: gi)
  assume e: "e \<in> set es" "\<not> fileRow_IsInvalid e"
  then obtain j where j: "j < length es" "es ! j = e" by (auto simp: in_set_conv_nth)
  have ne: "es \<noteq> []" using e by auto
  have mem: "?g \<in> set es" using global_in_set [OF ne] .
  show "newer_eq ?g e"
  proof (cases "j = nat ?i")
    case True
    then show ?thesis using comparable_newer(1) [OF c mem mem] j gi by simp
  next
    case False
    then have "nat ?i < j" using f e j by (metis linorder_neqE_nat)
    then have "\<not> fileRow_Compare e ?g < 0"
      using sorted_wrt_nth_less [OF srt _ j(1)] j(2) by (simp add: gi)
    then show ?thesis using comparable_newer(1,3) [OF c] mem e(1) by blast
  qed
qed

lemma hasLocal_newest:
  assumes srt: "sorted_wrt (\<lambda>a b. \<not> fileRow_Compare b a < 0) es" and c: "comparable (set es)"
    and v: "\<exists>e\<in>set es. \<not> fileRow_IsInvalid e" and one: "distinct (map eDeviceIdx es)"
  shows "hasLocal loc es \<longleftrightarrow>
    (if \<exists>l\<in>set es. eDeviceIdx l = loc
     then \<exists>l\<in>set es. eDeviceIdx l = loc \<and> newer_eq l (es ! nat (globalIdx es))
     else eDeleted (es ! nat (globalIdx es)))"
proof (cases "\<exists>l\<in>set es. eDeviceIdx l = loc")
  case False
  then have "IndexFunc (\<lambda>e. eDeviceIdx e = loc) es < 0" unfolding IndexFunc_bounds(2) .
  with False show ?thesis by (simp add: hasLocal_def Let_def)
next
  case True
  let ?P = "\<lambda>e. eDeviceIdx e = loc" and ?g = "es ! nat (globalIdx es)"
  let ?p = "IndexFunc ?P es"
  have p: "0 \<le> ?p" using True IndexFunc_bounds(2) [of ?P es] by linarith
  have pl: "nat ?p < length es" using IndexFunc_bounds(1) [of ?P es] p by linarith
  let ?l = "es ! nat ?p"
  have l: "eDeviceIdx ?l = loc" "?l \<in> set es" using IndexFunc_nonneg [OF p] pl by auto
  have uniq: "x = ?l" if "x \<in> set es" "eDeviceIdx x = loc" for x
    using that l one by (auto simp: distinct_map dest: inj_onD)
  have ne: "es \<noteq> []" using pl by auto
  have g: "?g \<in> set es" using global_in_set [OF ne] .
  note gb = globalIdx_bounds [OF ne]
  have "?p \<le> globalIdx es \<or> VEqual (eVersion ?l) (eVersion ?g) \<longleftrightarrow> newer_eq ?l ?g"
  proof (cases "?p \<le> globalIdx es")
    case True
    have "newer_eq ?l ?g"
    proof (cases "?p = globalIdx es")
      case False
      then have "nat ?p < nat (globalIdx es)" using True p by linarith
      then have "\<not> fileRow_Compare ?g ?l < 0"
        using sorted_wrt_nth_less [OF srt, of "nat ?p" "nat (globalIdx es)"] gb by (simp add: nat_less_iff)
      then show ?thesis using comparable_newer(1,3) [OF c] g l(2) by blast
    qed (use comparable_newer(1) [OF c g g] in simp)
    with True show ?thesis by simp
  next
    case False
    then have "nat (globalIdx es) < nat ?p" using gb by linarith
    then have "\<not> fileRow_Compare ?l ?g < 0"
      using sorted_wrt_nth_less [OF srt _ pl] by simp
    then have "newer_eq ?g ?l" using comparable_newer(1,3) [OF c] g l(2) by blast
    then have "newer_eq ?l ?g \<longleftrightarrow> VEqual (eVersion ?l) (eVersion ?g)"
      using Compare_swap [of "eVersion ?l" "eVersion ?g"]
      by (cases "Compare (eVersion ?g) (eVersion ?l)") (auto simp: newer_eq_def compare_methods)
    with False show ?thesis by simp
  qed
  moreover have "hasLocal loc es \<longleftrightarrow> ?p \<le> globalIdx es \<or> VEqual (eVersion ?l) (eVersion ?g)"
    using p by (auto simp: hasLocal_def Let_def)
  moreover have "(\<exists>x\<in>set es. eDeviceIdx x = loc \<and> newer_eq x ?g) \<longleftrightarrow> newer_eq ?l ?g"
    using uniq l by metis
  ultimately show ?thesis using True by metis
qed

definition rowVersion :: "db_row \<Rightarrow> Vector" where
  "rowVersion r = eVersion (entry r)"

lemma rowVersion_cong: "rVersion r = rVersion s \<Longrightarrow> rowVersion r = rowVersion s"
  by (simp add: rowVersion_def entry_def)

lemma newer_eq_entry: "newer_eq (entry a) (entry b) \<longleftrightarrow> GreaterEqual (rowVersion a) (rowVersion b)"
  by (auto simp: newer_eq_def rowVersion_def compare_methods)

lemma nameEntries_facts:
  assumes srt: "row_sort (sortRows env)" and k: "keys_ok db"
  shows "set (nameEntries env db n) = entry ` rowsOf db n"
    and "distinct (map eDeviceIdx (nameEntries env db n))"
proof -
  let ?rs = "filter (\<lambda>r. rName r = n) (files db)"
  show "set (nameEntries env db n) = entry ` rowsOf db n"
    using row_sort.set_srt [OF srt, of "map entry ?rs"] by (auto simp: nameEntries_def rowsOf_def)
  have "distinct (map (\<lambda>r. (rDevice r, rName r)) ?rs)"
    using k by (simp add: keys_ok_def distinct_map_filter)
  then have "distinct (map rDevice ?rs)"
    by (auto simp: distinct_map inj_on_def)
  moreover have "mset (map eDeviceIdx (nameEntries env db n)) = mset (map rDevice ?rs)"
    using row_sort.srt_perm [OF srt, of "map entry ?rs"] by (simp add: nameEntries_def multiset.map_comp comp_def)
  ultimately show "distinct (map eDeviceIdx (nameEntries env db n))"
    using mset_eq_imp_distinct_iff by blast
qed

lemma recalc_choice:
  assumes srt: "row_sort (sortRows env)" and b: "base_ok db"
    and c: "comparable (entry ` rowsOf db n)" and v: "\<exists>r\<in>rowsOf db n. \<not> row_invalid r"
  shows "\<exists>g db' fl. recalcGlobalForFile env n db = Ok db' \<and> g \<in> rowsOf db n
    \<and> rowsOf db' n = setGlobal n (rSequence g) fl ` rowsOf db n \<and> localDeviceIdx db' = localDeviceIdx db
    \<and> \<not> row_invalid g \<and> (\<forall>r\<in>rowsOf db n. \<not> row_invalid r \<longrightarrow> GreaterEqual (rowVersion g) (rowVersion r))
    \<and> bit fl 4 \<and> (\<forall>i. i \<noteq> 4 \<and> i \<noteq> 5 \<longrightarrow> bit fl i = bit (rFlags g) i)
    \<and> (bit fl 5 \<longleftrightarrow>
        (if \<exists>l\<in>rowsOf db n. rDevice l = localDeviceIdx db
         then \<not> (\<exists>l\<in>rowsOf db n. rDevice l = localDeviceIdx db \<and> GreaterEqual (rowVersion l) (rowVersion g))
         else \<not> rDeleted g))"
proof -
  have k: "keys_ok db" "versions_ok db" using b by (auto simp: base_ok_def)
  have ex: "\<exists>r\<in>set (files db). rName r = n" using v by (auto simp: rowsOf_def)
  let ?es = "nameEntries env db n" and ?loc = "localDeviceIdx db"
  obtain g db' where g: "recalcGlobalForFile env n db = Ok db'" "g \<in> set (files db)" "rName g = n"
      "entry g = ?es ! nat (globalIdx ?es)"
    and f: "files db' = map (setGlobal n (rSequence g) (globalFlags ?loc ?es)) (files db)"
    and db': "db' = db\<lparr>files := files db', counts := counts db'\<rparr>"
    using recalc_spec [OF srt k ex] by blast
  note es = nameEntries_facts [OF srt k(1), of n]
  have cs: "comparable (set ?es)" using c by (simp add: es(1))
  have so: "sorted_wrt (\<lambda>a b. \<not> fileRow_Compare b a < 0) ?es"
    unfolding nameEntries_def
    using row_sort.srt_sorted [OF srt] comparable_weak_order [OF c] by (simp add: rowsOf_def)
  have inv: "fileRow_IsInvalid (entry r) = row_invalid r" for r
    by (simp add: fileRow_IsInvalid_def row_invalid_def)
  have vs: "\<exists>e\<in>set ?es. \<not> fileRow_IsInvalid e" using v by (simp add: es(1) inv)
  note new = global_newest [OF so cs vs, folded g(4)]
  note hl = hasLocal_newest [OF so cs vs es(2), of ?loc, folded g(4)]
  have bits: "bit (globalFlags ?loc ?es) 5 \<longleftrightarrow> \<not> hasLocal ?loc ?es"
    using globalFlags_bits(2) [of ?loc ?es] new(1) g(4) by simp
  have "rowsOf db' n = setGlobal n (rSequence g) (globalFlags ?loc ?es) ` rowsOf db n"
    unfolding rowsOf_def f set_map by (rule filter_image) simp
  moreover have "g \<in> rowsOf db n" using g by (simp add: rowsOf_def)
  moreover have "localDeviceIdx db' = ?loc" by (subst db') simp
  moreover have "\<not> row_invalid g" using new(1) by (simp add: inv)
  moreover have "GreaterEqual (rowVersion g) (rowVersion r)" if "r \<in> rowsOf db n" "\<not> row_invalid r" for r
    using new(2) [of "entry r"] that by (simp add: es(1) inv newer_eq_entry)
  moreover have "bit (globalFlags ?loc ?es) i = bit (rFlags g) i" if "i \<noteq> 4" "i \<noteq> 5" for i
    using globalFlags_bits(3) [OF that, of ?loc ?es] g(4) by (metis entry_simps(5))
  moreover have "bit (globalFlags ?loc ?es) 5 \<longleftrightarrow>
        (if \<exists>l\<in>rowsOf db n. rDevice l = ?loc
         then \<not> (\<exists>l\<in>rowsOf db n. rDevice l = ?loc \<and> GreaterEqual (rowVersion l) (rowVersion g))
         else \<not> rDeleted g)"
    unfolding bits hl by (simp add: es(1) newer_eq_entry)
  ultimately show ?thesis using g(1) globalFlags_bits(1) by blast
qed


section \<open>Reachable databases\<close>

text \<open>The states a folder database goes through, from its creation on, by committed or failed operations.\<close>

inductive db_reachable :: "db_env \<Rightarrow> folderDB \<Rightarrow> bool" for env where
  reach_open: "db_reachable env (openFolderDB emptyDB)"
| reach_update: "db_reachable env db \<Longrightarrow> announce_ok env d (fst (deviceIdxLocked d db)) fs (files db) \<Longrightarrow>
    db_reachable env (snd (db_Update env d fs sk db))"
| reach_dropAll: "db_reachable env db \<Longrightarrow> db_reachable env (snd (DropAllFiles env d db))"
| reach_dropNamed: "db_reachable env db \<Longrightarrow> db_reachable env (snd (DropFilesNamed env d ns db))"
| reach_dropDevice: "db_reachable env db \<Longrightarrow> db_reachable env (snd (DropDevice env d db))"

lemma db_inv_open: "db_inv (openFolderDB emptyDB)"
  by (auto simp: db_inv_def base_ok_def openFolderDB_def emptyDB_def deviceIdxLocked_def keys_ok_def
      versions_ok_def devices_ok_def infos_ok_def counts_ok_def represents_def bucket_def tally_def
      name_ok_def rows_ok_def rowsOf_def fun_eq_iff)

lemma Update_inv:
  assumes "row_sort (sortRows env)" and "db_inv db"
    and "announce_ok env d (fst (deviceIdxLocked d db)) fs (files db)"
  shows "db_inv (snd (db_Update env d fs sk db))"
proof -
  obtain i db1 where d: "deviceIdxLocked d db = (i, db1)" by fastforce
  have inv1: "db_inv db1" by (rule db_inv_device [OF assms(2) d])
  have i: "i \<in> fst ` set (devices db1)" "files db1 = files db"
    using deviceIdxLocked_spec [OF _ d] assms(2) by (force simp: db_inv_def)+
  show ?thesis
    unfolding db_Update_def d Let_def prod.case
    by (rule commit_inv [OF inv1])
      (use foldM_update_inv [OF assms(1) inv1 i(1)] assms(3) i(2) d in \<open>auto simp: bind_result_Ok\<close>)
qed

lemma Drop_inv:
  assumes "row_sort (sortRows env)" and "db_inv db"
  shows "db_inv (snd (DropAllFiles env d db))" "db_inv (snd (DropFilesNamed env d ns db))"
    "db_inv (snd (DropDevice env d db))"
  using DropAllFiles_inv [OF assms] DropFilesNamed_inv [OF assms] DropDevice_inv [OF assms, of d] assms(2)
  by (auto simp: DropDevice_def)


definition plain_env :: db_env where
  "plain_env =
     \<lparr>NormalizedFilename = (\<lambda>s. s), NativeFilename = (\<lambda>s. s), sha256 = (\<lambda>s. s), sortRows = insertionSort,
      marshalFI = (\<lambda>_. []), unmarshalFI = (\<lambda>_. None), marshalBL = (\<lambda>_. []), unmarshalBL = (\<lambda>_. None)\<rparr>"

lemma plain_env_sort: "row_sort (sortRows plain_env)"
  by (simp add: plain_env_def goSort.row_sort_axioms)

definition remote_sample :: DeviceID where
  "remote_sample = repeatedDeviceID 7"

lemma announce_single: "announce_ok env d i [f] []"
  by (simp add: announce_ok_def seq_unused_def)

lemma files_open: "files (openFolderDB emptyDB) = []"
  by (simp add: openFolderDB_def emptyDB_def deviceIdxLocked_def)


text \<open>
  \<open>Update\<close> keeps the database consistent, whatever it returns: keys stay unique,
  every name has exactly one global row, only a valid global row announced by another device
  is marked needed, and the trigger-maintained counts agree with the rows. The one thing a
  remote device must respect is not to reuse a sequence number for a different file.
\<close>

lemma Update_preserves_inv:
  assumes "row_sort (sortRows env)" and "db_inv db"
    and "announce_ok env d (fst (deviceIdxLocked d db)) fs (files db)"
  shows "db_inv (snd (db_Update env d fs sk db))"
  by (rule Update_inv [OF assms])

text \<open>
  Dropping keeps the database consistent as well and succeeds: of all files of a
  device, of a device other than the local one, and of a list of names.
\<close>

lemma Drop_preserves_inv:
  assumes "row_sort (sortRows env)" and "db_inv db"
  shows "fst (DropAllFiles env d db) = Ok () \<and> db_inv (snd (DropAllFiles env d db))
    \<and> db_inv (snd (DropFilesNamed env d ns db)) \<and> db_inv (snd (DropDevice env d db))
    \<and> (d \<noteq> LocalDeviceID \<longrightarrow> fst (DropDevice env d db) = Ok ())"
proof -
  have "db_inv (snd (DropDevice env d db)) \<and> (d \<noteq> LocalDeviceID \<longrightarrow> fst (DropDevice env d db) = Ok ())"
  proof (cases "d = LocalDeviceID")
    case True
    with assms(2) show ?thesis by (simp add: DropDevice_def)
  qed (use DropDevice_inv [OF assms] in simp)
  then show ?thesis
    using DropAllFiles_inv [OF assms] DropFilesNamed_inv [OF assms] by blast
qed

section \<open>A database with two devices\<close>

definition sample_row :: "int \<Rightarrow> int \<Rightarrow> int option \<Rightarrow> Vector \<Rightarrow> db_row" where
  "sample_row dev sq rs v =
     \<lparr>rDevice = dev, rSequence = sq, rRemoteSeq = rs, rName = ''a'', rType = FileInfoTypeFile,
      rModified = 0, rSize = 10, rVersion = Vector_String v, rDeleted = False, rFlags = 0,
      rBlocklist = None\<rparr>"

definition sample_db :: folderDB where
  "sample_db = emptyDB\<lparr>devices := [(1, LocalDeviceID), (2, remote_sample)], nextDevice := 3,
     files := [sample_row 1 1 None [mkCounter 1 1], sample_row 2 2 (Some 9) [mkCounter 1 2]], nextSeq := 3,
     counts := [((1, FileInfoTypeFile, 0, False), (1, 10)), ((2, FileInfoTypeFile, 0, False), (1, 10))],
     fileinfos := [1 \<mapsto> [], 2 \<mapsto> []], localDeviceIdx := 1\<rparr>"

lemma base_ok_sample: "base_ok sample_db"
  unfolding base_ok_def
proof (intro conjI)
  show "devices_ok sample_db"
    by (simp add: devices_ok_def sample_db_def sample_row_def remote_sample_def LocalDeviceID_def
        repeatedDeviceID_def DeviceIDLength_def)
  show "counts_ok sample_db"
    by (auto simp: counts_ok_def represents_def bucket_def tally_def sample_db_def sample_row_def
        rowKey_def fun_eq_iff)
qed (auto simp: keys_ok_def versions_ok_def infos_ok_def sample_db_def sample_row_def)

lemma rows_sample:
  "rowsOf sample_db ''a'' = {sample_row 1 1 None [mkCounter 1 1], sample_row 2 2 (Some 9) [mkCounter 1 2]}"
  by (auto simp: rowsOf_def sample_db_def sample_row_def)

lemma comparable_sample: "comparable (entry ` rowsOf sample_db ''a'')"
proof -
  have "Compare [mkCounter 1 1] [mkCounter 1 2] = Lesser" "Compare [mkCounter 1 2] [mkCounter 1 1] = Greater"
    "Compare [mkCounter 1 1] [mkCounter 1 1] = Equal" "Compare [mkCounter 1 2] [mkCounter 1 2] = Equal"
    by code_simp+
  then show ?thesis
    by (auto simp: comparable_def rows_sample entry_def sample_row_def dbVector_Scan_String compare_methods vv_wf_def)
qed


text \<open>\<open>updateFile\<close> returns when the file can be serialised and is not a repeated announcement.\<close>

lemma updateFile_returns:
  assumes srt: "row_sort (sortRows env)" and b: "base_ok (storeFile env d i sk (prepareFile env f) w db)"
    and w: "FileInfo_ToWire True ((prepareFile env f)\<lparr>fBlocks := [],
       fSequence := (if d = LocalDeviceID then nextSeq db else fSequence f)\<rparr>) = Ok w"
    and p: "d = LocalDeviceID \<or> prev \<noteq> Some (fSequence f)"
  shows "\<exists>p' db'. updateFile env d i sk f (prev, db) = Ok (p', db')
    \<and> (\<forall>m. m \<noteq> NormalizedFilename env (fName f) \<longrightarrow>
         rowsOf db' m = rowsOf (storeFile env d i sk (prepareFile env f) w db) m)
    \<and> localDeviceIdx db' = localDeviceIdx (storeFile env d i sk (prepareFile env f) w db)"
proof -
  let ?f = "prepareFile env f"
  obtain sq db1 where ins: "insertFile (fileDBRow i (if d = LocalDeviceID then None else Some (fSequence f)) ?f) db = (sq, db1)"
    by fastforce
  have sq: "sq = nextSeq db" using insertFile_frame(3) [OF ins] .
  obtain d4 where d4: "recalcGlobalForFile env (NormalizedFilename env (fName f)) (storeFile env d i sk ?f w db) = Ok d4"
      "\<forall>m. m \<noteq> NormalizedFilename env (fName f) \<longrightarrow> rowsOf d4 m = rowsOf (storeFile env d i sk ?f w db) m"
      "localDeviceIdx d4 = localDeviceIdx (storeFile env d i sk ?f w db)"
    using recalc_inv [OF srt b] by blast
  have "updateFile env d i sk f (prev, db) = Ok (if d = LocalDeviceID then prev else Some (fSequence f), d4)"
    using d4(1) w p ins sq
    by (auto simp: updateFile_def storeFile_def Let_def lift_unit_def)
  with d4 show ?thesis by blast
qed

lemma storeFile_rows:
  "rowsOf (storeFile env d i sk f w db) m =
     {r \<in> insert ((fileDBRow i (if d = LocalDeviceID then None else Some (fSequence f)) f)\<lparr>rSequence := nextSeq db\<rparr>)
            {x \<in> set (files db). \<not> insertConflict (fileDBRow i (if d = LocalDeviceID then None else Some (fSequence f)) f) x}.
       rName r = m}"
  by (auto simp: storeFile_def Let_def insertFile_def storeBlocks_frame rowsOf_def insertConflict_def)

lemma storeFile_base:
  assumes "base_ok db" and "i \<in> fst ` set (devices db)"
  shows "base_ok (storeFile env d i sk f w db)" and "localDeviceIdx (storeFile env d i sk f w db) = localDeviceIdx db"
proof -
  let ?r = "fileDBRow i (if d = LocalDeviceID then None else Some (fSequence f)) f"
  obtain sq db1 where ins: "insertFile ?r db = (sq, db1)" by fastforce
  let ?db2 = "storeBlocks env (d = LocalDeviceID) sk f db1"
  have eq: "storeFile env d i sk f w db = ?db2\<lparr>fileinfos := (fileinfos ?db2)(sq := Some (marshalFI env w))\<rparr>"
    by (simp add: storeFile_def ins Let_def)
  show "base_ok (storeFile env d i sk f w db)"
    by (rule insertFile_base [OF assms(1) _ _ ins, where w = "marshalFI env w"])
      (use assms(2) in \<open>auto simp: fileDBRow_def eq storeBlocks_frame\<close>)
  show "localDeviceIdx (storeFile env d i sk f w db) = localDeviceIdx db"
    by (simp add: eq storeBlocks_frame insertFile_frame(2) [OF ins])
qed

text \<open>
  Claim C28. A remote device that reuses a sequence number for another file leaves the
  database without a global version: \<open>INSERT OR REPLACE\<close> silently deletes the row that held
  the number, and if that row was the global one of its name, other devices' rows of that name
  stay behind unmarked, since only the name just inserted is recalculated.
\<close>

theorem Update_reused_sequence:
  assumes "row_sort (sortRows env)" and "db_inv db" and "i \<in> fst ` set (devices db)" and "d \<noteq> LocalDeviceID"
    and "\<not> fTruncated f" and "prev \<noteq> Some (fSequence f)"
    and "x \<in> set (files db)" and "rDevice x = i" and "rRemoteSeq x = Some (fSequence f)" and "is_global x"
    and "rName x \<noteq> NormalizedFilename env (fName f)"
    and "y \<in> set (files db)" and "rName y = rName x" and "rDevice y \<noteq> i"
  shows "\<exists>p' db'. updateFile env d i sk f (prev, db) = Ok (p', db')
           \<and> y \<in> rowsOf db' (rName x) \<and> \<not> (\<exists>g\<in>rowsOf db' (rName x). is_global g)"
proof -
  let ?f = "prepareFile env f"
  have "\<not> fTruncated (?f\<lparr>fBlocks := [], fSequence := fSequence f\<rparr>)"
    using assms(5) by (simp add: prepareFile_def Let_def)
  then obtain w where w: "FileInfo_ToWire True (?f\<lparr>fBlocks := [], fSequence := fSequence f\<rparr>) = Ok w"
    using FileInfo_ToWire_cases by blast
  have b: "base_ok (storeFile env d i sk ?f w db)"
    using assms(2,3) by (intro storeFile_base) (auto simp: db_inv_def)
  obtain p' db' where u: "updateFile env d i sk f (prev, db) = Ok (p', db')"
      "rowsOf db' (rName x) = rowsOf (storeFile env d i sk ?f w db) (rName x)"
    using updateFile_returns [OF assms(1) b, of prev] w assms(4,6,11) by (simp, blast)
  have uniq: "g = x" if "g \<in> rowsOf db (rName x)" "is_global g" for g
    using assms(2,7,10) that unfolding db_inv_def name_ok_def rows_ok_def rowsOf_def by blast
  have rows: "rowsOf (storeFile env d i sk ?f w db) (rName x) \<subseteq> rowsOf db (rName x) - {x}"
    "y \<in> rowsOf (storeFile env d i sk ?f w db) (rName x)"
    using assms unfolding storeFile_rows by (auto simp: fileDBRow_def insertConflict_def rowsOf_def)
  with u uniq show ?thesis by blast
qed

definition reuse_db :: folderDB where
  "reuse_db = sample_db\<lparr>files := [sample_row 1 1 None [mkCounter 1 1],
       (sample_row 2 2 (Some 9) [mkCounter 1 2])\<lparr>rFlags := 16\<rparr>],
     counts := [((1, FileInfoTypeFile, 0, False), (1, 10)), ((2, FileInfoTypeFile, 16, False), (1, 10))]\<rparr>"

lemma two_rows:
  "S = {l, x} \<Longrightarrow> N l = a \<Longrightarrow> N x = a \<Longrightarrow> {r \<in> S. N r = n} = (if n = a then {l, x} else {})"
  by auto

lemma rows_ok_two:
  "\<not> is_global l \<Longrightarrow> is_global x \<Longrightarrow> \<not> is_needed l \<Longrightarrow> \<not> is_needed x \<Longrightarrow>
    rows_ok loc (if b then {l, x} else {})"
  by (auto simp: rows_ok_def)

lemma db_inv_reuse: "db_inv reuse_db"
proof -
  have "base_ok reuse_db"
    unfolding base_ok_def
  proof (intro conjI)
    show "devices_ok reuse_db"
      using base_ok_sample by (simp add: base_ok_def devices_ok_def reuse_db_def sample_db_def sample_row_def)
    show "counts_ok reuse_db"
      by (auto simp: counts_ok_def represents_def bucket_def tally_def reuse_db_def sample_row_def
          rowKey_def fun_eq_iff)
  qed (auto simp: reuse_db_def sample_db_def sample_row_def keys_ok_def versions_ok_def infos_ok_def)
  moreover have "name_ok reuse_db n" for n
  proof -
    let ?l = "sample_row 1 1 None [mkCounter 1 1]"
    let ?x = "(sample_row 2 2 (Some 9) [mkCounter 1 2])\<lparr>rFlags := 16\<rparr>"
    have "\<not> is_global ?l" "is_global ?x" "\<not> is_needed ?l" "\<not> is_needed ?x"
      by (simp_all add: is_global_def is_needed_def sample_row_def flag_defs)
    moreover have "rowsOf reuse_db n = (if n = ''a'' then {?l, ?x} else {})"
    proof -
      have "set (files reuse_db) = {?l, ?x}" by (simp add: reuse_db_def)
      moreover have "rName ?l = ''a''" "rName ?x = ''a''" by (simp_all add: sample_row_def)
      ultimately show ?thesis unfolding rowsOf_def by (rule two_rows)
    qed
    ultimately show ?thesis
      unfolding name_ok_def by (elim ssubst) (rule rows_ok_two)
  qed
  ultimately show ?thesis by (simp add: db_inv_def)
qed

theorem Update_reused_sequence_witness:
  "\<exists>p' db'. updateFile plain_env remote_sample 2 False (fi_blank\<lparr>fName := ''b'', fSequence := 9\<rparr>) (None, reuse_db)
       = Ok (p', db')
     \<and> \<not> (\<exists>g\<in>rowsOf db' ''a''. is_global g)"
proof -
  let ?x = "(sample_row 2 2 (Some 9) [mkCounter 1 2])\<lparr>rFlags := 16\<rparr>"
  have "remote_sample \<noteq> LocalDeviceID"
    by (simp add: remote_sample_def LocalDeviceID_def repeatedDeviceID_def DeviceIDLength_def)
  then have "\<exists>p' db'. updateFile plain_env remote_sample 2 False (fi_blank\<lparr>fName := ''b'', fSequence := 9\<rparr>) (None, reuse_db)
       = Ok (p', db')
     \<and> sample_row 1 1 None [mkCounter 1 1] \<in> rowsOf db' (rName ?x)
     \<and> \<not> (\<exists>g\<in>rowsOf db' (rName ?x). is_global g)"
    by (intro Update_reused_sequence [OF plain_env_sort db_inv_reuse])
      (auto simp: reuse_db_def sample_db_def sample_row_def fi_blank_def is_global_def flag_defs plain_env_def)
  then show ?thesis by (auto simp: sample_row_def)
qed

end
