(* ===== verification/Folder_Query.thy ===== *)
theory Folder_Query
  imports Folder_DB "HOL-Library.List_Lexorder" "HOL-Library.Char_ord"
begin

text \<open>
  Reading the folder database: \<open>folderdb_global.go\<close>, \<open>folderdb_local.go\<close>,
  \<open>folderdb_counts.go\<close>, \<open>folderdb_indexid.go\<close>, \<open>prefixEnd\<close> and \<open>indirectFI\<close> of \<open>util.go\<close>, and
  \<open>internal/db/counts.go\<close>. An iterator is the list of its values, or the first error. Text
  columns have \<open>BINARY\<close> collation, the lexicographic order of bytes. The columns
  \<open>count\<close> and \<open>size\<close> are unbounded integers here.
\<close>

section \<open>Stored file infos\<close>

definition indirectFI_FileInfo ::
  "db_env \<Rightarrow> byte list \<Rightarrow> byte list \<Rightarrow> (db_error, FileInfo) result" where
  "indirectFI_FileInfo env fiProtobuf blProtobuf =
     (case unmarshalFI env fiProtobuf of
        None \<Rightarrow> Err UnmarshalError
      | Some fi \<Rightarrow>
          bind_result
            (if length blProtobuf > 0 then
               (case unmarshalBL env blProtobuf of
                  None \<Rightarrow> Err UnmarshalError
                | Some bl \<Rightarrow> Ok (fi\<lparr>wBlocks := bl\<rparr>))
             else Ok fi)
            (\<lambda>fi. Ok (FileInfoFromDB (fi\<lparr>wName := NativeFilename env (wName fi)\<rparr>))))"

text \<open>
  \<open>fileinfos INNER JOIN files LEFT JOIN blocklists\<close> for a row of \<open>files\<close>; a row without
  its file info is not in the join.
\<close>

definition joinInfo :: "folderDB \<Rightarrow> db_row \<Rightarrow> (byte list \<times> byte list) option" where
  "joinInfo db r =
     (case fileinfos db (rSequence r) of
        None \<Rightarrow> None
      | Some fi \<Rightarrow>
          Some (fi, case rBlocklist r of
                      None \<Rightarrow> []
                    | Some h \<Rightarrow> (case blocklists db h of None \<Rightarrow> [] | Some bl \<Rightarrow> bl)))"

definition ownedBy :: "folderDB \<Rightarrow> DeviceID \<Rightarrow> db_row \<Rightarrow> bool" where
  "ownedBy db d r \<longleftrightarrow> map_of (devices db) (rDevice r) = Some d"

definition queryInfos :: "db_env \<Rightarrow> folderDB \<Rightarrow> db_row list \<Rightarrow> (db_error, FileInfo list) result" where
  "queryInfos env db rs =
     traverse_result (\<lambda>(fi, bl). indirectFI_FileInfo env fi bl) (List.map_filter (joinInfo db) rs)"

definition queryOne :: "db_env \<Rightarrow> folderDB \<Rightarrow> db_row list \<Rightarrow> (db_error, FileInfo option) result" where
  "queryOne env db rs =
     (case List.map_filter (joinInfo db) rs of
        [] \<Rightarrow> Ok None
      | (fi, bl) # _ \<Rightarrow> bind_result (indirectFI_FileInfo env fi bl) (\<lambda>f. Ok (Some f)))"

section \<open>Local and global files\<close>

definition GetDeviceFile ::
  "db_env \<Rightarrow> DeviceID \<Rightarrow> string \<Rightarrow> folderDB \<Rightarrow> (db_error, FileInfo option) result" where
  "GetDeviceFile env device file db =
     queryOne env db
       (filter (\<lambda>f. ownedBy db device f \<and> rName f = NormalizedFilename env file) (files db))"

definition GetGlobalFile ::
  "db_env \<Rightarrow> string \<Rightarrow> folderDB \<Rightarrow> (db_error, FileInfo option) result" where
  "GetGlobalFile env file db =
     queryOne env db
       (filter (\<lambda>f. rName f = NormalizedFilename env file \<and> rFlags f AND FlagLocalGlobal \<noteq> 0) (files db))"

definition AllLocalFiles :: "db_env \<Rightarrow> DeviceID \<Rightarrow> folderDB \<Rightarrow> (db_error, FileInfo list) result" where
  "AllLocalFiles env device db = queryInfos env db (filter (ownedBy db device) (files db))"

definition AllLocalFilesBySequence ::
  "db_env \<Rightarrow> DeviceID \<Rightarrow> int \<Rightarrow> int \<Rightarrow> folderDB \<Rightarrow> (db_error, FileInfo list) result" where
  "AllLocalFilesBySequence env device startSeq limit db =
     (let rs = sort_key rSequence (filter (\<lambda>f. ownedBy db device f \<and> rSequence f \<ge> startSeq) (files db))
      in queryInfos env db (if limit > 0 then take (nat limit) rs else rs))"

text \<open>
  \<open>prefixEnd\<close>: the last byte below \<open>0xff\<close> is incremented, the bytes after it are kept. The
  argument is the reversed string; \<open>None\<close> is the panic on the empty string.
\<close>

fun bumpLast :: "string \<Rightarrow> string" where
  "bumpLast [] = []"
| "bumpLast (c # cs) =
     (if (of_char c :: nat) < 255 then char_of ((of_char c :: nat) + 1) # cs else c # bumpLast cs)"

definition prefixEnd :: "string \<Rightarrow> string option" where
  "prefixEnd s = (if s = [] then None else Some (rev (bumpLast (rev s))))"

definition inPrefixRange :: "string \<Rightarrow> string \<Rightarrow> bool" where
  "inPrefixRange p n = (case prefixEnd p of None \<Rightarrow> False | Some e \<Rightarrow> n \<ge> p \<and> n < e)"

definition AllLocalFilesWithPrefix ::
  "db_env \<Rightarrow> DeviceID \<Rightarrow> string \<Rightarrow> folderDB \<Rightarrow> (db_error, FileInfo list) result" where
  "AllLocalFilesWithPrefix env device prefix0 db =
     (if prefix0 = [] then AllLocalFiles env device db
      else
        (let p = NormalizedFilename env prefix0 in
         if p = [] then Panic
         else queryInfos env db (filter (\<lambda>f. ownedBy db device f \<and> inPrefixRange p (rName f)) (files db))))"

record FileMetadata =
  mName :: string
  mSequence :: int
  mModNanos :: int
  mSize :: int
  mLocalFlags :: FlagLocal
  mType :: FileInfoType
  mDeleted :: bool

definition rowMetadata :: "(string \<Rightarrow> string) \<Rightarrow> db_row \<Rightarrow> FileMetadata" where
  "rowMetadata nm f =
     \<lparr>mName = nm (rName f), mSequence = rSequence f, mModNanos = rModified f, mSize = rSize f,
      mLocalFlags = rFlags f, mType = rType f, mDeleted = rDeleted f\<rparr>"

definition AllGlobalFiles :: "db_env \<Rightarrow> folderDB \<Rightarrow> FileMetadata list" where
  "AllGlobalFiles env db =
     map (rowMetadata (NativeFilename env))
       (sort_key rName (filter (\<lambda>f. rFlags f AND FlagLocalGlobal \<noteq> 0) (files db)))"

definition AllGlobalFilesPrefix :: "db_env \<Rightarrow> string \<Rightarrow> folderDB \<Rightarrow> (db_error, FileMetadata list) result" where
  "AllGlobalFilesPrefix env prefix0 db =
     (if prefix0 = [] then Ok (AllGlobalFiles env db)
      else
        (let p = NormalizedFilename env prefix0 in
         if p = [] then Panic
         else Ok (map (rowMetadata (NativeFilename env))
           (sort_key rName (filter (\<lambda>f. inPrefixRange p (rName f) \<and> rFlags f AND FlagLocalGlobal \<noteq> 0)
             (files db))))))"

definition AllLocalFilesWithBlocksHash :: "byte list \<Rightarrow> folderDB \<Rightarrow> FileMetadata list" where
  "AllLocalFilesWithBlocksHash h db =
     map (rowMetadata (\<lambda>n. n))
       (filter (\<lambda>f. rDevice f = localDeviceIdx db \<and> rBlocklist f = Some h) (files db))"

text \<open>The devices, in the order of their textual form, that announce exactly the global version.\<close>

definition deviceText :: "DeviceID \<Rightarrow> string" where
  "deviceText d = (case DeviceID_String d of Ok s \<Rightarrow> s | _ \<Rightarrow> [])"

definition GetGlobalAvailability :: "db_env \<Rightarrow> string \<Rightarrow> folderDB \<Rightarrow> DeviceID list" where
  "GetGlobalAvailability env file0 db =
     (let file = NormalizedFilename env file0 in
      sort_key deviceText
        (concat (map (\<lambda>f. List.map_filter (\<lambda>g.
              if rVersion g = rVersion f \<and> rName g = rName f \<and> rName f = file
                 \<and> rFlags g AND FlagLocalGlobal \<noteq> 0 \<and> rDevice f \<noteq> localDeviceIdx db
              then map_of (devices db) (rDevice f) else None) (files db)) (files db))))"

section \<open>Needed files\<close>

datatype PullOrder = PullOrderRandom | PullOrderAlphabetic | PullOrderSmallestFirst
  | PullOrderLargestFirst | PullOrderOldestFirst | PullOrderNewestFirst

definition orderRows :: "(db_row list \<Rightarrow> db_row list) \<Rightarrow> PullOrder \<Rightarrow> db_row list \<Rightarrow> db_row list" where
  "orderRows shuffle order rs =
     (case order of
        PullOrderRandom \<Rightarrow> shuffle rs
      | PullOrderAlphabetic \<Rightarrow> sort_key rName rs
      | PullOrderSmallestFirst \<Rightarrow> sort_key rSize rs
      | PullOrderLargestFirst \<Rightarrow> sort_key (\<lambda>r. - rSize r) rs
      | PullOrderOldestFirst \<Rightarrow> sort_key rModified rs
      | PullOrderNewestFirst \<Rightarrow> sort_key (\<lambda>r. - rModified r) rs)"

definition limitRows :: "int \<Rightarrow> int \<Rightarrow> 'a list \<Rightarrow> 'a list" where
  "limitRows limit offset rs =
     (let rs1 = (if offset > 0 then drop (nat offset) rs else rs)
      in if limit > 0 then take (nat limit) rs1 else rs1)"

definition neededGlobalFilesLocal :: "folderDB \<Rightarrow> db_row list" where
  "neededGlobalFilesLocal db =
     filter (\<lambda>g. rFlags g AND FlagLocalIgnored = 0 \<and> rFlags g AND FlagLocalNeeded \<noteq> 0) (files db)"

definition neededGlobalFilesRemote :: "DeviceID \<Rightarrow> folderDB \<Rightarrow> db_row list" where
  "neededGlobalFilesRemote device db =
     filter (\<lambda>g. rFlags g AND FlagLocalGlobal \<noteq> 0 \<and> \<not> rDeleted g \<and> rFlags g AND LocalInvalidFlags = 0
        \<and> \<not> (\<exists>f\<in>set (files db). rName f = rName g \<and> rVersion f = rVersion g \<and> ownedBy db device f))
       (files db)
     @ filter (\<lambda>g. rFlags g AND FlagLocalGlobal \<noteq> 0 \<and> rDeleted g \<and> rFlags g AND LocalInvalidFlags = 0
        \<and> (\<exists>f\<in>set (files db). rName f = rName g \<and> ownedBy db device f \<and> \<not> rDeleted f
               \<and> rFlags f AND LocalInvalidFlags = 0))
       (files db)"

text \<open>SQLite has no \<open>OFFSET\<close> clause without \<open>LIMIT\<close>.\<close>

definition AllNeededGlobalFiles ::
  "db_env \<Rightarrow> (db_row list \<Rightarrow> db_row list) \<Rightarrow> DeviceID \<Rightarrow> PullOrder \<Rightarrow> int \<Rightarrow> int \<Rightarrow> folderDB \<Rightarrow>
     (db_error, FileInfo list) result" where
  "AllNeededGlobalFiles env shuffle device order limit offset db =
     (let rs = (if device = LocalDeviceID then neededGlobalFilesLocal db
                else neededGlobalFilesRemote device db)
      in if offset > 0 \<and> \<not> limit > 0 then Err SqlSyntax
         else queryInfos env db (limitRows limit offset (orderRows shuffle order rs)))"

section \<open>Counts\<close>

record Counts =
  Files :: int
  Directories :: int
  Symlinks :: int
  Deleted :: int
  Bytes :: int
  Sequence :: int
  cDeviceID :: DeviceID
  cLocalFlags :: FlagLocal

record countsRow =
  crType :: FileInfoType
  crCount :: int
  crSize :: int
  crDeleted :: bool
  crLocalFlags :: FlagLocal

definition Counts_Add :: "Counts \<Rightarrow> Counts \<Rightarrow> Counts" where
  "Counts_Add c d =
     \<lparr>Files = Files c + Files d, Directories = Directories c + Directories d,
      Symlinks = Symlinks c + Symlinks d, Deleted = Deleted c + Deleted d, Bytes = Bytes c + Bytes d,
      Sequence = Sequence c + Sequence d, cDeviceID = EmptyDeviceID,
      cLocalFlags = cLocalFlags c OR cLocalFlags d\<rparr>"

definition TotalItems :: "Counts \<Rightarrow> int" where
  "TotalItems c = Files c + Directories c + Symlinks c + Deleted c"

definition Counts_Equal :: "Counts \<Rightarrow> Counts \<Rightarrow> bool" where
  "Counts_Equal c d \<longleftrightarrow> Files c = Files d \<and> Directories c = Directories d \<and> Symlinks c = Symlinks d
     \<and> Deleted c = Deleted d \<and> Bytes c = Bytes d"

definition summarizeStep :: "countsRow \<Rightarrow> Counts \<Rightarrow> Counts" where
  "summarizeStep r c =
     (if crDeleted r then c\<lparr>Deleted := Deleted c + crCount r\<rparr>
      else if crType r = FileInfoTypeFile then
        c\<lparr>Files := Files c + crCount r, Bytes := Bytes c + crSize r\<rparr>
      else if crType r = FileInfoTypeDirectory then
        c\<lparr>Directories := Directories c + crCount r, Bytes := Bytes c + crSize r\<rparr>
      else if crType r = FileInfoTypeSymlink then
        c\<lparr>Symlinks := Symlinks c + crCount r, Bytes := Bytes c + crSize r\<rparr>
      else c)"

definition summarizeCounts :: "countsRow list \<Rightarrow> Counts" where
  "summarizeCounts res = fold summarizeStep res
     \<lparr>Files = 0, Directories = 0, Symlinks = 0, Deleted = 0, Bytes = 0, Sequence = 0,
      cDeviceID = LocalDeviceID, cLocalFlags = 0\<rparr>"

definition bucketRow :: "counts_key \<times> int \<times> int \<Rightarrow> countsRow" where
  "bucketRow = (\<lambda>((dev, ty, fl, del), n, s).
     \<lparr>crType = ty, crCount = n, crSize = s, crDeleted = del, crLocalFlags = fl\<rparr>)"

definition selectCounts :: "(counts_key \<Rightarrow> bool) \<Rightarrow> folderDB \<Rightarrow> countsRow list" where
  "selectCounts Q db = map bucketRow (filter (\<lambda>(k, _). Q k) (counts db))"

definition CountLocal :: "DeviceID \<Rightarrow> folderDB \<Rightarrow> Counts" where
  "CountLocal device db =
     summarizeCounts (selectCounts (\<lambda>(dev, ty, fl, del).
       map_of (devices db) dev = Some device \<and> fl AND FlagLocalIgnored = 0) db)"

definition CountGlobal :: "folderDB \<Rightarrow> Counts" where
  "CountGlobal db =
     summarizeCounts (selectCounts (\<lambda>(dev, ty, fl, del).
       fl AND FlagLocalGlobal \<noteq> 0 \<and> fl AND LocalInvalidFlags = 0) db)"

definition CountReceiveOnlyChanged :: "folderDB \<Rightarrow> Counts" where
  "CountReceiveOnlyChanged db =
     summarizeCounts (selectCounts (\<lambda>(dev, ty, fl, del). fl AND FlagLocalReceiveOnly \<noteq> 0) db)"

definition needSizeLocal :: "folderDB \<Rightarrow> Counts" where
  "needSizeLocal db =
     summarizeCounts (selectCounts (\<lambda>(dev, ty, fl, del). fl AND FlagLocalNeeded \<noteq> 0) db)"

text \<open>
  The remote need query groups the needed rows by type, flags and deletion; each of its two
  selects does so on its own.
\<close>

definition groupRows :: "db_row list \<Rightarrow> countsRow list" where
  "groupRows rs =
     map (\<lambda>(ty, fl, del).
        (let g = filter (\<lambda>r. (rType r, rFlags r, rDeleted r) = (ty, fl, del)) rs
         in \<lparr>crType = ty, crCount = int (length g), crSize = sum_list (map rSize g),
             crDeleted = del, crLocalFlags = fl\<rparr>))
       (remdups (map (\<lambda>r. (rType r, rFlags r, rDeleted r)) rs))"

definition needSizeRemote :: "DeviceID \<Rightarrow> folderDB \<Rightarrow> Counts" where
  "needSizeRemote device db =
     (let rs = neededGlobalFilesRemote device db
      in summarizeCounts (groupRows (filter (\<lambda>r. \<not> rDeleted r) rs) @ groupRows (filter rDeleted rs)))"

definition CountNeed :: "DeviceID \<Rightarrow> folderDB \<Rightarrow> Counts" where
  "CountNeed device db =
     (if device = LocalDeviceID then needSizeLocal db else needSizeRemote device db)"

section \<open>Index IDs and sequences\<close>

definition indexIDToHex :: "IndexID \<Rightarrow> string" where
  "indexIDToHex i = hex_encode (IndexID_Marshal i)"

definition indexIDFromHex :: "string \<Rightarrow> (id_error, IndexID) result" where
  "indexIDFromHex s =
     (case hex_decode s of None \<Rightarrow> Err ShortData | Some bs \<Rightarrow> IndexID_Unmarshal bs)"

definition deviceIdxOf :: "DeviceID \<Rightarrow> folderDB \<Rightarrow> int option" where
  "deviceIdxOf d db = map_of (map (\<lambda>(i, d). (d, i)) (devices db)) d"

definition localMaxSeq :: "folderDB \<Rightarrow> int" where
  "localMaxSeq db =
     (let qs = map rSequence (filter (\<lambda>f. rDevice f = localDeviceIdx db) (files db))
      in if qs = [] then 0 else Max (set qs))"

text \<open>\<open>fresh\<close> is the random ID a call would generate.\<close>

definition GetIndexID :: "IndexID \<Rightarrow> DeviceID \<Rightarrow> folderDB \<Rightarrow> (id_error, IndexID) result \<times> folderDB" where
  "GetIndexID fresh device db =
     (let stored = (case deviceIdxOf device db of
                      None \<Rightarrow> []
                    | Some i \<Rightarrow> (case indexids db i of None \<Rightarrow> [] | Some (x, _) \<Rightarrow> x))
      in if stored \<noteq> [] then (indexIDFromHex stored, db)
         else if device \<noteq> LocalDeviceID then (Ok 0, db)
         else
           (let l = localDeviceIdx db in
            case indexids db l of
              Some (x, q) \<Rightarrow>
                (if x \<noteq> [] then (indexIDFromHex x, db)
                 else (Ok fresh, db\<lparr>indexids := (indexids db)(l := Some (indexIDToHex fresh, q))\<rparr>))
            | None \<Rightarrow>
                (Ok fresh, db\<lparr>indexids := (indexids db)(l := Some (indexIDToHex fresh, localMaxSeq db))\<rparr>)))"

definition SetIndexID :: "DeviceID \<Rightarrow> IndexID \<Rightarrow> folderDB \<Rightarrow> folderDB" where
  "SetIndexID device i db0 =
     (let (deviceIdx, db) = deviceIdxLocked device db0
      in db\<lparr>indexids := (indexids db)(deviceIdx := Some (indexIDToHex i, 0))\<rparr>)"

definition DropAllIndexIDs :: "folderDB \<Rightarrow> folderDB" where
  "DropAllIndexIDs db = db\<lparr>indexids := (\<lambda>_. None)\<rparr>"

definition GetDeviceSequence :: "DeviceID \<Rightarrow> folderDB \<Rightarrow> int" where
  "GetDeviceSequence device db =
     (case deviceIdxOf device db of
        None \<Rightarrow> 0
      | Some i \<Rightarrow> (case indexids db i of None \<Rightarrow> 0 | Some (_, q) \<Rightarrow> q))"

definition RemoteSequences :: "folderDB \<Rightarrow> (DeviceID \<times> int) list" where
  "RemoteSequences db =
     List.map_filter (\<lambda>(i, d). if i = localDeviceIdx db then None
                        else map_option (\<lambda>(_, q). (d, q)) (indexids db i)) (devices db)"

section \<open>Prefix ranges\<close>

lemma bumpLast_snoc:
  "(of_char c :: nat) < 255 \<Longrightarrow> rev (bumpLast (rev (q @ [c]))) = q @ [char_of ((of_char c :: nat) + 1)]"
  by simp

lemma less_succ_char:
  assumes "(of_char c :: nat) < 255"
  shows "x < char_of ((of_char c :: nat) + 1) \<longleftrightarrow> x \<le> c"
proof -
  have "of_char (char_of ((of_char c :: nat) + 1) :: char) = (of_char c :: nat) + 1"
    using assms by (simp add: of_char_of)
  then show ?thesis by (simp add: less_char_def less_eq_char_def less_Suc_eq_le)
qed

lemma prefix_range:
  assumes c: "(of_char c :: nat) < 255"
  shows "q @ [c] \<le> n \<and> n < q @ [char_of ((of_char c :: nat) + 1)] \<longleftrightarrow> prefix (q @ [c]) n"
proof (induction q arbitrary: n)
  case Nil
  show ?case
  proof (cases n)
    case (Cons x xs)
    have "[c] \<le> x # xs \<longleftrightarrow> c < x \<or> c = x" "x # xs < [char_of ((of_char c :: nat) + 1)] \<longleftrightarrow> x \<le> c"
      using less_succ_char [OF c, of x] by (simp_all only: Cons_le_Cons Cons_less_Cons Nil_le_Cons not_less_Nil) simp_all
    with Cons show ?thesis by auto
  qed simp
next
  case IH: (Cons a q)
  show ?case
  proof (cases n)
    case (Cons x xs)
    then show ?thesis
      using IH [of xs] by (simp only: append_Cons Cons_le_Cons Cons_less_Cons Cons_prefix_Cons) (metis less_asym less_irrefl)
  qed simp
qed

text \<open>
  The range query that implements a prefix query is exact: for a prefix whose last
  byte is not \<open>0xff\<close> (which no UTF-8 text contains), a name is in
  \<open>[prefix, prefixEnd prefix)\<close> exactly when it starts with the prefix.
\<close>

lemma prefixEnd_exact:
  assumes "p \<noteq> []" and "(of_char (last p) :: nat) < 255"
  shows "inPrefixRange p n \<longleftrightarrow> prefix p n"
proof -
  obtain q c where p: "p = q @ [c]" using assms(1) by (metis append_butlast_last_id)
  then have "prefixEnd p = Some (q @ [char_of ((of_char c :: nat) + 1)])"
    using assms bumpLast_snoc [of c q] by (simp add: prefixEnd_def)
  then show ?thesis using prefix_range [of c q n] assms p by (simp add: inPrefixRange_def)
qed

section \<open>Counts agree with the rows\<close>

lemma sum_tally:
  fixes \<phi> :: "counts_key \<Rightarrow> int"
  assumes "finite K" and "rowKey ` set_mset M \<subseteq> K"
  shows "(\<Sum>k\<in>K. \<phi> k * fst (tally M k)) = sum_mset (image_mset (\<lambda>r. \<phi> (rowKey r)) M)"
    and "(\<Sum>k\<in>K. \<phi> k * snd (tally M k)) = sum_mset (image_mset (\<lambda>r. \<phi> (rowKey r) * rSize r) M)"
proof -
  have one: "(\<Sum>k\<in>K. \<phi> k * ((f :: counts_key \<Rightarrow> int)(a := f a + x)) k) = (\<Sum>k\<in>K. \<phi> k * f k) + \<phi> a * x"
    if "a \<in> K" for f a x
    using that assms(1) by (simp add: sum.remove [of K a] algebra_simps)
  have upd: "fst ((t(a := (fst (t a) + 1, snd (t a) + s))) k) = ((\<lambda>k. fst (t k))(a := fst (t a) + 1)) k"
    "snd ((t(a := (fst (t a) + 1, snd (t a) + s))) k) = ((\<lambda>k. snd (t k))(a := snd (t a) + s)) k"
    for t :: "counts_key \<Rightarrow> int \<times> int" and a s k
    by simp_all
  show "(\<Sum>k\<in>K. \<phi> k * fst (tally M k)) = sum_mset (image_mset (\<lambda>r. \<phi> (rowKey r)) M)"
    using assms(2)
  proof (induction M)
    case (add r M)
    then show ?case
      unfolding tally_add upd using one [of "rowKey r" "\<lambda>k. fst (tally M k)" 1] by simp
  qed (simp add: tally_def)
  show "(\<Sum>k\<in>K. \<phi> k * snd (tally M k)) = sum_mset (image_mset (\<lambda>r. \<phi> (rowKey r) * rSize r) M)"
    using assms(2)
  proof (induction M)
    case (add r M)
    then show ?case
      unfolding tally_add upd using one [of "rowKey r" "\<lambda>k. snd (tally M k)" "rSize r"] by simp
  qed (simp add: tally_def)
qed

lemma represents_sums:
  fixes \<phi> :: "counts_key \<Rightarrow> int"
  assumes "represents c (mset rs)"
  shows "(\<Sum>(k, n, s)\<leftarrow>c. \<phi> k * n) = (\<Sum>r\<leftarrow>rs. \<phi> (rowKey r))"
    and "(\<Sum>(k, n, s)\<leftarrow>c. \<phi> k * s) = (\<Sum>r\<leftarrow>rs. \<phi> (rowKey r) * rSize r)"
proof -
  have d: "distinct (map fst c)" and b: "bucket c = tally (mset rs)"
    using assms by (simp_all add: represents_def)
  have K: "rowKey ` set_mset (mset rs) \<subseteq> fst ` set c"
  proof
    fix k assume "k \<in> rowKey ` set_mset (mset rs)"
    then obtain x where "x \<in># filter_mset (\<lambda>r. rowKey r = k) (mset rs)" by auto
    then have "filter_mset (\<lambda>r. rowKey r = k) (mset rs) \<noteq> {#}" by (metis empty_iff set_mset_empty)
    then have "0 < fst (tally (mset rs) k)" unfolding tally_def nonempty_has_size by simp
    then have "map_of c k \<noteq> None" by (cases "map_of c k") (simp_all add: b [symmetric] bucket_def)
    then show "k \<in> fst ` set c" by (simp add: map_of_eq_None_iff)
  qed
  have val: "p = tally (mset rs) k" if "(k, p) \<in> set c" for k p
    using that d by (simp add: b [symmetric] bucket_def)
  have "(\<Sum>(k, n, s)\<leftarrow>c. \<phi> k * n) = (\<Sum>x\<in>set c. \<phi> (fst x) * fst (snd x))"
    using d by (simp add: sum_list_distinct_conv_sum_set distinct_map case_prod_beta)
  also have "\<dots> = (\<Sum>x\<in>set c. \<phi> (fst x) * fst (tally (mset rs) (fst x)))"
    using val by (intro sum.cong) auto
  also have "\<dots> = (\<Sum>k\<in>fst ` set c. \<phi> k * fst (tally (mset rs) k))"
    using d by (simp add: sum.reindex distinct_map)
  also have "\<dots> = (\<Sum>r\<leftarrow>rs. \<phi> (rowKey r))"
    using sum_tally(1) [OF _ K, of \<phi>] by (simp add: sum_mset_sum_list flip: mset_map)
  finally show "(\<Sum>(k, n, s)\<leftarrow>c. \<phi> k * n) = (\<Sum>r\<leftarrow>rs. \<phi> (rowKey r))" .
  have "(\<Sum>(k, n, s)\<leftarrow>c. \<phi> k * s) = (\<Sum>x\<in>set c. \<phi> (fst x) * snd (snd x))"
    using d by (simp add: sum_list_distinct_conv_sum_set distinct_map case_prod_beta)
  also have "\<dots> = (\<Sum>x\<in>set c. \<phi> (fst x) * snd (tally (mset rs) (fst x)))"
    using val by (intro sum.cong) auto
  also have "\<dots> = (\<Sum>k\<in>fst ` set c. \<phi> k * snd (tally (mset rs) k))"
    using d by (simp add: sum.reindex distinct_map)
  also have "\<dots> = (\<Sum>r\<leftarrow>rs. \<phi> (rowKey r) * rSize r)"
    using sum_tally(2) [OF _ K, of \<phi>] by (simp add: sum_mset_sum_list flip: mset_map)
  finally show "(\<Sum>(k, n, s)\<leftarrow>c. \<phi> k * s) = (\<Sum>r\<leftarrow>rs. \<phi> (rowKey r) * rSize r)" .
qed

definition ind :: "bool \<Rightarrow> int" where
  "ind b = (if b then 1 else 0)"

text \<open>The weights with which a row of the counts table enters the fields of the summary.\<close>

definition weightType :: "FileInfoType \<Rightarrow> countsRow \<Rightarrow> int" where
  "weightType t r = ind (\<not> crDeleted r \<and> crType r = t)"

definition weightBytes :: "countsRow \<Rightarrow> int" where
  "weightBytes r = weightType FileInfoTypeFile r + weightType FileInfoTypeDirectory r + weightType FileInfoTypeSymlink r"

lemma summarizeStep_eq:
  "summarizeStep r c =
     c\<lparr>Files := Files c + weightType FileInfoTypeFile r * crCount r,
       Directories := Directories c + weightType FileInfoTypeDirectory r * crCount r,
       Symlinks := Symlinks c + weightType FileInfoTypeSymlink r * crCount r,
       Deleted := Deleted c + ind (crDeleted r) * crCount r,
       Bytes := Bytes c + weightBytes r * crSize r\<rparr>"
  by (simp add: summarizeStep_def weightType_def weightBytes_def ind_def)

lemma fold_summarizeStep:
  "fold summarizeStep rs c =
     c\<lparr>Files := Files c + (\<Sum>r\<leftarrow>rs. weightType FileInfoTypeFile r * crCount r),
       Directories := Directories c + (\<Sum>r\<leftarrow>rs. weightType FileInfoTypeDirectory r * crCount r),
       Symlinks := Symlinks c + (\<Sum>r\<leftarrow>rs. weightType FileInfoTypeSymlink r * crCount r),
       Deleted := Deleted c + (\<Sum>r\<leftarrow>rs. ind (crDeleted r) * crCount r),
       Bytes := Bytes c + (\<Sum>r\<leftarrow>rs. weightBytes r * crSize r)\<rparr>"
  by (induction rs arbitrary: c) (simp_all add: summarizeStep_eq)

definition unitRow :: "db_row \<Rightarrow> countsRow" where
  "unitRow r = bucketRow (rowKey r, 1, rSize r)"

lemma sum_select:
  fixes \<psi> :: "countsRow \<Rightarrow> int"
  assumes "represents c (mset rs)" and \<psi>: "\<And>k n s n' s'. \<psi> (bucketRow (k, n, s)) = \<psi> (bucketRow (k, n', s'))"
  shows "(\<Sum>r\<leftarrow>map bucketRow (filter (\<lambda>(k, _). Q k) c). \<psi> r * crCount r) =
           (\<Sum>r\<leftarrow>map unitRow (filter (\<lambda>r. Q (rowKey r)) rs). \<psi> r * crCount r)"
    and "(\<Sum>r\<leftarrow>map bucketRow (filter (\<lambda>(k, _). Q k) c). \<psi> r * crSize r) =
           (\<Sum>r\<leftarrow>map unitRow (filter (\<lambda>r. Q (rowKey r)) rs). \<psi> r * crSize r)"
proof -
  define \<rho> where "\<rho> k = \<psi> (bucketRow (k, 0, 0))" for k
  define \<phi> where "\<phi> k = (if Q k then \<rho> k else 0)" for k
  have cn: "crCount (bucketRow (k, n, s)) = n" "crSize (bucketRow (k, n, s)) = s" for k n s
    by (simp_all add: bucketRow_def case_prod_beta)
  have \<psi>0: "\<psi> (bucketRow (k, n, s)) = \<rho> k" for k n s unfolding \<rho>_def by (rule \<psi>)
  have "(\<Sum>r\<leftarrow>map bucketRow (filter (\<lambda>(k, _). Q k) c). \<psi> r * crCount r) = (\<Sum>(k, n, s)\<leftarrow>c. \<phi> k * n)"
    by (induction c) (auto simp: \<phi>_def cn \<psi>0)
  also have "\<dots> = (\<Sum>r\<leftarrow>rs. \<phi> (rowKey r))" by (rule represents_sums(1) [OF assms(1)])
  also have "\<dots> = (\<Sum>r\<leftarrow>map unitRow (filter (\<lambda>r. Q (rowKey r)) rs). \<psi> r * crCount r)"
    by (induction rs) (auto simp: \<phi>_def unitRow_def cn \<psi>0)
  finally show "(\<Sum>r\<leftarrow>map bucketRow (filter (\<lambda>(k, _). Q k) c). \<psi> r * crCount r) =
           (\<Sum>r\<leftarrow>map unitRow (filter (\<lambda>r. Q (rowKey r)) rs). \<psi> r * crCount r)" .
  have "(\<Sum>r\<leftarrow>map bucketRow (filter (\<lambda>(k, _). Q k) c). \<psi> r * crSize r) = (\<Sum>(k, n, s)\<leftarrow>c. \<phi> k * s)"
    by (induction c) (auto simp: \<phi>_def cn \<psi>0)
  also have "\<dots> = (\<Sum>r\<leftarrow>rs. \<phi> (rowKey r) * rSize r)" by (rule represents_sums(2) [OF assms(1)])
  also have "\<dots> = (\<Sum>r\<leftarrow>map unitRow (filter (\<lambda>r. Q (rowKey r)) rs). \<psi> r * crSize r)"
    by (induction rs) (auto simp: \<phi>_def unitRow_def cn \<psi>0)
  finally show "(\<Sum>r\<leftarrow>map bucketRow (filter (\<lambda>(k, _). Q k) c). \<psi> r * crSize r) =
           (\<Sum>r\<leftarrow>map unitRow (filter (\<lambda>r. Q (rowKey r)) rs). \<psi> r * crSize r)" .
qed

definition countRows :: "(db_row \<Rightarrow> bool) \<Rightarrow> folderDB \<Rightarrow> Counts" where
  "countRows P db = summarizeCounts (map unitRow (filter P (files db)))"

lemma selectCounts_rows:
  assumes "counts_ok db"
  shows "summarizeCounts (selectCounts Q db) = countRows (\<lambda>r. Q (rowKey r)) db"
proof -
  have rep: "represents (counts db) (mset (files db))" using assms by (simp add: counts_ok_def)
  have w: "weightType t (bucketRow (k, n, s)) = weightType t (bucketRow (k, n', s'))"
    "ind (crDeleted (bucketRow (k, n, s))) = ind (crDeleted (bucketRow (k, n', s')))"
    "weightBytes (bucketRow (k, n, s)) = weightBytes (bucketRow (k, n', s'))" for t k n s n' s'
    by (simp_all add: weightBytes_def weightType_def bucketRow_def case_prod_beta)
  show ?thesis
    unfolding countRows_def summarizeCounts_def selectCounts_def fold_summarizeStep
    using sum_select(1) [OF rep, of "weightType FileInfoTypeFile" Q, OF w(1)]
      sum_select(1) [OF rep, of "weightType FileInfoTypeDirectory" Q, OF w(1)]
      sum_select(1) [OF rep, of "weightType FileInfoTypeSymlink" Q, OF w(1)]
      sum_select(1) [OF rep, of "\<lambda>r. ind (crDeleted r)" Q, OF w(2)]
      sum_select(2) [OF rep, of weightBytes Q, OF w(3)]
    by simp
qed

text \<open>
  Claim C21. The counters a device reports are right: in every consistent database the local,
  global, receive-only and need counts, which are read off the trigger-maintained table, are
  those obtained by counting the rows of \<open>files\<close> that the count is about.
\<close>

theorem Counts_correct:
  assumes "db_inv db"
  shows "CountLocal d db = countRows (\<lambda>r. ownedBy db d r \<and> rFlags r AND FlagLocalIgnored = 0) db
    \<and> CountGlobal db = countRows (\<lambda>r. is_global r \<and> \<not> row_invalid r) db
    \<and> CountReceiveOnlyChanged db = countRows (\<lambda>r. rFlags r AND FlagLocalReceiveOnly \<noteq> 0) db
    \<and> CountNeed LocalDeviceID db = countRows is_needed db"
proof -
  have c: "counts_ok db" using assms by (simp add: db_inv_def base_ok_def)
  show ?thesis
    unfolding CountLocal_def CountGlobal_def CountReceiveOnlyChanged_def CountNeed_def needSizeLocal_def
      selectCounts_rows [OF c]
    by (simp add: rowKey_def ownedBy_def is_global_def is_needed_def [abs_def] row_invalid_def FlagLocal_IsInvalid_def)
qed

theorem Counts_correct_witness:
  "CountGlobal reuse_db = countRows (\<lambda>r. is_global r \<and> \<not> row_invalid r) reuse_db
   \<and> CountNeed LocalDeviceID reuse_db = countRows is_needed reuse_db"
  using Counts_correct [OF db_inv_reuse] by blast

section \<open>Needed files\<close>

lemma needed_valid:
  assumes "db_inv db" and "r \<in> set (files db)" and "is_needed r"
  shows "is_global r \<and> \<not> row_invalid r \<and> rDevice r \<noteq> localDeviceIdx db"
proof -
  have "name_ok db (rName r)" using assms(1) by (simp add: db_inv_def)
  then show ?thesis using assms(2,3) by (auto simp: name_ok_def rows_ok_def rowsOf_def)
qed

lemma neededLocal_eq:
  assumes "db_inv db"
  shows "neededGlobalFilesLocal db = filter is_needed (files db)"
  unfolding neededGlobalFilesLocal_def
proof (rule filter_cong [OF refl])
  fix r assume r: "r \<in> set (files db)"
  have "rFlags r AND FlagLocalIgnored = 0" if "is_needed r"
    using needed_valid [OF assms r that] and_push_bit_neq_0 [of "rFlags r" 1]
    by (simp only: row_flag_bits FlagLocalIgnored_def) blast
  then show "(rFlags r AND FlagLocalIgnored = 0 \<and> rFlags r AND FlagLocalNeeded \<noteq> 0) = is_needed r"
    by (auto simp: is_needed_def)
qed

lemma TotalItems_countRows:
  assumes "\<And>r. r \<in> set (files db) \<Longrightarrow> P r \<Longrightarrow>
    rDeleted r \<or> rType r \<in> {FileInfoTypeFile, FileInfoTypeDirectory, FileInfoTypeSymlink}"
  shows "TotalItems (countRows P db) = int (length (filter P (files db)))"
proof -
  have "weightType FileInfoTypeFile (unitRow r) + weightType FileInfoTypeDirectory (unitRow r)
      + weightType FileInfoTypeSymlink (unitRow r) + ind (crDeleted (unitRow r)) = 1 \<and> crCount (unitRow r) = 1"
    if "r \<in> set (filter P (files db))" for r
    using assms [of r] that by (auto simp: weightType_def ind_def unitRow_def bucketRow_def rowKey_def)
  then have "(\<Sum>r\<leftarrow>map unitRow (filter P (files db)). weightType FileInfoTypeFile r * crCount r
      + weightType FileInfoTypeDirectory r * crCount r + weightType FileInfoTypeSymlink r * crCount r
      + ind (crDeleted r) * crCount r) = (\<Sum>r\<leftarrow>filter P (files db). 1)"
    unfolding map_map comp_def by (intro arg_cong [of _ _ sum_list] map_cong refl) simp
  then show ?thesis
    by (simp add: TotalItems_def countRows_def summarizeCounts_def fold_summarizeStep comp_def sum_list_addf sum_list_triv)
qed



lemma sum_groups:
  fixes \<phi> :: "'k \<Rightarrow> int" and \<omega> :: "'r \<Rightarrow> int"
  shows "(\<Sum>k\<leftarrow>remdups (map key rs). \<phi> k * (\<Sum>r\<leftarrow>filter (\<lambda>r. key r = k) rs. \<omega> r)) = (\<Sum>r\<leftarrow>rs. \<phi> (key r) * \<omega> r)"
proof -
  have gen: "(\<Sum>k\<in>K. \<phi> k * (\<Sum>r\<leftarrow>filter (\<lambda>r. key r = k) rs. \<omega> r)) = (\<Sum>r\<leftarrow>rs. \<phi> (key r) * \<omega> r)"
    if "finite K" "key ` set rs \<subseteq> K" for K
    using that(2)
  proof (induction rs)
    case (Cons r rs)
    have "(\<Sum>k\<in>K. \<phi> k * (\<Sum>x\<leftarrow>filter (\<lambda>x. key x = k) (r # rs). \<omega> x)) =
        (\<Sum>k\<in>K. (if k = key r then \<phi> k * \<omega> r else 0) + \<phi> k * (\<Sum>x\<leftarrow>filter (\<lambda>x. key x = k) rs. \<omega> x))"
      by (intro sum.cong refl) (simp add: distrib_left)
    also have "\<dots> = \<phi> (key r) * \<omega> r + (\<Sum>k\<in>K. \<phi> k * (\<Sum>x\<leftarrow>filter (\<lambda>x. key x = k) rs. \<omega> x))"
      using that(1) Cons.prems by (simp add: sum.distrib)
    finally show ?case using Cons by simp
  qed simp
  show ?thesis
    using gen [of "set (map key rs)"] by (simp add: sum_list_distinct_conv_sum_set)
qed

lemma TotalItems_groupRows:
  assumes "\<And>r. r \<in> set rs \<Longrightarrow>
    rDeleted r \<or> rType r \<in> {FileInfoTypeFile, FileInfoTypeDirectory, FileInfoTypeSymlink}"
  shows "(\<Sum>r\<leftarrow>groupRows rs. (weightType FileInfoTypeFile r + weightType FileInfoTypeDirectory r
      + weightType FileInfoTypeSymlink r + ind (crDeleted r)) * crCount r) = int (length rs)"
proof -
  let ?key = "\<lambda>r. (rType r, rFlags r, rDeleted r)"
  let ?\<phi> = "\<lambda>(ty, fl :: FlagLocal, del). ind (\<not> del \<and> ty = FileInfoTypeFile) + ind (\<not> del \<and> ty = FileInfoTypeDirectory)
      + ind (\<not> del \<and> ty = FileInfoTypeSymlink) + ind del"
  have "(\<Sum>r\<leftarrow>groupRows rs. (weightType FileInfoTypeFile r + weightType FileInfoTypeDirectory r
      + weightType FileInfoTypeSymlink r + ind (crDeleted r)) * crCount r)
    = (\<Sum>k\<leftarrow>remdups (map ?key rs). ?\<phi> k * (\<Sum>r\<leftarrow>filter (\<lambda>r. ?key r = k) rs. 1))"
    unfolding groupRows_def map_map
    by (intro arg_cong [of _ _ sum_list] map_cong refl)
      (auto simp: weightType_def Let_def sum_list_triv)
  also have "\<dots> = (\<Sum>r\<leftarrow>rs. ?\<phi> (?key r) * 1)" by (rule sum_groups)
  also have "\<dots> = (\<Sum>r\<leftarrow>rs. 1)"
    using assms by (intro arg_cong [of _ _ sum_list] map_cong refl) (auto simp: ind_def)
  finally show ?thesis by (simp add: sum_list_triv)
qed

lemma TotalItems_summarize:
  "TotalItems (summarizeCounts rs) =
     (\<Sum>r\<leftarrow>rs. (weightType FileInfoTypeFile r + weightType FileInfoTypeDirectory r
        + weightType FileInfoTypeSymlink r + ind (crDeleted r)) * crCount r)"
  by (simp add: TotalItems_def summarizeCounts_def fold_summarizeStep distrib_right sum_list_addf)

text \<open>
  For a remote device the grouped need query and the need list agree as well: the
  total of \<open>CountNeed\<close> is the number of files \<open>neededGlobalFilesRemote\<close> lists. A listed file
  is a valid global version that the device does not have in that version or, if deleted,
  still has.
\<close>

lemma Need_remote_count:
  assumes "d \<noteq> LocalDeviceID"
    and "\<And>r. r \<in> set (files db) \<Longrightarrow>
      rDeleted r \<or> rType r \<in> {FileInfoTypeFile, FileInfoTypeDirectory, FileInfoTypeSymlink}"
  shows "TotalItems (CountNeed d db) = int (length (neededGlobalFilesRemote d db))
    \<and> (\<forall>g\<in>set (neededGlobalFilesRemote d db). is_global g \<and> \<not> row_invalid g
         \<and> (if rDeleted g then \<exists>f\<in>rowsOf db (rName g). ownedBy db d f \<and> \<not> rDeleted f \<and> \<not> row_invalid f
             else \<not> (\<exists>f\<in>rowsOf db (rName g). ownedBy db d f \<and> rVersion f = rVersion g)))"
proof
  let ?rs = "neededGlobalFilesRemote d db"
  have "TotalItems (CountNeed d db) = int (length (filter (\<lambda>r. \<not> rDeleted r) ?rs)) + int (length (filter rDeleted ?rs))"
  proof -
    have sub: "r \<in> set (files db)" if "r \<in> set ?rs" for r
      using that by (auto simp: neededGlobalFilesRemote_def)
    have "(\<Sum>r\<leftarrow>groupRows (filter P ?rs). (weightType FileInfoTypeFile r + weightType FileInfoTypeDirectory r
      + weightType FileInfoTypeSymlink r + ind (crDeleted r)) * crCount r) = int (length (filter P ?rs))" for P
      by (rule TotalItems_groupRows) (use assms(2) sub in auto)
    with assms(1) show ?thesis
      by (simp add: CountNeed_def needSizeRemote_def Let_def TotalItems_summarize)
  qed
  then show "TotalItems (CountNeed d db) = int (length ?rs)"
    using sum_length_filter_compl [of rDeleted ?rs] by simp
  show "\<forall>g\<in>set ?rs. is_global g \<and> \<not> row_invalid g
         \<and> (if rDeleted g then \<exists>f\<in>rowsOf db (rName g). ownedBy db d f \<and> \<not> rDeleted f \<and> \<not> row_invalid f
             else \<not> (\<exists>f\<in>rowsOf db (rName g). ownedBy db d f \<and> rVersion f = rVersion g))"
    by (auto simp: neededGlobalFilesRemote_def is_global_def row_invalid_def FlagLocal_IsInvalid_def rowsOf_def)
qed

section \<open>Index IDs\<close>

text \<open>
  A stored index ID is returned as it was set; setting it resets the device's
  sequence to zero.
\<close>

lemma IndexID_roundtrip:
  assumes "devices_ok db"
  shows "fst (GetIndexID fresh d (SetIndexID d i db)) = Ok i \<and> GetDeviceSequence d (SetIndexID d i db) = 0"
proof -
  obtain j db1 where dv: "deviceIdxLocked d db = (j, db1)" by fastforce
  have idx: "deviceIdxOf d (SetIndexID d i db) = Some j"
  proof (cases "map_of (map (\<lambda>(i, d). (d, i)) (devices db)) d")
    case None
    then show ?thesis
      using dv by (auto simp: deviceIdxOf_def SetIndexID_def deviceIdxLocked_def map_add_def)
  next
    case (Some k)
    then show ?thesis
      using dv by (auto simp: deviceIdxOf_def SetIndexID_def deviceIdxLocked_def)
  qed
  have st: "indexids (SetIndexID d i db) j = Some (indexIDToHex i, 0)"
    by (simp add: SetIndexID_def dv)
  have "length (IndexID_Marshal i) = 8" by (simp add: IndexID_Marshal_def)
  then have ne: "indexIDToHex i \<noteq> []"
    by (cases "IndexID_Marshal i") (simp_all add: indexIDToHex_def hex_encode_def hex_byte_def)
  have "unat i < 256 ^ 8" using unsigned_less [of i] by simp
  then have "be_decode (be_encode 8 (unat i)) = unat i" by (rule be_decode_encode)
  then have "indexIDFromHex (indexIDToHex i) = Ok i"
    by (simp add: indexIDFromHex_def indexIDToHex_def IndexID_Unmarshal_def IndexID_Marshal_def)
  with idx st ne show ?thesis by (simp add: GetIndexID_def GetDeviceSequence_def Let_def)
qed

section \<open>What is stored can be read back\<close>

definition storedFile :: "db_env \<Rightarrow> DeviceID \<Rightarrow> int \<Rightarrow> FileInfo \<Rightarrow> FileInfo" where
  "storedFile env d sq f =
     (prepareFile env f)\<lparr>fSequence := (if d = LocalDeviceID then sq else fSequence f),
       fName := NativeFilename env (NormalizedFilename env (fName f))\<rparr>"

text \<open>The wire forms that a call stores, and what is required of the codecs for them.\<close>

definition storedWire :: "db_env \<Rightarrow> DeviceID \<Rightarrow> int \<Rightarrow> FileInfo \<Rightarrow> (unit, bep_FileInfo) result" where
  "storedWire env d sq f =
     FileInfo_ToWire True ((prepareFile env f)\<lparr>fBlocks := [],
       fSequence := (if d = LocalDeviceID then sq else fSequence f)\<rparr>)"

definition codec_ok :: "db_env \<Rightarrow> bep_FileInfo \<Rightarrow> bep_BlockInfo list \<Rightarrow> bool" where
  "codec_ok env w bl \<longleftrightarrow>
     unmarshalFI env (marshalFI env w) = Some w
     \<and> (bl \<noteq> [] \<longrightarrow> marshalBL env bl \<noteq> [] \<and> unmarshalBL env (marshalBL env bl) = Some bl)"

lemma FromDB_with_blocks:
  assumes "FileInfo_ToWire True (g\<lparr>fBlocks := []\<rparr>) = Ok w" and "fi_fits g" and "\<not> fTruncated g"
  shows "FileInfoFromDB (w\<lparr>wBlocks := map BlockInfo_ToWire (fBlocks g), wName := nm\<rparr>) = g\<lparr>fName := nm\<rparr>"
proof -
  have "list_all (\<lambda>b. is_i32 (bSize b)) (fBlocks g)" using assms(2) by (simp add: fi_fits_def)
  note b = blocks_wire [OF this]
  from assms show ?thesis
    by (auto simp: FileInfo_ToWire_def Let_def FileInfoFromDB_def FileInfoFromWire_def fileInfoFromWireWithBlocks_def
        fi_fits_def wire_simps b simp del: map_map)
qed

lemma storeFile_stored:
  fixes env d i sk f w db
  defines "db3 \<equiv> storeFile env d i sk f w db"
  shows "fileinfos db3 (nextSeq db) = Some (marshalFI env w)"
    and "(fileDBRow i (if d = LocalDeviceID then None else Some (fSequence f)) f)\<lparr>rSequence := nextSeq db\<rparr> \<in> set (files db3)"
    and "fBlocks f \<noteq> [] \<Longrightarrow> blocklists db (fBlocksHash f) \<in> {None, Some (marshalBL env (map BlockInfo_ToWire (fBlocks f)))} \<Longrightarrow>
      blocklists db3 (fBlocksHash f) = Some (marshalBL env (map BlockInfo_ToWire (fBlocks f)))"
  unfolding db3_def
  by (auto simp: storeFile_def Let_def insertFile_def storeBlocks_frame insertBlocksLocked_def storeBlocks_def)

lemma distinct_filter_key: "distinct (map k xs) \<Longrightarrow> x \<in> set xs \<Longrightarrow> filter (\<lambda>y. k y = k x) xs = [x]"
proof (induction xs)
  case (Cons a xs)
  show ?case
  proof (cases "x = a")
    case True
    then have "\<forall>y \<in> set xs. k y \<noteq> k x" using Cons.prems(1) by (force simp: image_iff)
    then show ?thesis using True by (simp add: filter_empty_conv)
  next
    case False
    then have "x \<in> set xs" "k a \<noteq> k x" using Cons.prems by (auto simp: image_iff)
    then show ?thesis using Cons.IH Cons.prems(1) by simp
  qed
qed simp

lemma distinct_pair_eq: "distinct (map snd xs) \<Longrightarrow> (a, c) \<in> set xs \<Longrightarrow> (b, c) \<in> set xs \<Longrightarrow> a = b"
  by (induction xs) (auto intro: rev_image_eqI)

lemma distinct_pair_key: "distinct (map fst xs) \<Longrightarrow> (a, c) \<in> set xs \<Longrightarrow> map_of xs a = Some c"
  by (induction xs) (auto intro: rev_image_eqI)

lemma prepareFile_frame:
  "fTruncated (prepareFile env f) = fTruncated f" "fPlatform (prepareFile env f) = fPlatform f"
  "fEncryptionTrailerSize (prepareFile env f) = fEncryptionTrailerSize f"
  by (simp_all add: prepareFile_def Let_def)

lemma updateFile_stored:
  assumes srt: "row_sort (sortRows env)" and inv: "db_inv db" and i: "(i, d) \<in> set (devices db)"
    and ok: "updateFile env d i sk f (prev, db) = Ok (prev', db')"
    and u: "seq_unused env d i f (files db)" and w: "storedWire env d (nextSeq db) f = Ok w"
    and bl: "fBlocks f \<noteq> [] \<Longrightarrow> blocklists db (fBlocksHash (prepareFile env f))
               \<in> {None, Some (marshalBL env (map BlockInfo_ToWire (fBlocks f)))}"
  shows "\<exists>r. filter (\<lambda>x. ownedBy db' d x \<and> rName x = NormalizedFilename env (fName f)) (files db') = [r]
    \<and> joinInfo db' r = Some (marshalFI env w,
        if fBlocks f = [] then [] else marshalBL env (map BlockInfo_ToWire (fBlocks f)))"
proof -
  let ?n = "NormalizedFilename env (fName f)" and ?f = "prepareFile env f"
  have ii: "i \<in> fst ` set (devices db)" using i by force
  note inv' = updateFile_inv [OF srt inv ii u ok]
  obtain w' where rc: "recalcGlobalForFile env ?n (storeFile env d i sk ?f w' db) = Ok db'"
      "storedWire env d (nextSeq db) f = Ok w'"
    using updateFile_cases [OF ok] unfolding storedWire_def by blast
  have w': "w' = w" using rc(2) w by simp
  let ?db3 = "storeFile env d i sk ?f w db"
  have b3: "base_ok ?db3" using inv ii by (intro storeFile_base) (auto simp: db_inv_def)
  obtain d4 g where d4: "recalcGlobalForFile env ?n ?db3 = Ok d4" "files d4 = map g (files ?db3)"
      "\<And>r. \<exists>fl. g r = r\<lparr>rFlags := fl\<rparr>" "d4 = ?db3\<lparr>files := files d4, counts := counts d4\<rparr>"
    using recalc_inv [OF srt b3, of ?n] by blast
  have eq: "d4 = db'" using d4(1) rc(1) w' by simp
  let ?r0 = "(fileDBRow i (if d = LocalDeviceID then None else Some (fSequence ?f)) ?f)\<lparr>rSequence := nextSeq db\<rparr>"
  obtain fl where fl: "g ?r0 = ?r0\<lparr>rFlags := fl\<rparr>" using d4(3) by blast
  let ?r = "?r0\<lparr>rFlags := fl\<rparr>"
  have mem: "?r \<in> set (files db')"
    using storeFile_stored(2) [where i = i and d = d and f = ?f and db = db and env = env and sk = sk and w = w] d4(2) fl eq by (metis image_eqI set_map)
  have own: "ownedBy db' d x \<longleftrightarrow> rDevice x = i" if "x \<in> set (files db')" for x
  proof -
    have dd: "distinct (map fst (devices db))" "distinct (map snd (devices db))" "devices db' = devices db"
      using inv inv' by (auto simp: db_inv_def base_ok_def devices_ok_def)
    then show ?thesis
      using i distinct_pair_eq [OF dd(2)] distinct_pair_key [OF dd(1)] by (auto simp: ownedBy_def dest: map_of_SomeD)
  qed
  have keys: "distinct (map (\<lambda>r. (rDevice r, rName r)) (files db'))"
    using inv' by (simp add: db_inv_def base_ok_def keys_ok_def)
  have "filter (\<lambda>x. ownedBy db' d x \<and> rName x = ?n) (files db') =
      filter (\<lambda>x. (rDevice x, rName x) = (rDevice ?r, rName ?r)) (files db')"
    using own by (intro filter_cong) (auto simp: fileDBRow_def)
  also have "\<dots> = [?r]" by (rule distinct_filter_key [OF keys mem])
  finally have "filter (\<lambda>x. ownedBy db' d x \<and> rName x = ?n) (files db') = [?r]" .
  moreover have "fileinfos db' = fileinfos ?db3" "blocklists db' = blocklists ?db3"
    using eq by (subst (1) eq [symmetric], subst d4(4), simp)+
  then have "joinInfo db' ?r = Some (marshalFI env w,
        if fBlocks f = [] then [] else marshalBL env (map BlockInfo_ToWire (fBlocks f)))"
    using storeFile_stored(1,3) [where env = env and d = d and i = i and sk = sk and f = ?f and w = w and db = db] bl
    by (auto simp: joinInfo_def fileDBRow_def)
  ultimately show ?thesis by blast
qed


definition stored_env :: "bep_FileInfo \<Rightarrow> db_env" where
  "stored_env w = plain_env\<lparr>unmarshalFI := (\<lambda>_. Some w)\<rparr>"


end
