(* ===== verification/Job_Queue.thy ===== *)
theory Job_Queue
  imports Prelude Go_Time "HOL-Library.Multiset"
begin

text \<open>
  The queue of files to pull, \<open>lib/model/queue.go\<close>: the names being handled, in the order in
  which they were taken, and the entries still waiting. Each method runs under the queue's
  mutex, so a concurrent history is a sequence of the operations below.
\<close>

record jobQueueEntry =
  jName :: string
  jSize :: int
  jModified :: int

record jobQueue =
  progress :: "string list"
  queued :: "jobQueueEntry list"

definition newJobQueue :: jobQueue where
  "newJobQueue = \<lparr>progress = [], queued = []\<rparr>"

definition Push :: "string \<Rightarrow> int \<Rightarrow> go_time \<Rightarrow> jobQueue \<Rightarrow> jobQueue" where
  "Push file sz modified q =
     q\<lparr>queued := queued q @ [\<lparr>jName = file, jSize = sz, jModified = time_UnixNano modified\<rparr>]\<rparr>"

definition Pop :: "jobQueue \<Rightarrow> string option \<times> jobQueue" where
  "Pop q =
     (case queued q of
        [] \<Rightarrow> (None, q)
      | e # es \<Rightarrow> (Some (jName e), q\<lparr>queued := es, progress := progress q @ [jName e]\<rparr>))"

definition BringToFront :: "string \<Rightarrow> jobQueue \<Rightarrow> jobQueue" where
  "BringToFront filename q =
     (case first_index (\<lambda>cur. jName cur = filename) (queued q) of
        None \<Rightarrow> q
      | Some i \<Rightarrow>
          (if i > 0 then q\<lparr>queued := queued q ! i # take i (queued q) @ drop (i + 1) (queued q)\<rparr> else q))"

definition Done :: "string \<Rightarrow> jobQueue \<Rightarrow> jobQueue" where
  "Done file q =
     (case first_index (\<lambda>p. p = file) (progress q) of
        None \<Rightarrow> q
      | Some i \<Rightarrow> q\<lparr>progress := take i (progress q) @ drop (i + 1) (progress q)\<rparr>)"

definition Reset :: "jobQueue \<Rightarrow> jobQueue" where
  "Reset q = q\<lparr>progress := [], queued := []\<rparr>"

definition lenQueued :: "jobQueue \<Rightarrow> nat" where
  "lenQueued q = length (queued q)"

definition lenProgress :: "jobQueue \<Rightarrow> nat" where
  "lenProgress q = length (progress q)"

text \<open>
  \<open>Jobs\<close>: one page of the names in progress followed by the names queued. Out-of-range slice
  bounds and negative lengths panic.
\<close>

definition jobsRest :: "int \<Rightarrow> int \<Rightarrow> string list \<Rightarrow> jobQueue \<Rightarrow> (unit, string list) result" where
  "jobsRest toSkip perpage prog q =
     (let qlen = int (length (queued q));
          n = (if qlen - toSkip < perpage - int (length prog) then qlen - toSkip else perpage - int (length prog))
      in if n < 0 then Panic
         else if n = 0 then Ok []
         else go_slice toSkip (toSkip + n) (map jName (queued q)))"

definition Jobs :: "int \<Rightarrow> int \<Rightarrow> jobQueue \<Rightarrow> (unit, string list \<times> string list \<times> int) result" where
  "Jobs page perpage q =
     (let toSkip = to_i64 (to_i64 (page - 1) * perpage);
          plen = int (length (progress q));
          qlen = int (length (queued q))
      in if plen + qlen \<le> toSkip then Ok ([], [], plen + qlen)
         else if plen \<ge> to_i64 (toSkip + perpage) then
           (if perpage < 0 then Panic
            else bind_result (go_slice toSkip (to_i64 (toSkip + perpage)) (progress q)) (\<lambda>prog. Ok (prog, [], toSkip)))
         else if plen > toSkip then
           bind_result (go_slice toSkip plen (progress q)) (\<lambda>prog.
           bind_result (jobsRest 0 perpage prog q) (\<lambda>rest. Ok (prog, rest, toSkip)))
         else
           bind_result (jobsRest (toSkip - plen) perpage [] q) (\<lambda>rest. Ok ([], rest, toSkip)))"

section \<open>The contract of a work queue\<close>

text \<open>The operations as values, and the names that a sequence of them delivers.\<close>

datatype ('j, 'n) queue_op = OpPush 'j | OpPop | OpFront 'n | OpDone 'n

fun run_ops :: "('o \<Rightarrow> 'q \<Rightarrow> 'n option \<times> 'q) \<Rightarrow> 'o list \<Rightarrow> 'q \<Rightarrow> 'n list \<times> 'q" where
  "run_ops step [] q = ([], q)"
| "run_ops step (x # xs) q =
     (let (d, q') = step x q; (ds, q'') = run_ops step xs q'
      in (case d of None \<Rightarrow> ds | Some n \<Rightarrow> n # ds, q''))"

fun pushed :: "('j \<Rightarrow> 'n) \<Rightarrow> ('j, 'n) queue_op list \<Rightarrow> 'n multiset" where
  "pushed nm [] = {#}"
| "pushed nm (OpPush j # xs) = add_mset (nm j) (pushed nm xs)"
| "pushed nm (_ # xs) = pushed nm xs"

fun jobStep :: "(string \<times> int \<times> go_time, string) queue_op \<Rightarrow> jobQueue \<Rightarrow> string option \<times> jobQueue" where
  "jobStep (OpPush (file, sz, modified)) q = (None, Push file sz modified q)"
| "jobStep OpPop q = Pop q"
| "jobStep (OpFront n) q = (None, BringToFront n q)"
| "jobStep (OpDone n) q = (None, Done n q)"

definition jobNames :: "jobQueue \<Rightarrow> string list" where
  "jobNames q = map jName (queued q)"

text \<open>What the users of the queue rely on, and what follows for every sequence of operations.\<close>

locale work_queue =
  fixes step :: "('j, 'n) queue_op \<Rightarrow> 'q \<Rightarrow> 'n option \<times> 'q"
    and job_name :: "'j \<Rightarrow> 'n" and waiting :: "'q \<Rightarrow> 'n list" and running :: "'q \<Rightarrow> 'n list"
  assumes push_law: "fst (step (OpPush j) q) = None" "waiting (snd (step (OpPush j) q)) = waiting q @ [job_name j]"
    and pop_empty: "waiting q = [] \<Longrightarrow> step OpPop q = (None, q)"
    and pop_some: "waiting q = n # ns \<Longrightarrow> fst (step OpPop q) = Some n
      \<and> waiting (snd (step OpPop q)) = ns \<and> running (snd (step OpPop q)) = running q @ [n]"
    and front_law: "fst (step (OpFront n) q) = None" "mset (waiting (snd (step (OpFront n) q))) = mset (waiting q)"
    and done_law: "fst (step (OpDone n) q) = None" "waiting (snd (step (OpDone n) q)) = waiting q"
begin

lemma step_balance:
  "mset (waiting q) + pushed job_name [x] =
     (case fst (step x q) of None \<Rightarrow> {#} | Some n \<Rightarrow> {#n#}) + mset (waiting (snd (step x q)))"
proof (cases x)
  case OpPop
  show ?thesis
  proof (cases "waiting q")
    case Nil
    then show ?thesis using OpPop by (simp add: pop_empty)
  next
    case (Cons n ns)
    then show ?thesis using OpPop pop_some [of q n ns] by simp
  qed
qed (simp_all add: push_law front_law done_law)

lemma run_balance:
  "mset (waiting q) + pushed job_name xs = mset (fst (run_ops step xs q)) + mset (waiting (snd (run_ops step xs q)))"
proof (induction xs arbitrary: q)
  case (Cons x xs)
  have p: "pushed job_name (x # xs) = pushed job_name [x] + pushed job_name xs"
    by (cases x) simp_all
  obtain d q' where s: "step x q = (d, q')" by fastforce
  obtain ds q'' where r: "run_ops step xs q' = (ds, q'')" by fastforce
  show ?case
    using Cons.IH [of q'] step_balance [of q x] unfolding p
    by (cases d) (simp_all add: s r add.assoc [symmetric])
qed simp

text \<open>Popping until the queue is empty delivers the waiting names in order.\<close>

lemma drain:
  "\<exists>q'. run_ops step (replicate (length (waiting q)) OpPop) q = (waiting q, q')
     \<and> waiting q' = [] \<and> running q' = running q @ waiting q"
proof (induction "waiting q" arbitrary: q)
  case (Cons n ns)
  obtain q1 where p: "step OpPop q = (Some n, q1)" "waiting q1 = ns" "running q1 = running q @ [n]"
    using pop_some [OF Cons.hyps(2) [symmetric]] by (cases "step OpPop q") auto
  then obtain q' where "run_ops step (replicate (length ns) OpPop) q1 = (ns, q')" "waiting q' = []"
      "running q' = running q @ n # ns"
    using Cons.hyps(1) [of q1] by auto
  then show ?case
    using p(1) Cons.hyps(2) [symmetric] by simp
qed simp

end

section \<open>The queue meets the contract\<close>

lemma mset_take_drop_nth: "i < length xs \<Longrightarrow> add_mset (xs ! i) (mset (take i xs @ drop (Suc i) xs)) = mset xs"
  by (metis id_take_nth_drop mset.simps(2) mset_append union_mset_add_mset_right)

lemma remove1_first_index:
  "remove1 x xs = (case first_index (\<lambda>y. y = x) xs of None \<Rightarrow> xs | Some i \<Rightarrow> take i xs @ drop (i + 1) xs)"
  by (induction xs) (auto split: option.splits)

lemma waiting_front:
  "map jName (queued (BringToFront n q)) =
     (if n \<in> set (map jName (queued q)) then n # remove1 n (map jName (queued q)) else map jName (queued q))"
proof (cases "first_index (\<lambda>cur. jName cur = n) (queued q)")
  case None
  then have "n \<notin> set (map jName (queued q))" by (auto simp: first_index_None)
  then show ?thesis using None by (simp add: BringToFront_def)
next
  case (Some i)
  note fi = first_index_Some [OF Some]
  have map_fi: "first_index (\<lambda>y. y = n) (map jName es) = first_index (\<lambda>cur. jName cur = n) es" for es
    by (induction es) auto
  have mem: "n \<in> set (map jName (queued q))"
    using fi by (metis in_set_conv_nth length_map nth_map)
  have r: "remove1 n (map jName (queued q)) = map jName (take i (queued q) @ drop (i + 1) (queued q))"
    unfolding remove1_first_index map_fi Some by (simp add: take_map drop_map)
  show ?thesis
  proof (cases i)
    case 0
    then show ?thesis using fi Some mem r by (cases "queued q") (auto simp: BringToFront_def)
  next
    case (Suc k)
    then show ?thesis using fi Some mem r by (simp add: BringToFront_def)
  qed
qed

interpretation jq: work_queue jobStep fst jobNames progress
proof
  fix q n ns
  show "jobNames q = [] \<Longrightarrow> jobStep OpPop q = (None, q)" by (simp add: Pop_def jobNames_def)
  show "jobNames q = n # ns \<Longrightarrow> fst (jobStep OpPop q) = Some n \<and> jobNames (snd (jobStep OpPop q)) = ns
      \<and> progress (snd (jobStep OpPop q)) = progress q @ [n]"
    by (auto simp: Pop_def jobNames_def)
  show "mset (jobNames (snd (jobStep (OpFront n) q))) = mset (jobNames q)"
    unfolding jobNames_def jobStep.simps snd_conv waiting_front by simp
  show "jobNames (snd (jobStep (OpDone n) q)) = jobNames q"
    by (simp add: Done_def jobNames_def split: option.splits)
next
  fix j :: "string \<times> int \<times> go_time" and q
  show "fst (jobStep (OpPush j) q) = None" "jobNames (snd (jobStep (OpPush j) q)) = jobNames q @ [fst j]"
    by (cases j; simp add: Push_def jobNames_def)+
qed simp_all

text \<open>
  No job is lost or duplicated: over any interleaving of pushes, pops, re-orderings
  and completions, the names waiting at the start together with those pushed are exactly the
  names delivered by the pops together with those still waiting; and popping until the queue
  is empty delivers the waiting names in queue order and records them as in progress.
\<close>

lemma jobs_conserved:
  "mset (jobNames q) + pushed fst ops = mset (fst (run_ops jobStep ops q)) + mset (jobNames (snd (run_ops jobStep ops q)))
   \<and> (\<exists>q'. run_ops jobStep (replicate (lenQueued q) OpPop) q = (jobNames q, q')
        \<and> lenQueued q' = 0 \<and> progress q' = progress q @ jobNames q)"
  using jq.run_balance [of q ops] jq.drain [of q] by (simp add: lenQueued_def jobNames_def)

text \<open>
  \<open>BringToFront\<close> makes a queued file the next one to be pulled and keeps the order of
  the others; \<open>Done\<close> removes one entry from the list in progress.
\<close>

lemma BringToFront_next:
  assumes "n \<in> set (jobNames q)"
  shows "fst (Pop (BringToFront n q)) = Some n
    \<and> jobNames (snd (Pop (BringToFront n q))) = remove1 n (jobNames q)
    \<and> progress (Done n (snd (Pop (BringToFront n q)))) = remove1 n (progress q @ [n])"
proof -
  have w: "jobNames (BringToFront n q) = n # remove1 n (jobNames q)"
    using assms waiting_front [of n q] by (simp add: jobNames_def)
  have pr: "progress (BringToFront n q) = progress q"
    by (simp add: BringToFront_def split: option.splits)
  have "progress (Done n q') = remove1 n (progress q')" for q'
    unfolding remove1_first_index by (auto simp: Done_def split: option.splits)
  then show ?thesis
    using jq.pop_some [OF w] pr by simp
qed

section \<open>Pages\<close>

lemma jobsRest_page:
  assumes "0 \<le> s" and "s \<le> int (length (queued q))" and "int (length prog) \<le> perpage"
  shows "jobsRest s perpage prog q = Ok (take (nat (perpage - int (length prog))) (drop (nat s) (map jName (queued q))))"
proof -
  let ?n = "if int (length (queued q)) - s < perpage - int (length prog) then int (length (queued q)) - s
            else perpage - int (length prog)"
  have n: "0 \<le> ?n" "s + ?n \<le> int (length (queued q))" using assms by auto
  have "take (nat ?n) (drop (nat s) (map jName (queued q)))
      = take (nat (perpage - int (length prog))) (drop (nat s) (map jName (queued q)))"
    using assms by (cases "int (length (queued q)) - s < perpage - int (length prog)") simp_all
  then show ?thesis
    using n assms(1) by (auto simp: jobsRest_def Let_def go_slice_def)
qed

text \<open>
  Pagination is exact: for a page number and a page size of at least one (whose
  product fits in 64 bits), \<open>Jobs\<close> does not panic and returns the requested window of the
  names in progress followed by the names queued, split between the two lists, and the number
  of items that come before it.
\<close>

lemma Jobs_page:
  assumes "1 \<le> page" and "1 \<le> perpage" and "page * perpage < 2 ^ 63"
  shows "\<exists>p w s. Jobs page perpage q = Ok (p, w, s)
    \<and> p @ w = take (nat perpage) (drop (nat ((page - 1) * perpage)) (progress q @ map jName (queued q)))
    \<and> p = take (nat perpage) (drop (nat ((page - 1) * perpage)) (progress q))
    \<and> s = min ((page - 1) * perpage) (int (length (progress q) + length (queued q)))"
proof -
  define sk where sk: "sk = (page - 1) * perpage"
  let ?pl = "int (length (progress q))" and ?ql = "int (length (queued q))"
  have s0: "0 \<le> sk" using assms by (simp add: sk)
  have sp: "sk + perpage = page * perpage" by (simp add: sk algebra_simps)
  have pp: "page \<le> page * perpage" using mult_left_mono [of 1 perpage page] assms by simp
  have w1: "to_i64 (page - 1) = page - 1" using assms pp by (intro to_i64_id, unfold is_i64_def) linarith
  have w2: "to_i64 sk = sk" using assms s0 sp by (intro to_i64_id, unfold is_i64_def) linarith
  have w3: "to_i64 (sk + perpage) = sk + perpage" using assms s0 sp by (intro to_i64_id, unfold is_i64_def) linarith
  note D = Jobs_def [unfolded Let_def, of page perpage q, unfolded w1, folded sk, unfolded w2 w3]
  consider "?pl + ?ql \<le> sk" | "sk < ?pl + ?ql" "sk + perpage \<le> ?pl"
    | "sk < ?pl" "?pl < sk + perpage" | "?pl \<le> sk" "sk < ?pl + ?ql" by linarith
  then show ?thesis
  proof cases
    case 1
    then show ?thesis unfolding sk [symmetric] using s0 by (simp add: D min_def nat_le_iff)
  next
    case 2
    then have "nat perpage + nat sk \<le> length (progress q)" using s0 assms(2) by linarith
    with 2 show ?thesis unfolding sk [symmetric] using assms(2) s0 by (simp add: D go_slice_def min_def)
  next
    case 3
    have g: "go_slice sk ?pl (progress q) = (Ok (drop (nat sk) (progress q)) :: (unit, string list) result)"
      using 3 s0 by (simp add: go_slice_def)
    have l: "int (length (drop (nat sk) (progress q))) = ?pl - sk" using 3 s0 by simp
    have r: "jobsRest 0 perpage (drop (nat sk) (progress q)) q =
        Ok (take (nat (perpage - (?pl - sk))) (map jName (queued q)))"
      using 3 s0 by (subst jobsRest_page) (simp_all add: l)
    have n: "nat (perpage - (?pl - sk)) = nat perpage - (length (progress q) - nat sk)"
        "length (progress q) - nat sk \<le> nat perpage" "nat sk - length (progress q) = 0"
      using 3 s0 by linarith+
    show ?thesis
      unfolding sk [symmetric] using 3 s0 by (simp add: D g r n min_def)
  next
    case 4
    have r: "jobsRest (sk - ?pl) perpage [] q = Ok (take (nat perpage) (drop (nat (sk - ?pl)) (map jName (queued q))))"
      using 4 assms by (subst jobsRest_page) simp_all
    have n: "nat (sk - ?pl) = nat sk - length (progress q)" "length (progress q) \<le> nat sk" "\<not> sk + perpage \<le> ?pl"
      using 4 s0 assms(2) by linarith+
    show ?thesis
      unfolding sk [symmetric] using 4 s0 n by (simp add: D r min_def)
  qed
qed

end
