(* ===== verification/Block_Reorder.thy ===== *)
theory Block_Reorder
  imports File_Info Device_ID "HOL-Library.Multiset"
begin

text \<open>
  The order in which the missing blocks of a file are fetched,
  \<open>lib/model/blockpullreorderer.go\<close>. The devices of a folder that use the standard order
  split a file into one chunk per device, and each starts with its own chunk.

  \<open>rand.Shuffle\<close> is the Fisher-Yates loop of \<open>math/rand\<close>; the number drawn in each round is an
  argument of the model, so that the results hold for every outcome.
\<close>

section \<open>Shuffling and sorting\<close>

definition swapAt :: "nat \<Rightarrow> nat \<Rightarrow> 'a list \<Rightarrow> 'a list" where
  "swapAt i j xs = (xs[i := xs ! j])[j := xs ! i]"

fun shuffleFrom :: "(nat \<Rightarrow> nat) \<Rightarrow> nat \<Rightarrow> 'a list \<Rightarrow> 'a list" where
  "shuffleFrom draw 0 xs = xs"
| "shuffleFrom draw (Suc i) xs = shuffleFrom draw i (swapAt (Suc i) (draw (Suc i) mod (Suc i + 1)) xs)"

definition Shuffle :: "(nat \<Rightarrow> nat) \<Rightarrow> 'a list \<Rightarrow> 'a list" where
  "Shuffle draw xs = (if length xs < 2 then xs else shuffleFrom draw (length xs - 1) xs)"

text \<open>\<open>slices.SortFunc\<close> with \<open>DeviceID.Compare\<close>, a total order, so every sort gives this list.\<close>

fun insertDevice :: "DeviceID \<Rightarrow> DeviceID list \<Rightarrow> DeviceID list" where
  "insertDevice d [] = [d]"
| "insertDevice d (e # es) = (if DeviceID_Compare d e \<le> 0 then d # e # es else e # insertDevice d es)"

definition sortDevices :: "DeviceID list \<Rightarrow> DeviceID list" where
  "sortDevices ds = foldr insertDevice ds []"

section \<open>The reorderers\<close>

datatype BlockPullOrder = BlockPullOrderStandard | BlockPullOrderRandom | BlockPullOrderInOrder

record standardBlockPullReorderer =
  myIndex :: nat
  count :: nat

datatype blockPullReorderer =
    RandomOrder
  | InOrder
  | StandardOrder standardBlockPullReorderer

definition newStandardBlockPullReorderer ::
  "DeviceID \<Rightarrow> DeviceID list \<Rightarrow> (unit, standardBlockPullReorderer) result" where
  "newStandardBlockPullReorderer i otherDevices =
     (let allDevices = sortDevices (otherDevices @ [i]) in
      case first_index (\<lambda>dev. dev = i) allDevices of
        None \<Rightarrow> Panic
      | Some k \<Rightarrow> Ok \<lparr>myIndex = k, count = length allDevices\<rparr>)"

definition newBlockPullReorderer ::
  "BlockPullOrder \<Rightarrow> DeviceID \<Rightarrow> DeviceID list \<Rightarrow> (unit, blockPullReorderer) result" where
  "newBlockPullReorderer order i otherDevices =
     (case order of
        BlockPullOrderRandom \<Rightarrow> Ok RandomOrder
      | BlockPullOrderInOrder \<Rightarrow> Ok InOrder
      | BlockPullOrderStandard \<Rightarrow> bind_result (newStandardBlockPullReorderer i otherDevices) (\<lambda>r. Ok (StandardOrder r)))"

text \<open>The loop of \<open>chunk\<close>; it is entered only when there is a block, and then the chunk size is positive.\<close>

function chunkLoop :: "nat \<Rightarrow> nat \<Rightarrow> 'a list \<Rightarrow> 'a list list" where
  "chunkLoop chunkSize i blocks =
     (if i < length blocks \<and> 0 < chunkSize
      then take (min (i + chunkSize) (length blocks) - i) (drop i blocks) # chunkLoop chunkSize (i + chunkSize) blocks
      else [])"
  by pat_completeness auto
termination by (relation "measure (\<lambda>(c, i, bs). length bs - i)") auto

declare chunkLoop.simps [simp del]

definition chunk :: "'a list \<Rightarrow> nat \<Rightarrow> 'a list list" where
  "chunk blocks partCount =
     (if partCount = 0 then [blocks]
      else chunkLoop ((length blocks + partCount - 1) div partCount) 0 blocks)"

definition standard_Reorder ::
  "(nat \<Rightarrow> nat) \<Rightarrow> standardBlockPullReorderer \<Rightarrow> BlockInfo list \<Rightarrow> BlockInfo list" where
  "standard_Reorder draw p bs =
     (if bs = [] then bs
      else let chunks = chunk bs (count p);
               own = (if myIndex p < length chunks then chunks ! myIndex p else []);
               indexes = Shuffle draw (filter (\<lambda>i. i \<noteq> myIndex p) [0..<length chunks])
           in own @ concat (map (\<lambda>idx. chunks ! idx) indexes))"

definition inOrder_Reorder :: "BlockInfo list \<Rightarrow> BlockInfo list" where
  "inOrder_Reorder bs = bs"

definition randomOrder_Reorder :: "(nat \<Rightarrow> nat) \<Rightarrow> BlockInfo list \<Rightarrow> BlockInfo list" where
  "randomOrder_Reorder draw bs = Shuffle draw bs"

primrec Reorder :: "(nat \<Rightarrow> nat) \<Rightarrow> blockPullReorderer \<Rightarrow> BlockInfo list \<Rightarrow> BlockInfo list" where
  "Reorder draw RandomOrder bs = randomOrder_Reorder draw bs"
| "Reorder draw InOrder bs = inOrder_Reorder bs"
| "Reorder draw (StandardOrder p) bs = standard_Reorder draw p bs"

section \<open>Shuffling permutes, chunking partitions\<close>

lemma length_swapAt [simp]: "length (swapAt i j xs) = length xs"
  by (simp add: swapAt_def)

lemma mset_swapAt [simp]: "i < length xs \<Longrightarrow> j < length xs \<Longrightarrow> mset (swapAt i j xs) = mset xs"
  by (simp add: swapAt_def mset_swap)

lemma mset_shuffleFrom: "n < length xs \<Longrightarrow> mset (shuffleFrom draw n xs) = mset xs"
proof (induction n arbitrary: xs)
  case (Suc n)
  have "draw (Suc n) mod (Suc n + 1) < Suc n + 1" by (rule mod_less_divisor) simp
  then have "draw (Suc n) mod (Suc n + 1) < length xs" using Suc.prems by linarith
  then show ?case using Suc by simp
qed simp

lemma mset_Shuffle [simp]: "mset (Shuffle draw xs) = mset xs"
  by (simp add: Shuffle_def mset_shuffleFrom)

lemma chunkLoop_done [simp]: "length bs \<le> i \<Longrightarrow> chunkLoop c i bs = []"
  by (subst chunkLoop.simps) simp

lemma concat_chunkLoop: "0 < c \<Longrightarrow> concat (chunkLoop c i bs) = drop i bs"
proof (induction c i bs rule: chunkLoop.induct)
  case (1 c i bs)
  show ?case
  proof (cases "i < length bs")
    case True
    have "take (min (i + c) (length bs) - i) (drop i bs) @ drop (i + c) bs = drop i bs"
    proof (cases "i + c \<le> length bs")
      case True
      then show ?thesis by (simp add: add.commute flip: drop_drop)
    qed simp
    with 1 True show ?thesis by (simp add: chunkLoop.simps [of c i])
  qed simp
qed

lemma chunk_size_pos: "0 < n \<Longrightarrow> bs \<noteq> [] \<Longrightarrow> 0 < (length bs + n - 1) div n"
proof -
  assume "0 < n" "bs \<noteq> []"
  then have "0 < length bs" by simp
  then have "n \<le> length bs + n - 1" by linarith
  then show ?thesis using \<open>0 < n\<close> by (simp only: div_greater_zero_iff)
qed

lemma concat_chunk: "concat (chunk bs n) = bs"
proof (cases "n = 0 \<or> bs = []")
  case True
  then show ?thesis by (auto simp: chunk_def)
next
  case False
  then have "0 < (length bs + n - 1) div n" by (intro chunk_size_pos) simp_all
  then show ?thesis using False by (simp add: chunk_def concat_chunkLoop)
qed

lemma length_chunkLoop: "0 < c \<Longrightarrow> i \<le> k * c \<Longrightarrow> length bs \<le> k * c \<Longrightarrow> length (chunkLoop c i bs) \<le> k - i div c"
proof (induction c i bs rule: chunkLoop.induct)
  case (1 c i bs)
  show ?case
  proof (cases "i < length bs")
    case True
    have lt: "i div c < k" using True 1 by (simp add: less_mult_imp_div_less)
    have "length (chunkLoop c (i + c) bs) \<le> k - (i + c) div c"
    proof (cases "i + c \<le> k * c")
      case False
      then have "\<not> i + c < length bs" using 1 by linarith
      then show ?thesis by simp
    qed (use 1 True in simp)
    moreover have "(i + c) div c = Suc (i div c)" using 1(2) div_add_self2 [of c i] by simp
    ultimately show ?thesis using True 1(2) lt by (simp add: chunkLoop.simps [of c i] del: div_add_self2)
  qed simp
qed

lemma length_chunk: "0 < n \<Longrightarrow> length (chunk bs n) \<le> n"
proof -
  assume n: "0 < n"
  let ?c = "(length bs + n - 1) div n"
  show ?thesis
  proof (cases "bs = []")
    case False
    then have c: "0 < ?c" using n by (intro chunk_size_pos)
    have "(length bs + n - 1) mod n < n" using n by simp
    moreover have "n * ?c + (length bs + n - 1) mod n = length bs + n - 1" by (rule mult_div_mod_eq)
    ultimately have "length bs \<le> n * ?c" using n by linarith
    then show ?thesis using length_chunkLoop [OF c, of 0 n bs] n by (simp add: chunk_def)
  qed (use n in \<open>simp add: chunk_def\<close>)
qed

lemma mset_concat_perm:
  "mset is = mset js \<Longrightarrow> mset (concat (map f is)) = mset (concat (map f js))"
  by (simp add: mset_concat flip: mset_map) (metis mset_map sum_mset_sum_list)

lemma mset_own_first:
  "k < n \<Longrightarrow> mset (f k @ concat (map f (filter (\<lambda>i. i \<noteq> k) [0..<n]))) = mset (concat (map f [0..<n]))"
proof -
  assume "k < n"
  then have "[0..<n] = [0..<k] @ k # [Suc k..<n]"
    by (metis less_imp_add_positive upt_add_eq_append upt_conv_Cons zero_le add_gr_0 less_imp_le_nat le_add_diff_inverse)
  moreover have "filter (\<lambda>i. i \<noteq> k) [0..<k] = [0..<k]" "filter (\<lambda>i. i \<noteq> k) [Suc k..<n] = [Suc k..<n]"
    by (auto simp: filter_id_conv)
  ultimately show ?thesis by simp
qed

section \<open>The contract of a reorderer\<close>

locale block_reorderer =
  fixes reorder :: "BlockInfo list \<Rightarrow> BlockInfo list"
  assumes permutes: "mset (reorder bs) = mset bs"
begin

lemma same_blocks: "set (reorder bs) = set bs" and same_number: "length (reorder bs) = length bs"
  using permutes by (metis mset_eq_setD, metis mset_eq_length)

lemma same_bytes: "(\<Sum>b\<leftarrow>reorder bs. bSize b) = (\<Sum>b\<leftarrow>bs. bSize b)"
  using permutes by (metis mset_map sum_mset_sum_list)

end

interpretation inOrder: block_reorderer inOrder_Reorder
  by unfold_locales (simp add: inOrder_Reorder_def)

interpretation randomOrder: block_reorderer "randomOrder_Reorder draw" for draw
  by unfold_locales (simp add: randomOrder_Reorder_def)

interpretation standardOrder: block_reorderer "standard_Reorder draw p" for draw p
proof
  fix bs :: "BlockInfo list"
  let ?c = "chunk bs (count p)" and ?k = "myIndex p"
  have all: "concat (map ((!) ?c) [0..<length ?c]) = bs" by (simp add: map_nth concat_chunk)
  have perm: "mset (concat (map ((!) ?c) (Shuffle draw (filter (\<lambda>i. i \<noteq> ?k) [0..<length ?c])))) =
      mset (concat (map ((!) ?c) (filter (\<lambda>i. i \<noteq> ?k) [0..<length ?c])))"
    by (rule mset_concat_perm) simp
  show "mset (standard_Reorder draw p bs) = mset bs"
  proof (cases "?k < length ?c")
    case True
    then show ?thesis
      using mset_own_first [OF True, of "(!) ?c"] all perm by (simp add: standard_Reorder_def Let_def)
  next
    case False
    then have "filter (\<lambda>i. i \<noteq> ?k) [0..<length ?c] = [0..<length ?c]" by (auto simp: filter_id_conv)
    then show ?thesis using False all perm by (simp add: standard_Reorder_def Let_def)
  qed
qed

interpretation anyOrder: block_reorderer "Reorder draw r" for draw r
  by unfold_locales (cases r; simp add: inOrder.permutes randomOrder.permutes standardOrder.permutes)

section \<open>Every device starts elsewhere\<close>

lemma bytesCompare_eq: "bytesCompare a b = 0 \<longleftrightarrow> a = b"
  by (induction a b rule: bytesCompare.induct) auto

lemma bytesCompare_neg: "bytesCompare b a = - bytesCompare a b"
  by (induction a b rule: bytesCompare.induct) auto

lemma bytesCompare_trans: "bytesCompare a b \<le> 0 \<Longrightarrow> bytesCompare b c \<le> 0 \<Longrightarrow> bytesCompare a c \<le> 0"
proof (induction a b arbitrary: c rule: bytesCompare.induct)
  case (4 x xs y ys)
  then show ?case by (cases c) (auto split: if_splits)
next
  case (2 y ys)
  then show ?case by (cases c) auto
qed (auto split: if_splits)

definition dev_le :: "DeviceID \<Rightarrow> DeviceID \<Rightarrow> bool" where
  "dev_le a b \<longleftrightarrow> DeviceID_Compare a b \<le> 0"

lemma dev_le_order:
  "dev_le a a" "dev_le a b \<Longrightarrow> dev_le b c \<Longrightarrow> dev_le a c"
  "dev_le a b \<Longrightarrow> dev_le b a \<Longrightarrow> a = b" "dev_le a b \<or> dev_le b a"
proof -
  have n: "bytesCompare b a = - bytesCompare a b" by (rule bytesCompare_neg)
  show "dev_le a a" by (simp add: dev_le_def DeviceID_Compare_def bytesCompare_eq [THEN iffD2])
  show "dev_le a b \<Longrightarrow> dev_le b c \<Longrightarrow> dev_le a c"
    by (simp add: dev_le_def DeviceID_Compare_def bytesCompare_trans)
  show "dev_le a b \<Longrightarrow> dev_le b a \<Longrightarrow> a = b"
    using n bytesCompare_eq [of a b] by (simp add: dev_le_def DeviceID_Compare_def)
  show "dev_le a b \<or> dev_le b a" using n by (auto simp: dev_le_def DeviceID_Compare_def)
qed

lemma mset_insertDevice: "mset (insertDevice d es) = add_mset d (mset es)"
  by (induction es) auto

lemma mset_sortDevices [simp]: "mset (sortDevices ds) = mset ds"
  unfolding sortDevices_def by (induction ds) (simp_all add: mset_insertDevice)

lemma set_insertDevice: "set (insertDevice d es) = insert d (set es)"
  using mset_insertDevice [of d es] by (metis set_mset_add_mset_insert set_mset_mset)

lemma sorted_insertDevice: "sorted_wrt dev_le es \<Longrightarrow> sorted_wrt dev_le (insertDevice d es)"
proof (induction es)
  case (Cons e es)
  show ?case
  proof (cases "DeviceID_Compare d e \<le> 0")
    case True
    then have "dev_le d e" by (simp add: dev_le_def)
    then show ?thesis using True Cons.prems dev_le_order(2) by auto
  next
    case False
    then have "dev_le e d" using dev_le_order(4) [of d e] by (auto simp: dev_le_def)
    then show ?thesis using False Cons by (auto simp: set_insertDevice)
  qed
qed simp

lemma sorted_sortDevices: "sorted_wrt dev_le (sortDevices ds)"
  unfolding sortDevices_def by (induction ds) (simp_all add: sorted_insertDevice)

lemma sorted_dev_unique:
  "sorted_wrt dev_le xs \<Longrightarrow> sorted_wrt dev_le ys \<Longrightarrow> mset xs = mset ys \<Longrightarrow> xs = ys"
proof (induction xs arbitrary: ys)
  case (Cons x xs)
  then obtain y ys' where y: "ys = y # ys'" by (cases ys) auto
  have "x \<in> set ys" "y \<in> set (x # xs)" using Cons.prems(3) y by (metis list.set_intros(1) mset_eq_setD)+
  then have "x = y" using Cons.prems(1,2) y dev_le_order(3) by auto
  then show ?case using Cons y by simp
qed simp

lemma sortDevices_cong: "mset ds = mset es \<Longrightarrow> sortDevices ds = sortDevices es"
  by (intro sorted_dev_unique sorted_sortDevices) simp

lemma first_index_distinct: "distinct xs \<Longrightarrow> i < length xs \<Longrightarrow> first_index (\<lambda>x. x = xs ! i) xs = Some i"
proof (induction xs arbitrary: i)
  case (Cons x xs)
  then show ?case by (cases i) auto
qed simp

definition ownChunk :: "BlockInfo list \<Rightarrow> standardBlockPullReorderer \<Rightarrow> BlockInfo list" where
  "ownChunk bs p = (let cs = chunk bs (count p) in if myIndex p < length cs then cs ! myIndex p else [])"

lemma own_first: "prefix (ownChunk bs p) (standard_Reorder draw p bs)"
proof (cases "bs = []")
  case True
  then have "set (concat (chunk bs (count p))) = {}" by (simp add: concat_chunk)
  then have "ownChunk bs p = []" by (auto simp: ownChunk_def Let_def)
  then show ?thesis by simp
qed (simp add: ownChunk_def standard_Reorder_def Let_def)

lemma concat_pad: "length cs \<le> n \<Longrightarrow> concat (map (\<lambda>k. if k < length cs then cs ! k else []) [0..<n]) = concat cs"
proof -
  assume "length cs \<le> n"
  then have "[0..<n] = [0..<length cs] @ [length cs..<n]"
    by (metis le_add_diff_inverse upt_add_eq_append zero_le)
  moreover have "map (\<lambda>k. if k < length cs then cs ! k else []) [0..<length cs] = cs"
    by (rule nth_equalityI) simp_all
  ultimately show ?thesis by simp
qed

text \<open>
  Claim C32. Whatever the configured order and whatever is drawn at random, the reordered block
  list is a permutation of the given one: no block of a file is dropped or fetched twice.
\<close>

theorem Reorder_permutes:
  "mset (Reorder draw r bs) = mset bs \<and> (\<Sum>b\<leftarrow>Reorder draw r bs. bSize b) = (\<Sum>b\<leftarrow>bs. bSize b)"
  using anyOrder.permutes anyOrder.same_bytes by blast

text \<open>
  The standard order spreads the load: when the devices of a folder pull the same
  blocks, each of them (knowing the same set of devices, in any order) gets a reorderer without
  panicking, starts with a chunk of its own, and the chunks of all devices, in the order of the
  device IDs, are exactly the block list; so together they first fetch every block once.
\<close>

lemma standard_cover:
  assumes "distinct ds" and "ds \<noteq> []" and "\<And>d. d \<in> set ds \<Longrightarrow> mset (others d @ [d]) = mset ds"
  shows "\<exists>r. (\<forall>d\<in>set ds. newStandardBlockPullReorderer d (others d) = Ok (r d)
           \<and> (\<forall>draw. prefix (ownChunk bs (r d)) (standard_Reorder draw (r d) bs)))
      \<and> concat (map (\<lambda>d. ownChunk bs (r d)) (sortDevices ds)) = bs"
proof -
  let ?S = "sortDevices ds"
  have dist: "distinct ?S" using assms(1) by (metis mset_sortDevices mset_eq_imp_distinct_iff)
  have setS: "set ?S = set ds" and lenS: "length ?S = length ds"
    by (metis mset_eq_setD mset_sortDevices, metis mset_eq_length mset_sortDevices)
  define r where "r d = \<lparr>myIndex = the (first_index (\<lambda>x. x = d) ?S), count = length ?S\<rparr>" for d
  have new: "newStandardBlockPullReorderer d (others d) = Ok (r d)" if "d \<in> set ds" for d
  proof -
    have "sortDevices (others d @ [d]) = ?S" by (rule sortDevices_cong [OF assms(3) [OF that]])
    moreover have "first_index (\<lambda>x. x = d) ?S \<noteq> None" using that setS by (simp add: first_index_None)
    then obtain k where "first_index (\<lambda>x. x = d) ?S = Some k" by blast
    ultimately show ?thesis by (simp add: newStandardBlockPullReorderer_def r_def)
  qed
  let ?cs = "chunk bs (length ?S)"
  have "map (\<lambda>d. ownChunk bs (r d)) ?S = map (\<lambda>k. if k < length ?cs then ?cs ! k else []) [0..<length ?S]"
    by (rule nth_equalityI) (simp_all add: ownChunk_def r_def first_index_distinct [OF dist] Let_def)
  moreover have "length ?cs \<le> length ?S" using assms(2) lenS by (intro length_chunk) simp
  ultimately have "concat (map (\<lambda>d. ownChunk bs (r d)) ?S) = bs"
    by (simp only: concat_pad concat_chunk)
  then show ?thesis using new own_first by blast
qed

end
