(* ===== verification/Go_Path.thy ===== *)
theory Go_Path
  imports Prelude
begin

text \<open>
  The lexical path functions of Go's \<open>path\<close> package that the sources call (and, on Unix, of
  \<open>path/filepath\<close>): \<open>Clean\<close>, \<open>Dir\<close> and \<open>Base\<close>. \<open>Clean\<close> works on the slash-separated
  components: empty ones and \<open>.\<close> are dropped, and \<open>..\<close> removes the component before it.
\<close>

abbreviation slash :: char where "slash \<equiv> CHR 0x2F"

abbreviation dot :: string where "dot \<equiv> [CHR 0x2E]"

abbreviation dotdot :: string where "dotdot \<equiv> [CHR 0x2E, CHR 0x2E]"

text \<open>One component, on top of the reversed list of those kept so far.\<close>

definition cleanStep :: "bool \<Rightarrow> string list \<Rightarrow> string \<Rightarrow> string list" where
  "cleanStep rooted out c =
     (if c = [] \<or> c = dot then out
      else if c = dotdot then
        (case out of
           [] \<Rightarrow> (if rooted then [] else [dotdot])
         | x # xs \<Rightarrow> (if x = dotdot then dotdot # out else xs))
      else c # out)"

definition cleanParts :: "bool \<Rightarrow> string list \<Rightarrow> string list" where
  "cleanParts rooted cs = rev (foldl (cleanStep rooted) [] cs)"

definition isRooted :: "string \<Rightarrow> bool" where
  "isRooted p \<longleftrightarrow> p \<noteq> [] \<and> hd p = slash"

definition Clean :: "string \<Rightarrow> string" where
  "Clean p =
     (if p = [] then dot
      else let s = join_with slash (cleanParts (isRooted p) (split_on slash p))
           in if isRooted p then slash # s else if s = [] then dot else s)"

definition path_Dir :: "string \<Rightarrow> string" where
  "path_Dir p = Clean (rev (dropWhile (\<lambda>c. c \<noteq> slash) (rev p)))"

definition path_Base :: "string \<Rightarrow> string" where
  "path_Base p =
     (if p = [] then dot
      else let q = rev (dropWhile (\<lambda>c. c = slash) (rev p));
               b = rev (takeWhile (\<lambda>c. c \<noteq> slash) (rev q))
           in if b = [] then [slash] else b)"

section \<open>Clean paths\<close>

text \<open>The components of a clean relative path: some \<open>..\<close>, then proper names.\<close>

definition proper_name :: "string \<Rightarrow> bool" where
  "proper_name c \<longleftrightarrow> c \<noteq> [] \<and> c \<noteq> dot \<and> c \<noteq> dotdot \<and> slash \<notin> set c"

definition clean_list :: "string list \<Rightarrow> bool" where
  "clean_list cs \<longleftrightarrow> (\<exists>n ps. cs = replicate n dotdot @ ps \<and> (\<forall>p\<in>set ps. proper_name p))"

lemma split_on_no_sep: "p \<in> set (split_on sep s) \<Longrightarrow> sep \<notin> set p"
proof (induction s arbitrary: p)
  case (Cons c cs)
  then show ?case by (cases "split_on sep cs") (auto split: if_splits)
qed simp

lemma join_split_on: "join_with sep (split_on sep s) = s"
proof (induction s)
  case (Cons c cs)
  obtain q qs where q: "split_on sep cs = q # qs" by (meson split_on_neq_Nil neq_Nil_conv)
  then show ?case using Cons by (cases qs) auto
qed simp

lemma cleanStep_clean:
  assumes "clean_list (rev out)" and "slash \<notin> set c"
  shows "clean_list (rev (cleanStep rooted out c))"
proof -
  obtain n ps where o: "rev out = replicate n dotdot @ ps" "\<forall>p\<in>set ps. proper_name p"
    using assms(1) by (auto simp: clean_list_def)
  show ?thesis
  proof (cases "c = [] \<or> c = dot")
    case True
    then show ?thesis using assms(1) by (simp add: cleanStep_def)
  next
    case F: False
    show ?thesis
    proof (cases "c = dotdot")
      case True
      show ?thesis
      proof (cases ps rule: rev_exhaust)
        case Nil
        then have out: "out = replicate n dotdot" using o(1) by (metis append_Nil2 rev_replicate rev_rev_ident)
        show ?thesis
        proof (cases n)
          case 0
          then show ?thesis using out True F by (auto simp: cleanStep_def clean_list_def intro: exI [of _ 1] exI [of _ 0])
        next
          case (Suc m)
          then have "rev (cleanStep rooted out c) = replicate (Suc n) dotdot @ []"
            using out True F by (simp add: cleanStep_def replicate_app_Cons_same)
          then show ?thesis unfolding clean_list_def by (metis empty_iff list.set(1))
        qed
      next
        case (snoc qs q)
        then have out: "out = q # rev qs @ replicate n dotdot"
          using o(1) by (metis append_assoc rev_append rev_replicate rev_rev_ident rev_eq_Cons_iff append_Cons append_Nil rev.simps(2) rev_swap)
        have "q \<noteq> dotdot" using snoc o(2) by (auto simp: proper_name_def)
        then have "rev (cleanStep rooted out c) = replicate n dotdot @ qs"
          using out True F by (simp add: cleanStep_def)
        then show ?thesis unfolding clean_list_def using snoc o(2) by (metis butlast_snoc in_set_butlastD)
      qed
    next
      case False
      then have "rev (cleanStep rooted out c) = replicate n dotdot @ (ps @ [c])"
        using F o(1) by (simp add: cleanStep_def)
      moreover have "\<forall>p\<in>set (ps @ [c]). proper_name p" using F False o(2) assms(2) by (auto simp: proper_name_def)
      ultimately show ?thesis unfolding clean_list_def by blast
    qed
  qed
qed

lemma cleanParts_clean: "(\<And>c. c \<in> set cs \<Longrightarrow> slash \<notin> set c) \<Longrightarrow> clean_list (cleanParts rooted cs)"
proof -
  assume a: "\<And>c. c \<in> set cs \<Longrightarrow> slash \<notin> set c"
  have "clean_list (rev out) \<Longrightarrow> clean_list (rev (foldl (cleanStep rooted) out cs))" for out
    using a by (induction cs arbitrary: out) (auto simp: cleanStep_clean)
  moreover have "clean_list (rev [])" by (auto simp: clean_list_def)
  ultimately show ?thesis by (simp add: cleanParts_def)
qed

lemma clean_list_no_slash: "clean_list cs \<Longrightarrow> c \<in> set cs \<Longrightarrow> slash \<notin> set c"
proof -
  assume "clean_list cs" and c: "c \<in> set cs"
  then obtain n ps where cs: "cs = replicate n dotdot @ ps" and ps: "\<forall>p\<in>set ps. proper_name p"
    unfolding clean_list_def by blast
  have "c = dotdot \<or> c \<in> set ps" using c unfolding cs by (auto simp: in_set_replicate)
  then show ?thesis
  proof
    assume "c \<in> set ps"
    then show ?thesis using ps by (simp add: proper_name_def)
  qed simp
qed

text \<open>A relative path that \<open>Clean\<close> leaves alone is \<open>.\<close> or the join of a clean list.\<close>

lemma Clean_fixed:
  assumes "Clean p = p" and "\<not> isRooted p"
  shows "p = dot \<or> (split_on slash p = cleanParts False (split_on slash p) \<and> clean_list (split_on slash p))"
proof (cases "p = dot")
  case False
  let ?cs = "cleanParts False (split_on slash p)"
  have cl: "clean_list ?cs" by (rule cleanParts_clean) (rule split_on_no_sep)
  have ne: "p \<noteq> []" using assms(1) by (auto simp: Clean_def)
  have j: "join_with slash ?cs = p"
    using assms ne False by (auto simp: Clean_def Let_def split: if_splits)
  have "?cs \<noteq> []" using j ne by auto
  moreover have "slash \<notin> set c" if "c \<in> set ?cs" for c
    using clean_list_no_slash [OF cl that] .
  ultimately have "split_on slash (join_with slash ?cs) = ?cs" by (rule split_on_join_with)
  then have "split_on slash p = ?cs" unfolding j .
  then show ?thesis using cl by simp
qed simp

text \<open>
  What a canonical, relative name that does not start with \<open>..\<close> looks like: all its components
  are proper names, so that it names something strictly below the directory it is relative to.
\<close>

lemma Clean_fixed_inside:
  assumes "Clean p = p" and "\<not> isRooted p" and "p \<noteq> dot" and "p \<noteq> dotdot" and "\<not> prefix (dotdot @ [slash]) p"
  shows "\<forall>c\<in>set (split_on slash p). proper_name c"
proof -
  obtain n ps where sp: "split_on slash p = replicate n dotdot @ ps" "\<forall>c\<in>set ps. proper_name c"
    using Clean_fixed [OF assms(1,2)] assms(3) by (auto simp: clean_list_def)
  have p: "p = join_with slash (replicate n dotdot @ ps)" using join_split_on [of slash p] sp(1) by simp
  have "n = 0"
  proof (rule ccontr)
    assume "n \<noteq> 0"
    then obtain m where m: "n = Suc m" by (cases n) auto
    show False
    proof (cases "replicate m dotdot @ ps")
      case Nil
      then show False using p m assms(4) by simp
    next
      case (Cons q qs)
      then have "p = dotdot @ [slash] @ join_with slash (q # qs)" using p m by simp
      then show False using assms(5) by (metis append.assoc prefixI)
    qed
  qed
  then show ?thesis using sp by simp
qed

end
