(* ===== verification/Transition.thy ===== *)
theory Transition
  imports Main
begin

text \<open>
  Contracts of transition systems, which the state machines of the development implement: an
  inductive invariant, and a measure that every step decreases. Reachability is the reflexive
  transitive closure of the step relation.
\<close>

locale invariant_system =
  fixes step :: "'s \<Rightarrow> 's \<Rightarrow> bool" and start :: "'s \<Rightarrow> bool" and inv :: "'s \<Rightarrow> bool"
  assumes start_inv: "start s \<Longrightarrow> inv s"
    and step_inv: "step s t \<Longrightarrow> inv s \<Longrightarrow> inv t"
begin

lemma steps_inv: "step\<^sup>*\<^sup>* s t \<Longrightarrow> inv s \<Longrightarrow> inv t"
  by (induction rule: rtranclp_induct) (blast intro: step_inv)+

lemma reachable_inv: "start s \<Longrightarrow> step\<^sup>*\<^sup>* s t \<Longrightarrow> inv t"
  using start_inv steps_inv by blast

end

locale decreasing_system =
  fixes step :: "'s \<Rightarrow> 's \<Rightarrow> bool" and meas :: "'s \<Rightarrow> nat"
  assumes step_less: "step s t \<Longrightarrow> meas t < meas s"
begin

lemma run_length: "(step ^^ n) s t \<Longrightarrow> n + meas t \<le> meas s"
proof (induction n arbitrary: t)
  case (Suc n)
  then obtain u where "(step ^^ n) s u" "step u t" by auto
  then show ?case using Suc.IH [of u] step_less [of u t] by simp
qed simp

text \<open>Every run can be completed, and no run goes on for ever.\<close>

lemma completes: "\<exists>t. step\<^sup>*\<^sup>* s t \<and> (\<forall>u. \<not> step t u)"
proof (induction "meas s" arbitrary: s rule: less_induct)
  case less
  show ?case
  proof (cases "\<exists>u. step s u")
    case True
    then obtain u where u: "step s u" by blast
    then obtain t where "step\<^sup>*\<^sup>* u t" "\<forall>v. \<not> step t v" using less [OF step_less [OF u]] by blast
    then show ?thesis using u by (meson converse_rtranclp_into_rtranclp)
  qed blast
qed

lemma no_infinite_run: "\<not> (\<forall>i. step (f i) (f (Suc i)))"
proof
  assume a: "\<forall>i. step (f i) (f (Suc i))"
  have "meas (f i) + i \<le> meas (f 0)" for i
  proof (induction i)
    case (Suc i)
    then show ?case using step_less [of "f i" "f (Suc i)"] a by simp
  qed simp
  from this [of "Suc (meas (f 0))"] show False by simp
qed

end

end
