(* ===== verification/Puller_State.thy ===== *)
theory Puller_State
  imports File_Info Go_Path Block_Reorder "HOL-Library.Multiset"
begin

unbundle bit_operations_syntax

text \<open>
  The state shared by the routines that fetch one file, \<open>lib/model/sharedpullerstate.go\<close>,
  with \<open>inWritableDir\<close> of \<open>lib/model/util.go\<close>, and the preparation of the block list in
  \<open>lib/model/folder_sendrecv.go\<close>.

  Every call of the file system is recorded in the log \<open>fsLog\<close>, and what it returns is an
  argument of the model (\<open>pull_env\<close>), a function of the calls made before it. The methods of
  the state run under its mutex, so each is one atomic step; \<open>time.Now()\<close> is an argument.
\<close>

section \<open>The file system as seen by the puller\<close>

datatype perr =
    FsError string
  | NotADirectory string
  | SettingPerms perr
  | OpeningTemp perr
  | AfterParent perr
  | FolderStopped
  | NoDevice
  | PullFailed perr
  | SaveFailed perr
  | DstWrite perr
  | LengthMismatch int int
  | HashMismatch

datatype fs_call =
    FsStat string
  | FsChmod string u32
  | FsOpen string bool u32
  | FsHide string
  | FsUnhide string
  | FsRemove string
  | FdTruncate int
  | FdWriteAt "byte list" int
  | FdCopyRange string int int int
  | FdSync
  | FdClose

record pull_env =
  fsErr :: "fs_call list \<Rightarrow> fs_call \<Rightarrow> perr option"
  statMode :: "fs_call list \<Rightarrow> string \<Rightarrow> bool \<times> u32"
  isPermission :: "perr \<Rightarrow> bool"
  marshalFile :: "bep_FileInfo \<Rightarrow> byte list"
  normalName :: "string \<Rightarrow> string"

section \<open>The shared state\<close>

record sharedPullerState =
  sFile :: FileInfo
  sFolder :: string
  tempName :: string
  realName :: string
  reused :: nat
  ignorePerms :: bool
  hasCurFile :: bool
  curFile :: FileInfo
  curFileBlocks :: "byte list \<Rightarrow> nat option"
  sparse :: bool
  created :: go_time
  fsync :: bool
  sErr :: "perr option"
  writer :: bool
  copyTotal :: int
  pullTotal :: int
  copyOrigin :: int
  copyNeeded :: int
  pullNeeded :: int
  updated :: go_time
  closed :: bool
  available :: "int list"
  availableUpdated :: go_time
  fsLog :: "fs_call list"

text \<open>Block hashes of the current file to block indexes; of equal hashes the last one counts.\<close>

fun blocksMapFrom :: "nat \<Rightarrow> BlockInfo list \<Rightarrow> (byte list \<Rightarrow> nat option) \<Rightarrow> (byte list \<Rightarrow> nat option)" where
  "blocksMapFrom i [] m = m"
| "blocksMapFrom i (b # bs) m = blocksMapFrom (Suc i) bs (m(bHash b := Some i))"

definition newSharedPullerState ::
  "go_time \<Rightarrow> FileInfo \<Rightarrow> string \<Rightarrow> string \<Rightarrow> BlockInfo list \<Rightarrow> nat list \<Rightarrow> bool \<Rightarrow> bool \<Rightarrow> FileInfo \<Rightarrow> bool \<Rightarrow> bool
     \<Rightarrow> fs_call list \<Rightarrow> sharedPullerState" where
  "newSharedPullerState now file folderID temp bs reusedIdx ignPerms hasCur cur spars fsyn log =
     \<lparr>sFile = file, sFolder = folderID, tempName = temp, realName = fName file, reused = length reusedIdx,
      ignorePerms = ignPerms, hasCurFile = hasCur, curFile = cur,
      curFileBlocks = blocksMapFrom 0 (fBlocks cur) (\<lambda>_. None), sparse = spars, created = now, fsync = fsyn,
      sErr = None, writer = False, copyTotal = int (length bs), pullTotal = 0, copyOrigin = 0,
      copyNeeded = int (length bs), pullNeeded = 0, updated = now, closed = False,
      available = map int reusedIdx, availableUpdated = now, fsLog = log\<rparr>"

section \<open>The temporary file\<close>

text \<open>One call: its outcome, and the call appended to the log.\<close>

definition fsCall :: "pull_env \<Rightarrow> fs_call \<Rightarrow> sharedPullerState \<Rightarrow> perr option \<times> sharedPullerState" where
  "fsCall env c s = (fsErr env (fsLog s) c, s\<lparr>fsLog := fsLog s @ [c]\<rparr>)"

definition encryptionTrailerSize :: "pull_env \<Rightarrow> FileInfo \<Rightarrow> (unit, int) result" where
  "encryptionTrailerSize env f = bind_result (FileInfo_ToWire False f) (\<lambda>w. Ok (int (length (marshalFile env w)) + 4))"

text \<open>
  Opening (and, for a sparse file, sizing) the temporary file. A failed truncation is an error
  only when an old temporary file is being reused, which is then removed.
\<close>

definition truncateTemp :: "pull_env \<Rightarrow> sharedPullerState \<Rightarrow> (unit, perr option \<times> sharedPullerState) result" where
  "truncateTemp env s =
     (if sparse s \<and> \<not> IsSymlink (sFile s) then
        bind_result (if fEncrypted (sFile s) \<noteq> [] then
                       bind_result (encryptionTrailerSize env (sFile s)) (\<lambda>t. Ok (fSize (sFile s) + t))
                     else Ok (fSize (sFile s)))
        (\<lambda>sz.
          let (e, s1) = fsCall env (FdTruncate sz) s in
          if e \<noteq> None \<and> reused s > 0 then
            let (_, s2) = fsCall env FdClose s1; (_, s3) = fsCall env (FsRemove (tempName s)) s2
            in Ok (e, s3)
          else Ok (None, s1))
      else Ok (None, s))"

definition tempFileInWritableDir :: "pull_env \<Rightarrow> sharedPullerState \<Rightarrow> (unit, perr option \<times> sharedPullerState) result" where
  "tempFileInWritableDir env s =
     (let mode = (if ignorePerms s then 438 else fPermissions (sFile s) OR 384);
          (ce, s1) = (if reused s \<noteq> 0 \<and> \<not> ignorePerms s then fsCall env (FsChmod (tempName s) mode) s else (None, s))
      in case ce of
           Some e \<Rightarrow> Ok (Some (SettingPerms e), s1)
         | None \<Rightarrow>
             (let (oe, s2) = fsCall env (FsOpen (tempName s) (reused s = 0) mode) s1
              in case oe of
                   Some e \<Rightarrow> Ok (Some (OpeningTemp e), s2)
                 | None \<Rightarrow>
                     (let (_, s3) = fsCall env (FsHide (tempName s)) s2 in
                      bind_result (truncateTemp env s3) (\<lambda>(te, s4).
                        case te of
                          Some e \<Rightarrow> Ok (Some e, s4)
                        | None \<Rightarrow> Ok (None, s4\<lparr>writer := True\<rparr>)))))"

definition permBits :: u32 where
  "permBits = 511 OR push_bit 23 1 OR push_bit 22 1 OR push_bit 20 1"

text \<open>
  \<open>inWritableDir\<close>: a directory without write permission is made writable for the duration of
  the call. An error of the call that is about permissions is reported differently when that
  had failed.
\<close>

definition inWritableDir ::
  "pull_env \<Rightarrow> (sharedPullerState \<Rightarrow> (unit, perr option \<times> sharedPullerState) result) \<Rightarrow> string
     \<Rightarrow> sharedPullerState \<Rightarrow> (unit, perr option \<times> sharedPullerState) result" where
  "inWritableDir env fn path s =
     (let dir = path_Dir path;
          (se, s1) = fsCall env (FsStat dir) s;
          (isDir, md) = statMode env (fsLog s) dir;
          mode = md AND permBits
      in case se of
           Some e \<Rightarrow> Ok (Some e, s1)
         | None \<Rightarrow>
             if \<not> isDir then Ok (Some (NotADirectory path), s1)
             else if mode AND 128 = 0 then
               (let (pe, s2) = fsCall env (FsChmod dir (mode OR 448)) s1 in
                bind_result (fn s2) (\<lambda>(fe, s3).
                  case pe of
                    Some p \<Rightarrow> Ok (case fe of Some e \<Rightarrow> if isPermission env e then Some (AfterParent e) else Some e
                                           | None \<Rightarrow> None, s3)
                  | None \<Rightarrow> (let (_, s4) = fsCall env (FsChmod dir mode) s3 in Ok (fe, s4))))
             else fn s1)"

definition addWriterLocked :: "pull_env \<Rightarrow> sharedPullerState \<Rightarrow> (unit, perr option \<times> sharedPullerState) result" where
  "addWriterLocked env s = inWritableDir env (tempFileInWritableDir env) (tempName s) s"

definition failLocked :: "perr \<Rightarrow> sharedPullerState \<Rightarrow> sharedPullerState" where
  "failLocked e s = (if sErr s \<noteq> None then s else s\<lparr>sErr := Some e\<rparr>)"

definition fail :: "perr \<Rightarrow> sharedPullerState \<Rightarrow> sharedPullerState" where
  "fail e s = failLocked e s"

definition failed :: "sharedPullerState \<Rightarrow> perr option" where
  "failed s = sErr s"

definition tempFile :: "pull_env \<Rightarrow> sharedPullerState \<Rightarrow> (unit, perr option \<times> sharedPullerState) result" where
  "tempFile env s =
     (case sErr s of
        Some e \<Rightarrow> Ok (Some e, s)
      | None \<Rightarrow>
          if writer s then Ok (None, s)
          else bind_result (addWriterLocked env s) (\<lambda>(e, s1).
                 case e of Some x \<Rightarrow> Ok (Some x, failLocked x s1) | None \<Rightarrow> Ok (None, s1)))"

section \<open>Counters\<close>

definition blockIndex :: "sharedPullerState \<Rightarrow> BlockInfo \<Rightarrow> int" where
  "blockIndex s b = go_div (bOffset b) (FileInfo_BlockSize (sFile s))"

definition copyDone :: "go_time \<Rightarrow> BlockInfo \<Rightarrow> sharedPullerState \<Rightarrow> sharedPullerState" where
  "copyDone now b s =
     s\<lparr>copyNeeded := copyNeeded s - 1, updated := now, available := available s @ [blockIndex s b],
       availableUpdated := now\<rparr>"

definition copiedFromOrigin :: "go_time \<Rightarrow> sharedPullerState \<Rightarrow> sharedPullerState" where
  "copiedFromOrigin now s = s\<lparr>copyOrigin := copyOrigin s + 1, updated := now\<rparr>"

definition copiedFromElsewhere :: "sharedPullerState \<Rightarrow> sharedPullerState" where
  "copiedFromElsewhere s = s"

definition skippedSparseBlock :: "go_time \<Rightarrow> sharedPullerState \<Rightarrow> sharedPullerState" where
  "skippedSparseBlock now s = s\<lparr>copyOrigin := copyOrigin s + 1, updated := now\<rparr>"

definition pullStarted :: "go_time \<Rightarrow> sharedPullerState \<Rightarrow> sharedPullerState" where
  "pullStarted now s =
     s\<lparr>copyTotal := copyTotal s - 1, copyNeeded := copyNeeded s - 1, pullTotal := pullTotal s + 1,
       pullNeeded := pullNeeded s + 1, updated := now\<rparr>"

definition pullDone :: "go_time \<Rightarrow> BlockInfo \<Rightarrow> sharedPullerState \<Rightarrow> sharedPullerState" where
  "pullDone now b s =
     s\<lparr>pullNeeded := pullNeeded s - 1, updated := now, available := available s @ [blockIndex s b],
       availableUpdated := now\<rparr>"

section \<open>Closing\<close>

text \<open>
  The trailer of an encrypted file: its file info in wire form, with the slash-separated name,
  followed by the length of that in four bytes.
\<close>

definition writeEncryptionTrailer ::
  "pull_env \<Rightarrow> FileInfo \<Rightarrow> sharedPullerState \<Rightarrow> (unit, (perr, int) result \<times> sharedPullerState) result" where
  "writeEncryptionTrailer env file s =
     (let wireFile = file\<lparr>fName := normalName env (fName file)\<rparr> in
      bind_result (encryptionTrailerSize env wireFile) (\<lambda>trailerSize.
      bind_result (FileInfo_ToWire False wireFile) (\<lambda>w.
        let m = marshalFile env w;
            bs = m @ be_encode 4 (length m mod 2 ^ 32);
            (e, s1) = fsCall env (FdWriteAt bs (fSize wireFile)) s
        in Ok (case e of Some x \<Rightarrow> Err x | None \<Rightarrow> Ok trailerSize, s1))))"

definition finalizeEncrypted :: "pull_env \<Rightarrow> sharedPullerState \<Rightarrow> (unit, perr option \<times> sharedPullerState) result" where
  "finalizeEncrypted env s =
     bind_result (writeEncryptionTrailer env (sFile s) s) (\<lambda>(r, s1).
       case r of
         Ok t \<Rightarrow> Ok (None, s1\<lparr>sFile := (sFile s1)\<lparr>fSize := fSize (sFile s1) + t, fEncryptionTrailerSize := t\<rparr>\<rparr>)
       | Err e \<Rightarrow> Ok (Some e, s1)
       | Panic \<Rightarrow> Panic)"

definition setErr :: "perr option \<Rightarrow> sharedPullerState \<Rightarrow> sharedPullerState" where
  "setErr e s = (if e \<noteq> None \<and> sErr s = None then s\<lparr>sErr := e\<rparr> else s)"

definition syncClose :: "pull_env \<Rightarrow> sharedPullerState \<Rightarrow> perr option \<times> sharedPullerState" where
  "syncClose env s =
     (let s1 = (if fsync s then snd (fsCall env FdSync s) else s)
      in fsCall env FdClose s1)"

text \<open>
  \<open>finalClose\<close>: \<open>True\<close> with the final error when the file is closed by this call, \<open>False\<close> when it
  is not ready, closed already, or its temporary file could not be created.
\<close>

definition finalClose ::
  "pull_env \<Rightarrow> sharedPullerState \<Rightarrow> (unit, bool \<times> perr option \<times> sharedPullerState) result" where
  "finalClose env s =
     (if closed s then Ok (False, None, s)
      else if pullNeeded s + copyNeeded s \<noteq> 0 \<and> sErr s = None then Ok (False, None, s)
      else bind_result (if writer s then Ok (None, s) else addWriterLocked env s) (\<lambda>(we, s1).
        case we of
          Some e \<Rightarrow> Ok (False, Some e, s1)
        | None \<Rightarrow>
            bind_result (if fEncrypted (sFile s1) \<noteq> [] then
                           bind_result (finalizeEncrypted env s1) (\<lambda>(e, s2). Ok (setErr e s2))
                         else Ok s1) (\<lambda>s2.
              let (ce, s3) = (if writer s2 then syncClose env s2 else (None, s2));
                  s4 = (setErr ce s3)\<lparr>writer := False, closed := True\<rparr>;
                  (_, s5) = fsCall env (FsUnhide (tempName s4)) s4
              in Ok (True, sErr s5, s5))))"

section \<open>Progress\<close>

definition blocksToSize :: "int \<Rightarrow> int \<Rightarrow> int \<Rightarrow> int \<Rightarrow> int" where
  "blocksToSize bs blocksInFile blockSize fileSize =
     (if blocksInFile = 0 then 0
      else bs * blockSize - go_div ((blockSize - go_mod fileSize blockSize) * bs) blocksInFile)"

record PullerProgress =
  pTotal :: int
  pReused :: int
  pCopiedFromOrigin :: int
  pCopiedFromElsewhere :: int
  pPulled :: int
  pPulling :: int
  pBytesDone :: int
  pBytesTotal :: int

definition Progress :: "sharedPullerState \<Rightarrow> PullerProgress" where
  "Progress s =
     (let tot = int (reused s) + copyTotal s + pullTotal s;
          dn = tot - copyNeeded s - pullNeeded s;
          n = int (length (fBlocks (sFile s)))
      in \<lparr>pTotal = tot, pReused = int (reused s), pCopiedFromOrigin = copyOrigin s,
          pCopiedFromElsewhere = copyTotal s - copyNeeded s - copyOrigin s,
          pPulled = pullTotal s - pullNeeded s, pPulling = pullNeeded s,
          pBytesDone = blocksToSize dn n (FileInfo_BlockSize (sFile s)) (fSize (sFile s)),
          pBytesTotal = blocksToSize tot n (FileInfo_BlockSize (sFile s)) (fSize (sFile s))\<rparr>)"

definition Updated :: "sharedPullerState \<Rightarrow> go_time" where
  "Updated s = updated s"

definition AvailableUpdated :: "sharedPullerState \<Rightarrow> go_time" where
  "AvailableUpdated s = availableUpdated s"

definition Available :: "sharedPullerState \<Rightarrow> int list" where
  "Available s = available s"

end
