(* ===== verification/Pull_Blocks.thy ===== *)
theory Pull_Blocks
  imports Puller_State
begin

text \<open>
  How the blocks of one file are obtained, \<open>lib/model/folder_sendrecv.go\<close>: which blocks of an
  old temporary file can be reused, copying a block from local files, and requesting it from
  the least busy device that has it (\<open>lib/model/deviceactivity.go\<close>).
\<close>

section \<open>Planning\<close>

text \<open>\<open>blockDiff\<close>: the blocks of the target found, and those not found, at the same index of the source.\<close>

fun blockDiffLoop :: "BlockInfo list \<Rightarrow> BlockInfo list \<Rightarrow> BlockInfo list \<times> BlockInfo list" where
  "blockDiffLoop src [] = ([], [])"
| "blockDiffLoop [] (t # ts) = ([], t # ts)"
| "blockDiffLoop (b # src) (t # ts) =
     (let (hv, need) = blockDiffLoop src ts in
      if bHash t \<noteq> bHash b then (hv, t # need) else (t # hv, need))"

definition blockDiff :: "BlockInfo list \<Rightarrow> BlockInfo list \<Rightarrow> BlockInfo list \<times> BlockInfo list" where
  "blockDiff src tgt =
     (if tgt = [] then ([], []) else if src = [] then ([], tgt) else blockDiffLoop src tgt)"

fun populateFrom :: "int \<Rightarrow> BlockInfo list \<Rightarrow> BlockInfo list" where
  "populateFrom off [] = []"
| "populateFrom off (b # bs) = b\<lparr>bOffset := off\<rparr> # populateFrom (to_i64 (off + bSize b)) bs"

definition populateOffsets :: "BlockInfo list \<Rightarrow> BlockInfo list" where
  "populateOffsets bs = populateFrom 0 bs"

text \<open>
  \<open>reuseBlocks\<close>: with the hashes of the old temporary file (\<open>None\<close> when it cannot be read), the
  blocks still to get and the indexes of those already there. Blocks are looked up by their
  text, which is unique to the block.
\<close>

definition reuseBlocks :: "BlockInfo list option \<Rightarrow> BlockInfo list \<Rightarrow> BlockInfo list \<times> nat list" where
  "reuseBlocks tempBlocks fileBlocks =
     (case tempBlocks of
        None \<Rightarrow> (fileBlocks, [])
      | Some tb \<Rightarrow>
          (let existing = fst (blockDiff tb fileBlocks) in
           (filter (\<lambda>b. b \<notin> set existing) fileBlocks,
            filter (\<lambda>i. fileBlocks ! i \<in> set existing) [0..<length fileBlocks])))"

section \<open>Verification of data\<close>

definition verifyBuffer :: "(byte list \<Rightarrow> byte list) \<Rightarrow> byte list \<Rightarrow> BlockInfo \<Rightarrow> perr option" where
  "verifyBuffer sha256 buf b =
     (if int (length buf) \<noteq> bSize b then Some (LengthMismatch (int (length buf)) (bSize b))
      else if sha256 buf \<noteq> bHash b then Some HashMismatch
      else None)"

section \<open>Copying a block from local files\<close>

record copy_cfg =
  folderID :: string
  receiveEncrypted :: bool
  blockIndexing :: bool
  standardCopy :: bool
  disableSparse :: bool
  otherFolders :: "string list"

record copy_src =
  readAt :: "string \<Rightarrow> string \<Rightarrow> int \<Rightarrow> int \<Rightarrow> perr + byte list"
  localBlocks :: "string \<Rightarrow> byte list \<Rightarrow> (perr + string \<times> int) list"
  limiter :: "fs_call list \<Rightarrow> perr option"
  blockSha :: "byte list \<Rightarrow> byte list"

text \<open>\<open>withLimiter\<close> around one call of the file system.\<close>

definition withLimiter :: "pull_env \<Rightarrow> copy_src \<Rightarrow> fs_call \<Rightarrow> sharedPullerState \<Rightarrow> perr option \<times> sharedPullerState" where
  "withLimiter env src c s =
     (case limiter src (fsLog s) of Some e \<Rightarrow> (Some e, s) | None \<Rightarrow> fsCall env c s)"

definition limitedWriteAt ::
  "pull_env \<Rightarrow> copy_src \<Rightarrow> byte list \<Rightarrow> int \<Rightarrow> sharedPullerState \<Rightarrow> perr option \<times> sharedPullerState" where
  "limitedWriteAt env src data off s = withLimiter env src (FdWriteAt data off) s"

definition copyBlockFromFile ::
  "pull_env \<Rightarrow> copy_cfg \<Rightarrow> copy_src \<Rightarrow> string \<Rightarrow> string \<Rightarrow> int \<Rightarrow> BlockInfo \<Rightarrow> sharedPullerState
     \<Rightarrow> (unit, bool \<times> sharedPullerState) result" where
  "copyBlockFromFile env cfg src folder srcName srcOffset b s =
     (case readAt src folder srcName srcOffset (bSize b) of
        Inl e \<Rightarrow> Ok (False, s)
      | Inr buf \<Rightarrow>
          if \<not> receiveEncrypted cfg \<and> verifyBuffer (blockSha src) buf b \<noteq> None then Ok (False, s)
          else bind_result (tempFile env s) (\<lambda>(te, s1).
            case te of
              Some e \<Rightarrow> Ok (False, s1)
            | None \<Rightarrow>
                (let (we, s2) =
                   (if \<not> standardCopy cfg then
                      withLimiter env src (FdCopyRange srcName srcOffset (bOffset b) (bSize b)) s1
                    else limitedWriteAt env src buf (bOffset b) s1)
                 in case we of
                      Some e \<Rightarrow> Ok (False, fail (DstWrite e) s2)
                    | None \<Rightarrow> Ok (True, s2))))"

fun copyFromEntries ::
  "pull_env \<Rightarrow> copy_cfg \<Rightarrow> copy_src \<Rightarrow> go_time \<Rightarrow> string \<Rightarrow> BlockInfo \<Rightarrow> (perr + string \<times> int) list
     \<Rightarrow> sharedPullerState \<Rightarrow> (unit, bool \<times> sharedPullerState) result" where
  "copyFromEntries env cfg src now folder b [] s = Ok (False, s)"
| "copyFromEntries env cfg src now folder b (Inl e # es) s = Ok (False, s)"
| "copyFromEntries env cfg src now folder b (Inr (name, off) # es) s =
     bind_result (copyBlockFromFile env cfg src folder name off b s) (\<lambda>(ok, s1).
       if \<not> ok then (if failed s1 \<noteq> None then Ok (False, s1) else copyFromEntries env cfg src now folder b es s1)
       else if name = fName (sFile s1) then Ok (True, copiedFromOrigin now s1)
       else Ok (True, copiedFromElsewhere s1))"

definition copyBlockFromFolder ::
  "pull_env \<Rightarrow> copy_cfg \<Rightarrow> copy_src \<Rightarrow> go_time \<Rightarrow> string \<Rightarrow> BlockInfo \<Rightarrow> sharedPullerState
     \<Rightarrow> (unit, bool \<times> sharedPullerState) result" where
  "copyBlockFromFolder env cfg src now folder b s =
     copyFromEntries env cfg src now folder b (localBlocks src folder (bHash b)) s"

fun copyFromFolders ::
  "pull_env \<Rightarrow> copy_cfg \<Rightarrow> copy_src \<Rightarrow> go_time \<Rightarrow> string list \<Rightarrow> BlockInfo \<Rightarrow> sharedPullerState
     \<Rightarrow> (unit, bool \<times> sharedPullerState) result" where
  "copyFromFolders env cfg src now [] b s = Ok (False, s)"
| "copyFromFolders env cfg src now (f # fs) b s =
     bind_result (copyBlockFromFolder env cfg src now f b s) (\<lambda>(ok, s1).
       if ok then Ok (True, s1)
       else if failed s1 \<noteq> None then Ok (False, s1)
       else copyFromFolders env cfg src now fs b s1)"

text \<open>The current version of the file first, then this folder, then the other folders.\<close>

definition copyBlock ::
  "pull_env \<Rightarrow> copy_cfg \<Rightarrow> copy_src \<Rightarrow> go_time \<Rightarrow> BlockInfo \<Rightarrow> sharedPullerState
     \<Rightarrow> (unit, bool \<times> sharedPullerState) result" where
  "copyBlock env cfg src now b s =
     bind_result
       (case curFileBlocks s (bHash b) of
          None \<Rightarrow> Ok (False, s)
        | Some idx \<Rightarrow>
            if idx < length (fBlocks (curFile s)) then
              bind_result
                (copyBlockFromFile env cfg src (folderID cfg) (fName (curFile s)) (bOffset (fBlocks (curFile s) ! idx)) b s)
                (\<lambda>(ok, s1). Ok (ok, if ok then copiedFromOrigin now s1 else s1))
            else Panic)
       (\<lambda>(ok, s1).
          if ok then Ok (True, s1)
          else if failed s1 \<noteq> None then Ok (False, s1)
          else copyFromFolders env cfg src now
                 ((if blockIndexing cfg then [folderID cfg] else []) @ otherFolders cfg) b s1)"

section \<open>Choosing a device\<close>

record Availability =
  aID :: DeviceID
  fromTemporary :: bool

type_synonym deviceActivity = "DeviceID \<Rightarrow> int"

definition newDeviceActivity :: deviceActivity where
  "newDeviceActivity = (\<lambda>_. 0)"

fun leastBusyFrom :: "deviceActivity \<Rightarrow> nat \<Rightarrow> int \<Rightarrow> int \<Rightarrow> Availability list \<Rightarrow> int" where
  "leastBusyFrom act i low best [] = best"
| "leastBusyFrom act i low best (a # as) =
     (if act (aID a) < low then leastBusyFrom act (Suc i) (act (aID a)) (int i) as
      else leastBusyFrom act (Suc i) low best as)"

definition leastBusy :: "deviceActivity \<Rightarrow> Availability list \<Rightarrow> int" where
  "leastBusy act as = leastBusyFrom act 0 (2 ^ 31 - 1) (- 1) as"

definition actUsing :: "Availability \<Rightarrow> deviceActivity \<Rightarrow> deviceActivity" where
  "actUsing a act = act(aID a := act (aID a) + 1)"

definition actDone :: "Availability \<Rightarrow> deviceActivity \<Rightarrow> deviceActivity" where
  "actDone a act = act(aID a := act (aID a) - 1)"

text \<open>Each iteration removes the chosen candidate: the last one takes its place.\<close>

definition dropCandidate :: "nat \<Rightarrow> Availability list \<Rightarrow> Availability list" where
  "dropCandidate i cs = butlast (cs[i := last cs])"

lemma leastBusyFrom_range:
  "leastBusyFrom act i low best as = best \<or>
     (int i \<le> leastBusyFrom act i low best as \<and> leastBusyFrom act i low best as < int (i + length as))"
proof (induction as arbitrary: i low best)
  case (Cons a as)
  show ?case
    using Cons [of "Suc i" "act (aID a)" "int i"] Cons [of "Suc i" low best] by auto
qed simp

lemma leastBusy_range: "leastBusy act as = - 1 \<or> (0 \<le> leastBusy act as \<and> leastBusy act as < int (length as))"
  using leastBusyFrom_range [of act 0 "2 ^ 31 - 1" "- 1" as] by (simp add: leastBusy_def)

lemma dropCandidate_less: "leastBusy act cs \<noteq> - 1 \<Longrightarrow> length (dropCandidate i cs) < length cs"
proof -
  assume "leastBusy act cs \<noteq> - 1"
  then have "cs \<noteq> []" using leastBusy_range [of act cs] by auto
  then show ?thesis by (simp add: dropCandidate_def)
qed

section \<open>Requesting a block\<close>

text \<open>
  What the model answers: \<open>ctxDone n\<close> says whether the folder is being stopped when \<open>n\<close>
  candidates are left, \<open>request\<close> what a device returns for the block, \<open>actAfter\<close> the activity of
  the other requests in between.
\<close>

record pull_src =
  ctxDone :: "nat \<Rightarrow> bool"
  request :: "Availability \<Rightarrow> BlockInfo \<Rightarrow> perr + byte list"
  actAfter :: "nat \<Rightarrow> deviceActivity \<Rightarrow> deviceActivity"

function pullLoop ::
  "pull_env \<Rightarrow> copy_cfg \<Rightarrow> copy_src \<Rightarrow> pull_src \<Rightarrow> go_time \<Rightarrow> BlockInfo \<Rightarrow> perr option \<Rightarrow> Availability list
     \<Rightarrow> deviceActivity \<Rightarrow> sharedPullerState \<Rightarrow> deviceActivity \<times> sharedPullerState" where
  "pullLoop env cfg src ps now b lastError candidates act s =
     (if ctxDone ps (length candidates) then (act, fail FolderStopped s)
      else if leastBusy act candidates = - 1 then
        (act, fail (PullFailed (case lastError of Some e \<Rightarrow> e | None \<Rightarrow> NoDevice)) s)
      else
        (let found = nat (leastBusy act candidates);
             selected = candidates ! found;
             rest = dropCandidate found candidates;
             act' = actDone selected (actAfter ps (length candidates) (actUsing selected act))
         in case request ps selected b of
              Inl e \<Rightarrow> pullLoop env cfg src ps now b (Some e) rest act' s
            | Inr buf \<Rightarrow>
                (case (if \<not> receiveEncrypted cfg then verifyBuffer (blockSha src) buf b else None) of
                   Some e \<Rightarrow> pullLoop env cfg src ps now b (Some e) rest act' s
                 | None \<Rightarrow>
                     (let (we, s1) = limitedWriteAt env src buf (bOffset b) s
                      in (act', case we of Some e \<Rightarrow> fail (SaveFailed e) s1 | None \<Rightarrow> pullDone now b s1)))))"
  by pat_completeness auto
termination
proof (relation "measure (\<lambda>(env, cfg, src, ps, now, b, le, cs, act, s). length cs)")
qed (auto simp: dropCandidate_less)

definition pullBlock ::
  "pull_env \<Rightarrow> copy_cfg \<Rightarrow> copy_src \<Rightarrow> pull_src \<Rightarrow> go_time \<Rightarrow> Availability list \<Rightarrow> BlockInfo \<Rightarrow> deviceActivity
     \<Rightarrow> sharedPullerState \<Rightarrow> (unit, deviceActivity \<times> sharedPullerState) result" where
  "pullBlock env cfg src ps now candidates b act s =
     bind_result (tempFile env s) (\<lambda>(te, s1).
       if te \<noteq> None then Ok (act, s1)
       else if \<not> disableSparse cfg \<and> reused s1 = 0 \<and> BlockInfo_IsEmpty b then Ok (act, pullDone now b s1)
       else Ok (pullLoop env cfg src ps now b None candidates act s1))"


section \<open>What the sources do to the shared state\<close>

text \<open>
  Copying and requesting touch the shared state only through its methods: the temporary file is
  opened, the calls of the file system are logged, and then an error is recorded or a counter
  moved.
\<close>

lemma bind_Ok_pair: "bind_result r f = Ok y \<Longrightarrow> (\<And>a b. r = Ok (a, b) \<Longrightarrow> f (a, b) = Ok y \<Longrightarrow> P) \<Longrightarrow> P"
  by (cases r) auto

text \<open>Data written to the temporary file by one call, as against what was in the log before.\<close>

definition newCalls :: "sharedPullerState \<Rightarrow> sharedPullerState \<Rightarrow> fs_call list" where
  "newCalls s s' = drop (length (fsLog s)) (fsLog s')"

definition verified_call :: "(byte list \<Rightarrow> byte list) \<Rightarrow> BlockInfo \<Rightarrow> fs_call \<Rightarrow> bool" where
  "verified_call sha b c =
     (case c of FdWriteAt buf off \<Rightarrow> sha buf = bHash b \<and> int (length buf) = bSize b \<and> off = bOffset b | _ \<Rightarrow> True)"

text \<open>\<open>ext P s s'\<close>: the log of \<open>s'\<close> extends that of \<open>s\<close> by calls that satisfy \<open>P\<close>.\<close>

definition ext :: "(fs_call \<Rightarrow> bool) \<Rightarrow> sharedPullerState \<Rightarrow> sharedPullerState \<Rightarrow> bool" where
  "ext P s s' \<longleftrightarrow> (\<exists>cs. fsLog s' = fsLog s @ cs \<and> list_all P cs)"

lemma ext_refl [simp]: "ext P s s" by (simp add: ext_def)

lemma ext_log [simp]: "fsLog s' = fsLog s \<Longrightarrow> ext P s s'" by (simp add: ext_def)

lemma ext_trans: "ext P s s1 \<Longrightarrow> ext P s1 s2 \<Longrightarrow> ext P s s2" by (auto simp: ext_def)

lemma ext_fsCall: "P c \<Longrightarrow> ext P s (snd (fsCall env c s))" by (simp add: ext_def fsCall_def)

lemma ext_iff: "ext P s s' \<longleftrightarrow> (\<exists>cs. fsLog s' = fsLog s @ cs) \<and> list_all P (newCalls s s')"
  by (auto simp: ext_def newCalls_def)

text \<open>Whatever opens the temporary file writes no data to it.\<close>

fun no_write :: "fs_call \<Rightarrow> bool" where
  "no_write (FdWriteAt buf off) = False"
| "no_write c = True"

lemma no_write_verified: "no_write c \<Longrightarrow> verified_call sha b c"
  by (cases c) (simp_all add: verified_call_def)

lemma ext_mono: "ext P s s' \<Longrightarrow> (\<And>c. P c \<Longrightarrow> Q c) \<Longrightarrow> ext Q s s'"
  by (auto simp: ext_def elim!: list.pred_mono_strong)

text \<open>A method that changes the log only.\<close>

definition log_only :: "sharedPullerState \<Rightarrow> sharedPullerState \<Rightarrow> bool" where
  "log_only s s' \<longleftrightarrow> (\<exists>l w. s' = s\<lparr>fsLog := l, writer := w\<rparr>)"

lemma log_only_refl [simp]: "log_only s s"
  unfolding log_only_def by (rule exI [of _ "fsLog s"], rule exI [of _ "writer s"]) simp

lemma log_only_trans: "log_only s s1 \<Longrightarrow> log_only s1 s2 \<Longrightarrow> log_only s s2"
  unfolding log_only_def by force

lemma log_only_fsCall [simp]: "log_only s (snd (fsCall env c s))"
  unfolding log_only_def fsCall_def by (rule exI, rule exI [of _ "writer s"]) simp

lemma log_only_writer [simp]: "log_only s (s\<lparr>writer := w\<rparr>)"
  unfolding log_only_def by (rule exI [of _ "fsLog s"], rule exI [of _ w]) simp

lemma log_only_err: "log_only s s1 \<Longrightarrow> sErr s1 = sErr s \<and> log_only s (s1\<lparr>sErr := sErr s\<rparr>)"
proof -
  assume "log_only s s1"
  then obtain l w where "s1 = s\<lparr>fsLog := l, writer := w\<rparr>" unfolding log_only_def by blast
  then have "sErr s1 = sErr s" "s1\<lparr>sErr := sErr s\<rparr> = s\<lparr>fsLog := l, writer := w\<rparr>" by simp_all
  then show ?thesis unfolding log_only_def by blast
qed

definition quiet :: "sharedPullerState \<Rightarrow> sharedPullerState \<Rightarrow> bool" where
  "quiet s s' \<longleftrightarrow> log_only s s' \<and> ext no_write s s'"

lemma quiet_refl [simp]: "quiet s s" by (simp add: quiet_def)

lemma quiet_trans: "quiet s s1 \<Longrightarrow> quiet s1 s2 \<Longrightarrow> quiet s s2"
  by (auto simp: quiet_def intro: log_only_trans ext_trans)

lemma quiet_fsCall: "fsCall env c s = (e, s') \<Longrightarrow> no_write c \<Longrightarrow> quiet s s'"
  using log_only_fsCall [of s env c] ext_fsCall [of no_write c s env] by (simp add: quiet_def)

lemma quiet_writer: "quiet s s1 \<Longrightarrow> quiet s (s1\<lparr>writer := w\<rparr>)"
  by (rule quiet_trans [of _ s1]) (simp_all add: quiet_def)

lemma truncateTemp_quiet: "truncateTemp env s = Ok (e, s') \<Longrightarrow> quiet s s'"
proof -
  assume t: "truncateTemp env s = Ok (e, s')"
  show ?thesis
  proof (cases "sparse s \<and> \<not> IsSymlink (sFile s)")
    case True
    then obtain sz where r: "(let (e, s1) = fsCall env (FdTruncate sz) s in
          if e \<noteq> None \<and> reused s > 0 then
            let (_, s2) = fsCall env FdClose s1; (_, s3) = fsCall env (FsRemove (tempName s)) s2
            in Ok (e, s3)
          else Ok (None, s1)) = (Ok (e, s') :: (unit, perr option \<times> sharedPullerState) result)"
      using t by (auto simp: truncateTemp_def bind_result_Ok split: if_splits)
    obtain e1 s1 e2 s2 e3 s3 where c: "fsCall env (FdTruncate sz) s = (e1, s1)" "fsCall env FdClose s1 = (e2, s2)"
        "fsCall env (FsRemove (tempName s)) s2 = (e3, s3)" by fastforce
    have "quiet s s1" "quiet s1 s2" "quiet s2 s3" using c by (auto dest: quiet_fsCall)
    then have "quiet s s1" "quiet s s3" by (blast intro: quiet_trans)+
    then show ?thesis using r c by (auto split: if_splits)
  qed (use t in \<open>auto simp: truncateTemp_def\<close>)
qed

lemma tempFileInWritableDir_quiet:
  assumes "tempFileInWritableDir env s = Ok (e, s')"
  shows "quiet s s' \<and> (e = None \<longrightarrow> writer s')"
proof -
  define mode where "mode = (if ignorePerms s then 438 else fPermissions (sFile s) OR 384)"
  obtain ce s1 where c: "(if reused s \<noteq> 0 \<and> \<not> ignorePerms s then fsCall env (FsChmod (tempName s) mode) s else (None, s)) = (ce, s1)"
    by fastforce
  have q1: "quiet s s1" using c by (auto split: if_splits dest: quiet_fsCall)
  obtain oe s2 where o: "fsCall env (FsOpen (tempName s) (reused s = 0) mode) s1 = (oe, s2)" by fastforce
  have q2: "quiet s s2" using q1 quiet_fsCall [OF o] by (auto intro: quiet_trans)
  obtain he s3 where h: "fsCall env (FsHide (tempName s)) s2 = (he, s3)" by fastforce
  have q3: "quiet s s3" using q2 quiet_fsCall [OF h] by (auto intro: quiet_trans)
  note D = tempFileInWritableDir_def [of env s, folded mode_def, unfolded Let_def, folded mode_def, unfolded c prod.case]
  show ?thesis
  proof (cases "ce = None \<and> oe = None")
    case True
    then have "bind_result (truncateTemp env s3) (\<lambda>(te, s4). case te of Some e \<Rightarrow> Ok (Some e, s4)
        | None \<Rightarrow> Ok (None, s4\<lparr>writer := True\<rparr>)) = (Ok (e, s') :: (unit, perr option \<times> sharedPullerState) result)"
      using assms D o h by simp
    then obtain te s4 where t: "truncateTemp env s3 = Ok (te, s4)"
        and r: "(case te of Some e \<Rightarrow> Ok (Some e, s4) | None \<Rightarrow> Ok (None, s4\<lparr>writer := True\<rparr>)) = (Ok (e, s') :: (unit, perr option \<times> sharedPullerState) result)"
      by (auto elim: bind_Ok_pair)
    have "quiet s s4" using q3 truncateTemp_quiet [OF t] by (rule quiet_trans)
    then show ?thesis using r by (auto split: option.splits intro: quiet_writer)
  next
    case False
    then show ?thesis using assms D o q1 q2 by (auto split: option.splits)
  qed
qed

lemma inWritableDir_quiet:
  assumes "inWritableDir env fn path s = Ok (e, s')"
    and "\<And>s e s'. fn s = Ok (e, s') \<Longrightarrow> quiet s s' \<and> (e = None \<longrightarrow> writer s')"
  shows "quiet s s' \<and> (e = None \<longrightarrow> writer s')"
proof -
  obtain se s1 where c: "fsCall env (FsStat (path_Dir path)) s = (se, s1)" by fastforce
  obtain d m where st: "statMode env (fsLog s) (path_Dir path) = (d, m)" by fastforce
  define md where "md = m AND permBits"
  have q1: "quiet s s1" using quiet_fsCall [OF c] by simp
  obtain pe s2 where p: "fsCall env (FsChmod (path_Dir path) (md OR 448)) s1 = (pe, s2)" by fastforce
  have q2: "quiet s s2" using q1 quiet_fsCall [OF p] by (auto intro: quiet_trans)
  note D = inWritableDir_def [of env fn path s, unfolded Let_def c st prod.case, folded md_def]
  consider "se \<noteq> None \<or> \<not> d" | "se = None" "d" "md AND 128 = 0" | "se = None" "d" "md AND 128 \<noteq> 0"
    by blast
  then show ?thesis
  proof cases
    case 1
    then show ?thesis using assms(1) D q1 by (auto split: option.splits)
  next
    case 2
    then obtain fe s3 where f: "fn s2 = Ok (fe, s3)"
        and r: "(case pe of Some p \<Rightarrow> Ok (case fe of Some e \<Rightarrow> if isPermission env e then Some (AfterParent e) else Some e
             | None \<Rightarrow> None, s3) | None \<Rightarrow> (case fsCall env (FsChmod (path_Dir path) md) s3 of (_, s4) \<Rightarrow> Ok (fe, s4)))
          = (Ok (e, s') :: (unit, perr option \<times> sharedPullerState) result)"
      using assms(1) D p by (auto simp: Let_def elim!: bind_Ok_pair)
    have q3: "quiet s s3" "fe = None \<longrightarrow> writer s3" using q2 assms(2) [OF f] by (auto intro: quiet_trans)
    obtain re s4 where rc: "fsCall env (FsChmod (path_Dir path) (md)) s3 = (re, s4)" by fastforce
    have "quiet s s4" "writer s4 = writer s3" using q3(1) quiet_fsCall [OF rc] rc by (auto intro: quiet_trans simp: fsCall_def)
    then show ?thesis using r q3 rc by (auto split: option.splits if_splits)
  next
    case 3
    then have "fn s1 = Ok (e, s')" using assms(1) D by simp
    then show ?thesis using assms(2) q1 quiet_trans by blast
  qed
qed

lemma addWriterLocked_quiet:
  "addWriterLocked env s = Ok (e, s') \<Longrightarrow> quiet s s' \<and> (e = None \<longrightarrow> writer s')"
  unfolding addWriterLocked_def by (erule inWritableDir_quiet) (rule tempFileInWritableDir_quiet)

text \<open>\<open>tempFile\<close> returns an error exactly when the state has failed afterwards.\<close>

lemma tempFile_effect:
  assumes "tempFile env s = Ok (e, s')"
  shows "ext no_write s s' \<and> log_only s (s'\<lparr>sErr := sErr s\<rparr>) \<and> sErr s' = e
    \<and> (sErr s \<noteq> None \<longrightarrow> s' = s) \<and> (e = None \<longrightarrow> writer s')"
proof (cases "sErr s")
  case (Some x)
  then have "s' = s" "e = Some x" using assms by (simp_all add: tempFile_def)
  moreover have "log_only s (s\<lparr>sErr := sErr s\<rparr>)" by simp
  ultimately show ?thesis using Some by (simp only: ext_refl simp_thms option.simps)
next
  case None
  show ?thesis
  proof (cases "writer s")
    case True
    then have "s' = s" "e = None" using None assms by (simp_all add: tempFile_def)
    moreover have "log_only s (s\<lparr>sErr := sErr s\<rparr>)" by simp
    ultimately show ?thesis using None True by (simp only: ext_refl simp_thms option.simps)
  next
    case False
    then obtain we s1 where w: "addWriterLocked env s = Ok (we, s1)"
        and r: "(case we of Some x \<Rightarrow> Ok (Some x, failLocked x s1) | None \<Rightarrow> Ok (None, s1)) = (Ok (e, s') :: (unit, perr option \<times> sharedPullerState) result)"
      using assms None by (auto simp: tempFile_def elim: bind_Ok_pair)
    have q: "quiet s s1" "we = None \<longrightarrow> writer s1" using addWriterLocked_quiet [OF w] by auto
    have l: "log_only s (s1\<lparr>sErr := sErr s\<rparr>)" "ext no_write s s1" and n: "sErr s1 = None"
      using q(1) None log_only_err [of s s1] by (auto simp: quiet_def)
    show ?thesis
    proof (cases we)
      case None
      then have "s' = s1" "e = None" using r by simp_all
      then show ?thesis using l n q(2) None \<open>sErr s = None\<close> by simp
    next
      case (Some x)
      then have "s' = s1\<lparr>sErr := Some x\<rparr>" "e = Some x" using r n by (auto simp: failLocked_def)
      then show ?thesis using l \<open>sErr s = None\<close> by (simp add: ext_def)
    qed
  qed
qed

text \<open>
  What copying a block may change: the error if there was none, the writer, the statistics and
  the log, to which only verified data is added.
\<close>

definition touched :: "sharedPullerState \<Rightarrow> sharedPullerState \<Rightarrow> bool" where
  "touched s s' \<longleftrightarrow> (\<exists>e w c u l. s' = s\<lparr>sErr := e, writer := w, copyOrigin := c, updated := u, fsLog := l\<rparr>
     \<and> (sErr s \<noteq> None \<longrightarrow> e = sErr s))"

lemma touchedI:
  "s' = s\<lparr>sErr := e, writer := w, copyOrigin := c, updated := u, fsLog := l\<rparr> \<Longrightarrow> (sErr s \<noteq> None \<Longrightarrow> e = sErr s) \<Longrightarrow> touched s s'"
  unfolding touched_def by blast

lemma touched_refl [simp]: "touched s s"
  by (rule touchedI [where e = "sErr s" and w = "writer s" and c = "copyOrigin s" and u = "updated s" and l = "fsLog s"]) (cases s; simp)+

lemma touched_trans: "touched s s1 \<Longrightarrow> touched s1 s2 \<Longrightarrow> touched s s2"
  unfolding touched_def by (elim exE conjE) (simp, blast)

lemma touched_fail [simp]: "touched s (fail e s)"
proof (cases "sErr s = None")
  case True
  then show ?thesis
    by (intro touchedI [where e = "Some e" and w = "writer s" and c = "copyOrigin s" and u = "updated s" and l = "fsLog s"])
      (simp_all add: fail_def failLocked_def)
qed (simp add: fail_def failLocked_def)

lemma touched_origin [simp]: "touched s (copiedFromOrigin now s)"
  by (rule touchedI [where e = "sErr s" and w = "writer s" and c = "copyOrigin s + 1" and u = now and l = "fsLog s"]) (simp_all add: copiedFromOrigin_def)

lemma touched_log: "touched s (s\<lparr>fsLog := l\<rparr>)"
  by (rule touchedI [where e = "sErr s" and w = "writer s" and c = "copyOrigin s" and u = "updated s" and l = l]) simp_all

lemma touched_tempFile: "tempFile env s = Ok (e, s') \<Longrightarrow> touched s s'"
proof -
  assume t: "tempFile env s = Ok (e, s')"
  note te = tempFile_effect [OF t]
  then obtain l w where "s'\<lparr>sErr := sErr s\<rparr> = s\<lparr>fsLog := l, writer := w\<rparr>" unfolding log_only_def by blast
  then have "s'\<lparr>sErr := sErr s, sErr := e\<rparr> = s\<lparr>fsLog := l, writer := w, sErr := e\<rparr>" by simp
  then have "s' = s\<lparr>sErr := e, writer := w, copyOrigin := copyOrigin s, updated := updated s, fsLog := l\<rparr>"
    using te by (cases s', cases s) simp
  then show ?thesis by (rule touchedI) (use te in auto)
qed

lemma withLimiter_effect:
  assumes "withLimiter env src c s = (e, s')"
  shows "touched s s' \<and> sErr s' = sErr s \<and> (P c \<longrightarrow> ext P s s')"
proof (cases "limiter src (fsLog s)")
  case None
  then have "s' = s\<lparr>fsLog := fsLog s @ [c]\<rparr>" using assms by (simp add: withLimiter_def fsCall_def)
  then show ?thesis using touched_log [of s] by (simp add: ext_def)
qed (use assms in \<open>simp add: withLimiter_def\<close>)

definition copy_ok :: "copy_src \<Rightarrow> BlockInfo \<Rightarrow> bool \<Rightarrow> sharedPullerState \<Rightarrow> sharedPullerState \<Rightarrow> bool" where
  "copy_ok src b ok s s' \<longleftrightarrow> touched s s' \<and> ext (verified_call (blockSha src) b) s s' \<and> (ok \<longrightarrow> sErr s' = None)"

lemma copy_ok_refl [simp]: "copy_ok src b False s s"
  by (simp add: copy_ok_def)

lemma copy_ok_trans: "copy_ok src b ok' s s1 \<Longrightarrow> copy_ok src b ok s1 s2 \<Longrightarrow> copy_ok src b ok s s2"
  by (auto simp: copy_ok_def intro: touched_trans ext_trans)

lemma copy_ok_origin: "copy_ok src b ok s s1 \<Longrightarrow> copy_ok src b ok s (copiedFromOrigin now s1)"
  by (auto simp: copy_ok_def copiedFromOrigin_def [symmetric] ext_def intro: touched_trans [OF _ touched_origin])
    (simp_all add: copiedFromOrigin_def)

lemma verifyBuffer_None:
  "verifyBuffer sha buf b = None \<longleftrightarrow> int (length buf) = bSize b \<and> sha buf = bHash b"
  by (auto simp: verifyBuffer_def)

lemma copyBlockFromFile_ok:
  assumes enc: "\<not> receiveEncrypted cfg" and r: "copyBlockFromFile env cfg src folder nm off b s = Ok (ok, s')"
  shows "copy_ok src b ok s s'"
proof (cases "readAt src folder nm off (bSize b)")
  case (Inl e)
  then show ?thesis using r by (simp add: copyBlockFromFile_def)
next
  case (Inr buf)
  show ?thesis
  proof (cases "verifyBuffer (blockSha src) buf b")
    case (Some e)
    then show ?thesis using r Inr enc by (simp add: copyBlockFromFile_def)
  next
    case None
    let ?c = "if \<not> standardCopy cfg then FdCopyRange nm off (bOffset b) (bSize b) else FdWriteAt buf (bOffset b)"
    have vc: "verified_call (blockSha src) b ?c"
      using None by (auto simp: verified_call_def verifyBuffer_None)
    have wc: "(if \<not> standardCopy cfg then withLimiter env src (FdCopyRange nm off (bOffset b) (bSize b)) s1
        else limitedWriteAt env src buf (bOffset b) s1) = withLimiter env src ?c s1" for s1
      by (simp add: limitedWriteAt_def)
    obtain te s1 where t: "tempFile env s = Ok (te, s1)"
        and k: "(case te of Some e \<Rightarrow> Ok (False, s1) | None \<Rightarrow>
          (let (we, s2) = withLimiter env src ?c s1 in
           case we of Some e \<Rightarrow> Ok (False, fail (DstWrite e) s2) | None \<Rightarrow> Ok (True, s2)))
         = (Ok (ok, s') :: (unit, bool \<times> sharedPullerState) result)"
      using r [unfolded copyBlockFromFile_def Inr sum.case wc] enc None by (auto elim!: bind_Ok_pair)
    have s1: "touched s s1" "ext (verified_call (blockSha src) b) s s1" "sErr s1 = te"
      using touched_tempFile [OF t] tempFile_effect [OF t] ext_mono no_write_verified by blast+
    show ?thesis
    proof (cases te)
      case None
      obtain we s2 where w: "withLimiter env src ?c s1 = (we, s2)" by fastforce
      have s2: "touched s s2" "ext (verified_call (blockSha src) b) s s2" "sErr s2 = None"
        using withLimiter_effect [OF w, of "verified_call (blockSha src) b"] vc s1 None
        by (auto intro: touched_trans ext_trans)
      show ?thesis
      proof (cases we)
        case None
        then show ?thesis using k w s2 \<open>te = None\<close> by (simp add: copy_ok_def)
      next
        case (Some e)
        then have "ok = False" "s' = fail (DstWrite e) s2" using k w \<open>te = None\<close> by auto
        then show ?thesis
          using s2 touched_trans [OF s2(1) touched_fail] by (auto simp: copy_ok_def fail_def failLocked_def ext_def)
      qed
    qed (use k s1 in \<open>simp add: copy_ok_def\<close>)
  qed
qed

lemma copyFromEntries_ok:
  "\<not> receiveEncrypted cfg \<Longrightarrow> copyFromEntries env cfg src now folder b es s = Ok (ok, s') \<Longrightarrow> copy_ok src b ok s s'"
proof (induction es arbitrary: s)
  case (Cons x es)
  show ?case
  proof (cases x)
    case (Inl e)
    then show ?thesis using Cons.prems by simp
  next
    case (Inr y)
    obtain nm off where y: "y = (nm, off)" by fastforce
    obtain o1 s1 where f: "copyBlockFromFile env cfg src folder nm off b s = Ok (o1, s1)"
        and k: "(if \<not> o1 then (if failed s1 \<noteq> None then Ok (False, s1) else copyFromEntries env cfg src now folder b es s1)
             else if nm = fName (sFile s1) then Ok (True, copiedFromOrigin now s1)
             else Ok (True, copiedFromElsewhere s1)) = (Ok (ok, s') :: (unit, bool \<times> sharedPullerState) result)"
      using Cons.prems(2) Inr y by (auto elim: bind_Ok_pair)
    note c1 = copyBlockFromFile_ok [OF Cons.prems(1) f]
    show ?thesis
    proof (cases o1)
      case True
      then show ?thesis using k c1 copy_ok_origin by (auto simp: copiedFromElsewhere_def split: if_splits)
    next
      case False
      then show ?thesis using k c1 Cons.IH [OF Cons.prems(1), of s1] copy_ok_trans by (auto split: if_splits)
    qed
  qed
qed simp

lemma copyFromFolders_ok:
  "\<not> receiveEncrypted cfg \<Longrightarrow> copyFromFolders env cfg src now fs b s = Ok (ok, s') \<Longrightarrow> copy_ok src b ok s s'"
proof (induction fs arbitrary: s)
  case (Cons f fs)
  obtain o1 s1 where f: "copyBlockFromFolder env cfg src now f b s = Ok (o1, s1)"
      and k: "(if o1 then Ok (True, s1) else if failed s1 \<noteq> None then Ok (False, s1)
           else copyFromFolders env cfg src now fs b s1) = (Ok (ok, s') :: (unit, bool \<times> sharedPullerState) result)"
    using Cons.prems(2) by (auto elim: bind_Ok_pair)
  have c1: "copy_ok src b o1 s s1"
    using copyFromEntries_ok [OF Cons.prems(1)] f unfolding copyBlockFromFolder_def .
  then show ?case using k Cons.IH [OF Cons.prems(1), of s1] copy_ok_trans by (auto split: if_splits)
qed simp

lemma copyBlock_ok:
  assumes "\<not> receiveEncrypted cfg" and "copyBlock env cfg src now b s = Ok (ok, s')"
  shows "copy_ok src b ok s s'"
proof -
  obtain o1 s1 where
      c: "(case curFileBlocks s (bHash b) of None \<Rightarrow> Ok (False, s) | Some idx \<Rightarrow>
            if idx < length (fBlocks (curFile s)) then
              bind_result (copyBlockFromFile env cfg src (folderID cfg) (fName (curFile s)) (bOffset (fBlocks (curFile s) ! idx)) b s)
                (\<lambda>(ok, s1). Ok (ok, if ok then copiedFromOrigin now s1 else s1))
            else Panic) = (Ok (o1, s1) :: (unit, bool \<times> sharedPullerState) result)"
      and k: "(if o1 then Ok (True, s1) else if failed s1 \<noteq> None then Ok (False, s1)
          else copyFromFolders env cfg src now ((if blockIndexing cfg then [folderID cfg] else []) @ otherFolders cfg) b s1)
          = (Ok (ok, s') :: (unit, bool \<times> sharedPullerState) result)"
    using assms(2) unfolding copyBlock_def by (elim bind_Ok_pair) auto
  have c1: "copy_ok src b o1 s s1"
    using c copyBlockFromFile_ok [OF assms(1)] copy_ok_origin
    by (fastforce split: option.splits if_splits elim!: bind_Ok_pair)
  then show ?thesis using k copyFromFolders_ok [OF assms(1)] copy_ok_trans by (auto split: if_splits)
qed

section \<open>What a request does to the shared state\<close>

lemma touched_frame:
  assumes "touched s s'"
  shows "available s' = available s" "pullNeeded s' = pullNeeded s" "copyNeeded s' = copyNeeded s"
    "copyTotal s' = copyTotal s" "pullTotal s' = pullTotal s" "closed s' = closed s" "reused s' = reused s"
    "sFile s' = sFile s" "blockIndex s' b = blockIndex s b"
  using assms by (auto simp: touched_def blockIndex_def)

lemma touched_err: "touched s s' \<Longrightarrow> sErr s \<noteq> None \<Longrightarrow> sErr s' = sErr s"
  by (auto simp: touched_def)

lemma fail_err: "sErr (fail e s) \<noteq> None" "fsLog (fail e s) = fsLog s"
  by (auto simp: fail_def failLocked_def)

text \<open>A request ends in exactly one of two ways: with an error, or with the block accounted for.\<close>

definition pull_outcome :: "copy_src \<Rightarrow> go_time \<Rightarrow> BlockInfo \<Rightarrow> sharedPullerState \<Rightarrow> sharedPullerState \<Rightarrow> bool" where
  "pull_outcome src now b s s' \<longleftrightarrow>
     (\<exists>s1. touched s s1 \<and> ext (verified_call (blockSha src) b) s s1
        \<and> ((\<exists>e. s' = fail e s1) \<or> (sErr s1 = sErr s \<and> s' = pullDone now b s1)))"

lemma pull_outcome_fail [simp]: "pull_outcome src now b s (fail e s)"
  unfolding pull_outcome_def by (rule exI [of _ s]) auto

lemma pullLoop_outcome:
  "\<not> receiveEncrypted cfg \<Longrightarrow> pull_outcome src now b s (snd (pullLoop env cfg src ps now b le cs act s))"
proof (induction env cfg src ps now b le cs act s rule: pullLoop.induct)
  case (1 env cfg src ps now b le cs act s)
  define found where "found = nat (leastBusy act cs)"
  define rest where "rest = dropCandidate found cs"
  define act' where "act' = actDone (cs ! found) (actAfter ps (length cs) (actUsing (cs ! found) act))"
  note S = pullLoop.simps [of env cfg src ps now b le cs act s, unfolded Let_def, folded found_def, folded rest_def act'_def]
  show ?case
  proof (cases "ctxDone ps (length cs) \<or> leastBusy act cs = - 1")
    case True
    then show ?thesis by (subst S) auto
  next
    case False
    show ?thesis
    proof (cases "request ps (cs ! found) b")
      case (Inl e)
      then show ?thesis using False 1(1) [OF _ _ found_def refl rest_def act'_def Inl] "1.prems" by (subst S) simp
    next
      case (Inr buf)
      show ?thesis
      proof (cases "verifyBuffer (blockSha src) buf b")
        case (Some e)
        then show ?thesis
          using False 1(2) [OF _ _ found_def refl rest_def act'_def Inr] Inr "1.prems" by (subst S) simp
      next
        case None
        obtain we s1 where w: "limitedWriteAt env src buf (bOffset b) s = (we, s1)" by fastforce
        have vc: "verified_call (blockSha src) b (FdWriteAt buf (bOffset b))"
          using None by (auto simp: verified_call_def verifyBuffer_None)
        have e: "touched s s1" "sErr s1 = sErr s" "ext (verified_call (blockSha src) b) s s1"
          using withLimiter_effect [OF w [unfolded limitedWriteAt_def], of "verified_call (blockSha src) b"] vc by auto
        have "snd (pullLoop env cfg src ps now b le cs act s) = (case we of Some e \<Rightarrow> fail (SaveFailed e) s1 | None \<Rightarrow> pullDone now b s1)"
          using False Inr None w "1.prems" by (subst S) simp
        then show ?thesis
          unfolding pull_outcome_def using e by (intro exI [of _ s1]) (auto split: option.splits)
      qed
    qed
  qed
qed

lemma pullBlock_outcome:
  assumes "\<not> receiveEncrypted cfg" and "pullBlock env cfg src ps now cs b act s = Ok (act', s')"
  shows "(sErr s' \<noteq> None \<and> touched s s' \<or> pull_outcome src now b s s') \<and> ext (verified_call (blockSha src) b) s s'"
proof -
  obtain te s1 where t: "tempFile env s = Ok (te, s1)"
      and k: "(if te \<noteq> None then Ok (act, s1)
        else if \<not> disableSparse cfg \<and> reused s1 = 0 \<and> BlockInfo_IsEmpty b then Ok (act, pullDone now b s1)
        else Ok (pullLoop env cfg src ps now b None cs act s1)) = (Ok (act', s') :: (unit, deviceActivity \<times> sharedPullerState) result)"
    using assms(2) unfolding pullBlock_def by (elim bind_Ok_pair) auto
  have s1: "touched s s1" "ext (verified_call (blockSha src) b) s s1" "sErr s1 = te" "sErr s \<noteq> None \<longrightarrow> s1 = s"
    using touched_tempFile [OF t] tempFile_effect [OF t] ext_mono no_write_verified by blast+
  have lift: "pull_outcome src now b s s2 \<and> ext (verified_call (blockSha src) b) s s2"
    if o: "pull_outcome src now b s1 s2" and "te = None" for s2
  proof -
    obtain sx where x: "touched s1 sx" "ext (verified_call (blockSha src) b) s1 sx"
        "(\<exists>e. s2 = fail e sx) \<or> (sErr sx = sErr s1 \<and> s2 = pullDone now b sx)"
      using o unfolding pull_outcome_def by blast
    have tx: "touched s sx" and ex: "ext (verified_call (blockSha src) b) s sx"
      using s1(1,2) x(1,2) touched_trans ext_trans by blast+
    have "sErr s = None" using s1(3,4) that(2) by auto
    then have "(\<exists>e. s2 = fail e sx) \<or> (sErr sx = sErr s \<and> s2 = pullDone now b sx)"
      using x(3) s1(3) that(2) by auto
    moreover have "fsLog s2 = fsLog sx" using x(3) by (auto simp: fail_err pullDone_def)
    ultimately show ?thesis using tx ex unfolding pull_outcome_def ext_def by auto
  qed
  show ?thesis
  proof (cases te)
    case (Some e)
    then show ?thesis using k s1 by auto
  next
    case None
    have "pull_outcome src now b s1 (pullDone now b s1)"
      unfolding pull_outcome_def by (rule exI [of _ s1]) simp
    moreover have "pull_outcome src now b s1 (snd (pullLoop env cfg src ps now b None cs act s1))"
      by (rule pullLoop_outcome [OF assms(1)])
    ultimately have "pull_outcome src now b s1 s'" using k None by (auto split: if_splits)
    then show ?thesis using lift None by blast
  qed
qed


text \<open>A file of one block, available in another folder and from one device.\<close>

definition pull_env0 :: pull_env where
  "pull_env0 = \<lparr>fsErr = (\<lambda>_ _. None), statMode = (\<lambda>_ _. (True, 493)), isPermission = (\<lambda>_. False),
     marshalFile = (\<lambda>_. []), normalName = (\<lambda>s. s)\<rparr>"

definition copy_cfg0 :: copy_cfg where
  "copy_cfg0 = \<lparr>folderID = ''f'', receiveEncrypted = False, blockIndexing = True, standardCopy = True,
     disableSparse = False, otherFolders = []\<rparr>"

definition copy_src0 :: copy_src where
  "copy_src0 = \<lparr>readAt = (\<lambda>_ _ _ _. Inr [7, 7]), localBlocks = (\<lambda>_ _. [Inr (''x'', 0)]), limiter = (\<lambda>_. None),
     blockSha = (\<lambda>bs. bs)\<rparr>"

definition pull_src0 :: pull_src where
  "pull_src0 = \<lparr>ctxDone = (\<lambda>_. False), request = (\<lambda>_ _. Inr [7, 7]), actAfter = (\<lambda>_ a. a)\<rparr>"

definition block0 :: BlockInfo where
  "block0 = \<lparr>bHash = [7, 7], bOffset = 0, bSize = 2\<rparr>"

definition puller0 :: sharedPullerState where
  "puller0 = newSharedPullerState (time_Unix 0 0) (fi_blank\<lparr>fName := ''a'', fSize := 2, fBlocks := [block0]\<rparr>) ''f'' ''t''
     [block0] [] False False fi_blank False False []"

lemma copyBlock0: "\<exists>s1. copyBlock pull_env0 copy_cfg0 copy_src0 (time_Unix 1 0) block0 puller0 = Ok (True, s1)"
proof -
  have "(case copyBlock pull_env0 copy_cfg0 copy_src0 (time_Unix 1 0) block0 puller0 of Ok (ok, s1) \<Rightarrow> ok | _ \<Rightarrow> False)"
    by code_simp
  then show ?thesis by (auto split: result.splits prod.splits)
qed

lemma pullBlock0: "\<exists>a s2. pullBlock pull_env0 copy_cfg0 copy_src0 pull_src0 (time_Unix 1 0)
    [\<lparr>aID = repeatedDeviceID 1, fromTemporary = False\<rparr>] block0 newDeviceActivity puller0 = Ok (a, s2) \<and> sErr s2 = None"
proof -
  have "(case pullBlock pull_env0 copy_cfg0 copy_src0 pull_src0 (time_Unix 1 0)
      [\<lparr>aID = repeatedDeviceID 1, fromTemporary = False\<rparr>] block0 newDeviceActivity puller0 of Ok (a, s2) \<Rightarrow> sErr s2 = None | _ \<Rightarrow> False)"
    by code_simp
  then show ?thesis by (auto split: result.splits prod.splits)
qed


section \<open>The least busy device\<close>

lemma leastBusyFrom_min:
  "leastBusyFrom act i low best as = k \<Longrightarrow> k \<noteq> best \<Longrightarrow>
     act (aID (as ! (nat k - i))) < low \<and> (\<forall>a\<in>set as. act (aID (as ! (nat k - i))) \<le> act (aID a))"
  "leastBusyFrom act i low best as = best \<Longrightarrow> best < int i \<Longrightarrow> \<forall>a\<in>set as. low \<le> act (aID a)"
proof (induction as arbitrary: i low best)
  case (Cons a as)
  note range = leastBusyFrom_range
  {
    case 1
    show ?case
    proof (cases "act (aID a) < low")
      case True
      then have k: "leastBusyFrom act (Suc i) (act (aID a)) (int i) as = k" using 1 by simp
      show ?thesis
      proof (cases "k = int i")
        case True
        then show ?thesis using \<open>act (aID a) < low\<close> Cons(2) [of "Suc i" "act (aID a)" "int i"] k by simp
      next
        case False
        then have "int (Suc i) \<le> k" using range [of act "Suc i" "act (aID a)" "int i" as] k by auto
        then have "nat k - i = Suc (nat k - Suc i)" by linarith
        then show ?thesis using \<open>act (aID a) < low\<close> Cons(1) [OF k False] by auto
      qed
    next
      case False
      then have k: "leastBusyFrom act (Suc i) low best as = k" using 1 by simp
      then have "int (Suc i) \<le> k" using range [of act "Suc i" low best as] 1(2) by auto
      then have "nat k - i = Suc (nat k - Suc i)" by linarith
      then show ?thesis using False Cons(1) [OF k 1(2)] by auto
    qed
  next
    case 2
    have "\<not> act (aID a) < low"
    proof
      assume "act (aID a) < low"
      then have "leastBusyFrom act (Suc i) (act (aID a)) (int i) as = best" using 2(1) by simp
      then show False using range [of act "Suc i" "act (aID a)" "int i" as] 2(2) by auto
    qed
    then show ?case using 2 Cons(2) [of "Suc i" low best] by auto
  }
qed auto

text \<open>
  The chosen candidate has the fewest outstanding requests; none is chosen only when there is
  no candidate with fewer than \<open>2 ^ 31 - 1\<close> of them.
\<close>

lemma leastBusy_min:
  "leastBusy act as = - 1 \<longleftrightarrow> (\<forall>a\<in>set as. 2 ^ 31 - 1 \<le> act (aID a))"
  "leastBusy act as \<noteq> - 1 \<Longrightarrow> a \<in> set as \<Longrightarrow> act (aID (as ! nat (leastBusy act as))) \<le> act (aID a)"
proof -
  note m = leastBusyFrom_min [of act 0 "2 ^ 31 - 1" "- 1" as, folded leastBusy_def]
  show "leastBusy act as = - 1 \<longleftrightarrow> (\<forall>a\<in>set as. 2 ^ 31 - 1 \<le> act (aID a))"
  proof
    assume r: "\<forall>a\<in>set as. 2 ^ 31 - 1 \<le> act (aID a)"
    show "leastBusy act as = - 1"
    proof (rule ccontr)
      assume n: "leastBusy act as \<noteq> - 1"
      then have "act (aID (as ! nat (leastBusy act as))) < 2 ^ 31 - 1" using m(1) [OF refl] by simp
      moreover have "as ! nat (leastBusy act as) \<in> set as" using leastBusy_range [of act as] n
        by (intro nth_mem) (simp add: nat_less_iff)
      ultimately show False using r by fastforce
    qed
  qed (use m(2) in simp)
  show "leastBusy act as \<noteq> - 1 \<Longrightarrow> a \<in> set as \<Longrightarrow> act (aID (as ! nat (leastBusy act as))) \<le> act (aID a)"
    using m(1) [OF refl] by simp
qed

text \<open>Requests are counted while they last: without other requests the activity is as before.\<close>

lemma pullLoop_activity:
  "(\<And>n a. actAfter ps n a = a) \<Longrightarrow> fst (pullLoop env cfg src ps now b le cs act s) = act"
proof (induction env cfg src ps now b le cs act s rule: pullLoop.induct)
  case (1 env cfg src ps now b le cs act s)
  define found where "found = nat (leastBusy act cs)"
  define rest where "rest = dropCandidate found cs"
  have act': "act = actDone (cs ! found) (actAfter ps (length cs) (actUsing (cs ! found) act))"
    using "1.prems" by (auto simp: actDone_def actUsing_def)
  note S = pullLoop.simps [of env cfg src ps now b le cs act s, unfolded Let_def, folded found_def, folded rest_def, folded act']
  show ?case
  proof (cases "ctxDone ps (length cs) \<or> leastBusy act cs = - 1")
    case True
    then show ?thesis by (subst S) auto
  next
    case False
    show ?thesis
    proof (cases "request ps (cs ! found) b")
      case (Inl e)
      then show ?thesis using False 1(1) [OF _ _ found_def refl rest_def act' Inl] "1.prems" by (subst S) simp
    next
      case (Inr buf)
      obtain we s1 where w: "limitedWriteAt env src buf (bOffset b) s = (we, s1)" by fastforce
      show ?thesis
        using False 1(2) [OF _ _ found_def refl rest_def act' Inr] Inr "1.prems" w
        by (subst S) (cases "if \<not> receiveEncrypted cfg then verifyBuffer (blockSha src) buf b else None"; simp)
    qed
  qed
qed

section \<open>Reusing an old temporary file\<close>

lemma blockDiffLoop_have: "fst (blockDiffLoop src tgt) = map fst (filter (\<lambda>(t, b). bHash t = bHash b) (zip tgt src))"
  by (induction src tgt rule: blockDiffLoop.induct) (auto split: prod.splits)

lemma blockDiff_have: "fst (blockDiff src tgt) = map fst (filter (\<lambda>(t, b). bHash t = bHash b) (zip tgt src))"
  by (auto simp: blockDiff_def blockDiffLoop_have)

lemma in_blockDiff:
  assumes "distinct tgt" and "i < length tgt"
  shows "tgt ! i \<in> set (fst (blockDiff src tgt)) \<longleftrightarrow> i < length src \<and> bHash (tgt ! i) = bHash (src ! i)"
proof
  assume "tgt ! i \<in> set (fst (blockDiff src tgt))"
  then obtain b where b: "(tgt ! i, b) \<in> set (zip tgt src)" "bHash (tgt ! i) = bHash b" by (auto simp: blockDiff_have)
  then obtain j where j: "j < length tgt" "j < length src" "tgt ! j = tgt ! i" "src ! j = b" by (auto simp: set_zip)
  then show "i < length src \<and> bHash (tgt ! i) = bHash (src ! i)"
    using assms b by (metis distinct_conv_nth)
next
  assume "i < length src \<and> bHash (tgt ! i) = bHash (src ! i)"
  then show "tgt ! i \<in> set (fst (blockDiff src tgt))"
    using assms by (force simp: blockDiff_have set_zip)
qed

lemma populateFrom_offset:
  assumes "\<And>b. b \<in> set bs \<Longrightarrow> 0 < bSize b" and "0 \<le> off" and "off + (\<Sum>b\<leftarrow>bs. bSize b) < 2 ^ 63" and "i < length bs"
  shows "bOffset (populateFrom off bs ! i) = off + (\<Sum>b\<leftarrow>take i bs. bSize b)"
  using assms
proof (induction bs arbitrary: off i)
  case (Cons b bs)
  have p: "0 < bSize b" using Cons.prems(1) by simp
  have s: "0 \<le> (\<Sum>b\<leftarrow>bs. bSize b)"
    by (rule sum_list_nonneg) (use Cons.prems(1) in \<open>fastforce intro: less_imp_le\<close>)
  have fit: "to_i64 (off + bSize b) = off + bSize b"
    using Cons.prems(2,3) p s by (intro to_i64_id, unfold is_i64_def) simp
  show ?case
  proof (cases i)
    case (Suc k)
    then show ?thesis
      using Cons.IH [of "off + bSize b" k] Cons.prems p by (simp add: fit)
  qed simp
qed simp

lemma length_populateFrom [simp]: "length (populateFrom off bs) = length bs"
  by (induction bs arbitrary: off) auto

lemma populate_hash_size: "map bHash (populateFrom off bs) = map bHash bs" "map bSize (populateFrom off bs) = map bSize bs"
  by (induction bs arbitrary: off) auto

lemma sum_take_less:
  fixes f :: "'a \<Rightarrow> int"
  assumes "\<And>b. b \<in> set bs \<Longrightarrow> 0 < f b" and "i < j" and "j \<le> length bs"
  shows "(\<Sum>b\<leftarrow>take i bs. f b) < (\<Sum>b\<leftarrow>take j bs. f b)"
proof -
  have "take j bs = take i bs @ take (j - i) (drop i bs)" using assms(2) by (metis le_add_diff_inverse less_imp_le take_add)
  moreover have "take (j - i) (drop i bs) \<noteq> []" using assms(2,3) by simp
  then obtain x xs where x: "take (j - i) (drop i bs) = x # xs" by (cases "take (j - i) (drop i bs)") auto
  have sub: "set (x # xs) \<subseteq> set bs" unfolding x [symmetric] by (meson order_trans set_drop_subset set_take_subset)
  have "0 < f x + (\<Sum>b\<leftarrow>xs. f b)"
    using assms(1) sub by (intro add_pos_nonneg sum_list_nonneg) (auto simp: less_imp_le)
  ultimately show ?thesis using x by simp
qed

lemma populate_distinct:
  assumes "\<And>b. b \<in> set bs \<Longrightarrow> 0 < bSize b" and "(\<Sum>b\<leftarrow>bs. bSize b) < 2 ^ 63"
  shows "distinct (populateOffsets bs)"
proof -
  have o: "bOffset (populateOffsets bs ! i) = (\<Sum>b\<leftarrow>take i bs. bSize b)" if "i < length bs" for i
    using populateFrom_offset [OF assms(1), of bs 0 i] that assms(2) by (simp add: populateOffsets_def)
  show ?thesis
    unfolding distinct_conv_nth
  proof (intro allI impI)
    fix i j assume ij: "i < length (populateOffsets bs)" "j < length (populateOffsets bs)" "i \<noteq> j"
    then have "i < length bs" "j < length bs" by (simp_all add: populateOffsets_def)
    then have "bOffset (populateOffsets bs ! i) \<noteq> bOffset (populateOffsets bs ! j)"
      using sum_take_less [of bs bSize i j] sum_take_less [of bs bSize j i] assms(1) ij(3) o
      by (cases "i < j") auto
    then show "populateOffsets bs ! i \<noteq> populateOffsets bs ! j" by auto
  qed
qed

text \<open>
  A block of an old temporary file is reused exactly when the temporary file has a
  block with the same hash at the same index, and the blocks still to be fetched are exactly
  the others, in order; nothing is both reused and fetched, and nothing is left out.
\<close>

lemma reuseBlocks_partition:
  assumes "\<And>b. b \<in> set bs \<Longrightarrow> 0 < bSize b" and "(\<Sum>b\<leftarrow>bs. bSize b) < 2 ^ 63"
    and "reuseBlocks (Some tb) (populateOffsets bs) = (todo, reusedIdx)"
  shows "reusedIdx = filter (\<lambda>i. i < length tb \<and> bHash (bs ! i) = bHash (tb ! i)) [0..<length bs]
    \<and> todo = map ((!) (populateOffsets bs)) (filter (\<lambda>i. \<not> (i < length tb \<and> bHash (bs ! i) = bHash (tb ! i))) [0..<length bs])"
proof -
  let ?pb = "populateOffsets bs" and ?P = "\<lambda>i. i < length tb \<and> bHash (bs ! i) = bHash (tb ! i)"
  have len: "length ?pb = length bs" by (simp add: populateOffsets_def)
  have "map bHash ?pb = map bHash bs" by (simp add: populateOffsets_def populate_hash_size)
  then have h: "bHash (?pb ! i) = bHash (bs ! i)" if "i < length bs" for i
    using that len by (metis nth_map)
  have iff: "?pb ! i \<in> set (fst (blockDiff tb ?pb)) \<longleftrightarrow> ?P i" if "i < length bs" for i
    using in_blockDiff [OF populate_distinct [OF assms(1,2)], of i tb] that len h by simp
  have "reusedIdx = filter ?P [0..<length bs]"
    using assms(3) len iff by (auto simp: reuseBlocks_def Let_def intro!: filter_cong)
  moreover have "todo = filter (\<lambda>b. b \<notin> set (fst (blockDiff tb ?pb))) (map ((!) ?pb) [0..<length bs])"
    using assms(3) map_nth [of ?pb] len by (simp add: reuseBlocks_def Let_def)
  then have "todo = map ((!) ?pb) (filter (\<lambda>i. \<not> ?P i) [0..<length bs])"
    using iff by (auto simp: filter_map o_def intro!: arg_cong [where f = "map _"] filter_cong)
  ultimately show ?thesis by blast
qed

end
