(* ===== verification/Pull_Pipeline.thy ===== *)
theory Pull_Pipeline
  imports Pull_Blocks Transition
begin

text \<open>
  The routines that fetch one file, \<open>lib/model/folder_sendrecv.go\<close>: the copier walks over the
  blocks and hands those it cannot copy to pullers, one goroutine per block; each of them, and
  the copier at its end, sends the shared state to the finisher, which closes the file once.

  The routines interleave at the calls of the methods of the shared state, which run under its
  mutex, and at the channel operations. The state of a routine is where it is between two such
  calls; \<open>msgs\<close> counts the messages in the channel to the finisher.
\<close>

section \<open>States\<close>

datatype copier_pc =
    AtLoop "BlockInfo list"
  | Writing BlockInfo "BlockInfo list"
  | CopyOk BlockInfo "BlockInfo list"
  | CopyFailed BlockInfo "BlockInfo list"
  | StartPull BlockInfo "BlockInfo list"
  | SendPull BlockInfo "BlockInfo list"
  | AfterLoop
  | Sending
  | CopierDone

datatype pull_pc =
    PullQueued BlockInfo
  | PullRequest BlockInfo
  | PullWritten BlockInfo
  | PullOut

record pull_sys =
  shared :: sharedPullerState
  copier :: copier_pc
  pulls :: "pull_pc list"
  msgs :: nat
  finished :: "perr option list"
  closeErr :: bool

definition startPulling :: "sharedPullerState \<Rightarrow> BlockInfo list \<Rightarrow> pull_sys" where
  "startPulling s bs = \<lparr>shared = s, copier = AtLoop bs, pulls = [], msgs = 0, finished = [], closeErr = False\<rparr>"

section \<open>Steps of the routines\<close>

text \<open>What \<open>copyBlockFromFile\<close> calls to write a block: verified data, or a range of the source file.\<close>

definition copyCall :: "(byte list \<Rightarrow> byte list) \<Rightarrow> copy_cfg \<Rightarrow> BlockInfo \<Rightarrow> fs_call \<Rightarrow> bool" where
  "copyCall sha cfg b c =
     (case c of
        FdWriteAt buf off \<Rightarrow> standardCopy cfg \<and> off = bOffset b \<and> (receiveEncrypted cfg \<or> verifyBuffer sha buf b = None)
      | FdCopyRange name srcOff off n \<Rightarrow> \<not> standardCopy cfg \<and> off = bOffset b \<and> n = bSize b
      | _ \<Rightarrow> False)"

text \<open>\<open>copierRoutine\<close> with \<open>copyBlock\<close>, for the file whose blocks to get are \<open>bs0\<close>.\<close>

inductive copier_step ::
  "(byte list \<Rightarrow> byte list) \<Rightarrow> pull_env \<Rightarrow> copy_cfg \<Rightarrow> BlockInfo list \<Rightarrow> sharedPullerState \<times> copier_pc \<Rightarrow> sharedPullerState \<times> copier_pc \<Rightarrow> bool"
  for sha env cfg bs0 where
  copy_stop: "copier_step sha env cfg bs0 (s, AtLoop (b # bs)) (fail FolderStopped s, AfterLoop)"
| copy_sparse: "\<not> disableSparse cfg \<Longrightarrow> reused s = 0 \<Longrightarrow> BlockInfo_IsEmpty b \<Longrightarrow>
    copier_step sha env cfg bs0 (s, AtLoop (b # bs)) (skippedSparseBlock now s, CopyOk b bs)"
| copy_no_source: "copier_step sha env cfg bs0 (s, AtLoop (b # bs)) (s, CopyFailed b bs)"
| copy_open: "tempFile env s = Ok (None, s') \<Longrightarrow>
    copier_step sha env cfg bs0 (s, AtLoop (b # bs)) (s', Writing b bs)"
| copy_open_err: "tempFile env s = Ok (Some e, s') \<Longrightarrow>
    copier_step sha env cfg bs0 (s, AtLoop (b # bs)) (s', CopyFailed b bs)"
| copy_limit: "copier_step sha env cfg bs0 (s, Writing b bs) (fail (DstWrite e) s, CopyFailed b bs)"
| copy_write_err: "copyCall sha cfg b c \<Longrightarrow> fsCall env c s = (Some e, s') \<Longrightarrow>
    copier_step sha env cfg bs0 (s, Writing b bs) (fail (DstWrite e) s', CopyFailed b bs)"
| copy_write_origin: "copyCall sha cfg b c \<Longrightarrow> fsCall env c s = (None, s') \<Longrightarrow>
    copier_step sha env cfg bs0 (s, Writing b bs) (copiedFromOrigin now s', CopyOk b bs)"
| copy_write_elsewhere: "copyCall sha cfg b c \<Longrightarrow> fsCall env c s = (None, s') \<Longrightarrow>
    copier_step sha env cfg bs0 (s, Writing b bs) (copiedFromElsewhere s', CopyOk b bs)"
| copy_done: "copier_step sha env cfg bs0 (s, CopyOk b bs) (copyDone now b s, AtLoop bs)"
| copy_break: "failed s \<noteq> None \<Longrightarrow> copier_step sha env cfg bs0 (s, CopyFailed b bs) (s, AfterLoop)"
| copy_to_pull: "failed s = None \<Longrightarrow> copier_step sha env cfg bs0 (s, CopyFailed b bs) (s, StartPull b bs)"
| copy_pull_started: "copier_step sha env cfg bs0 (s, StartPull b bs) (pullStarted now s, SendPull b bs)"
| copy_end: "copier_step sha env cfg bs0 (s, AtLoop []) (s, AfterLoop)"
| copy_after: "bs0 \<noteq> [] \<Longrightarrow> copier_step sha env cfg bs0 (s, AfterLoop) (s, Sending)"
| copy_after_empty: "bs0 = [] \<Longrightarrow> tempFile env s = Ok (e, s') \<Longrightarrow>
    copier_step sha env cfg bs0 (s, AfterLoop) (case e of None \<Rightarrow> s' | Some x \<Rightarrow> fail x s', Sending)"

text \<open>\<open>pullerRoutine\<close> and \<open>pullBlock\<close>, for one block.\<close>

inductive puller_step ::
  "(byte list \<Rightarrow> byte list) \<Rightarrow> pull_env \<Rightarrow> copy_cfg \<Rightarrow> sharedPullerState \<times> pull_pc \<Rightarrow> sharedPullerState \<times> pull_pc \<Rightarrow> bool"
  for sha env cfg where
  pull_failed: "failed s \<noteq> None \<Longrightarrow> puller_step sha env cfg (s, PullQueued b) (s, PullOut)"
| pull_limit: "puller_step sha env cfg (s, PullQueued b) (fail e s, PullOut)"
| pull_open: "tempFile env s = Ok (None, s') \<Longrightarrow> puller_step sha env cfg (s, PullQueued b) (s', PullRequest b)"
| pull_open_err: "tempFile env s = Ok (Some e, s') \<Longrightarrow> puller_step sha env cfg (s, PullQueued b) (s', PullOut)"
| pull_sparse: "\<not> disableSparse cfg \<Longrightarrow> reused s = 0 \<Longrightarrow> BlockInfo_IsEmpty b \<Longrightarrow>
    puller_step sha env cfg (s, PullRequest b) (pullDone now b s, PullOut)"
| pull_fail: "puller_step sha env cfg (s, PullRequest b) (fail e s, PullOut)"
| pull_save: "receiveEncrypted cfg \<or> verifyBuffer sha buf b = None \<Longrightarrow> fsCall env (FdWriteAt buf (bOffset b)) s = (None, s') \<Longrightarrow>
    puller_step sha env cfg (s, PullRequest b) (s', PullWritten b)"
| pull_save_err: "receiveEncrypted cfg \<or> verifyBuffer sha buf b = None \<Longrightarrow> fsCall env (FdWriteAt buf (bOffset b)) s = (Some e, s') \<Longrightarrow>
    puller_step sha env cfg (s, PullRequest b) (fail (SaveFailed e) s', PullOut)"
| pull_done: "puller_step sha env cfg (s, PullWritten b) (pullDone now b s, PullOut)"

text \<open>The whole system: a copier, pullers and \<open>finisherRoutine\<close>, with their channels.\<close>

inductive pull_step ::
  "(byte list \<Rightarrow> byte list) \<Rightarrow> pull_env \<Rightarrow> copy_cfg \<Rightarrow> BlockInfo list \<Rightarrow> pull_sys \<Rightarrow> pull_sys \<Rightarrow> bool"
  for sha env cfg bs0 where
  step_copier: "copier_step sha env cfg bs0 (shared x, copier x) (s', c') \<Longrightarrow>
    pull_step sha env cfg bs0 x (x\<lparr>shared := s', copier := c'\<rparr>)"
| step_send_pull: "copier x = SendPull b bs \<Longrightarrow>
    pull_step sha env cfg bs0 x (x\<lparr>copier := AtLoop bs, pulls := pulls x @ [PullQueued b]\<rparr>)"
| step_copier_out: "copier x = Sending \<Longrightarrow>
    pull_step sha env cfg bs0 x (x\<lparr>copier := CopierDone, msgs := Suc (msgs x)\<rparr>)"
| step_puller: "pulls x = ps @ p # qs \<Longrightarrow> puller_step sha env cfg (shared x, p) (s', p') \<Longrightarrow>
    pull_step sha env cfg bs0 x (x\<lparr>shared := s', pulls := ps @ p' # qs\<rparr>)"
| step_puller_out: "pulls x = ps @ PullOut # qs \<Longrightarrow>
    pull_step sha env cfg bs0 x (x\<lparr>pulls := ps @ qs, msgs := Suc (msgs x)\<rparr>)"
| step_finisher: "msgs x = Suc n \<Longrightarrow> finalClose env (shared x) = Ok (c, e, s') \<Longrightarrow>
    pull_step sha env cfg bs0 x (x\<lparr>shared := s', msgs := n, finished := (if c then finished x @ [e] else finished x),
      closeErr := (closeErr x \<or> (\<not> c \<and> e \<noteq> None))\<rparr>)"

inductive_cases copier_stepE: "copier_step sha env cfg bs0 (s, c) (s', c')"
inductive_cases puller_stepE: "puller_step sha env cfg (s, p) (s', p')"

section \<open>Termination\<close>

fun copier_meas :: "copier_pc \<Rightarrow> nat" where
  "copier_meas (AtLoop bs) = 4 + 10 * length bs"
| "copier_meas (Writing b bs) = 13 + 10 * length bs"
| "copier_meas (CopyOk b bs) = 5 + 10 * length bs"
| "copier_meas (CopyFailed b bs) = 12 + 10 * length bs"
| "copier_meas (StartPull b bs) = 11 + 10 * length bs"
| "copier_meas (SendPull b bs) = 10 + 10 * length bs"
| "copier_meas AfterLoop = 3"
| "copier_meas Sending = 2"
| "copier_meas CopierDone = 0"

fun puller_meas :: "pull_pc \<Rightarrow> nat" where
  "puller_meas (PullQueued b) = 5"
| "puller_meas (PullRequest b) = 4"
| "puller_meas (PullWritten b) = 3"
| "puller_meas PullOut = 2"

definition pull_meas :: "pull_sys \<Rightarrow> nat" where
  "pull_meas x = copier_meas (copier x) + sum_list (map puller_meas (pulls x)) + msgs x"

lemma copier_step_less: "copier_step sha env cfg bs0 (s, c) (s', c') \<Longrightarrow> copier_meas c' < copier_meas c"
  by (erule copier_stepE) auto

lemma puller_step_less: "puller_step sha env cfg (s, p) (s', p') \<Longrightarrow> puller_meas p' < puller_meas p"
  by (erule puller_stepE) auto

interpretation pulling: decreasing_system "pull_step sha env cfg bs0" pull_meas for sha env cfg bs0
proof
  fix x y
  assume "pull_step sha env cfg bs0 x y"
  then show "pull_meas y < pull_meas x"
    by cases (auto simp: pull_meas_def dest: copier_step_less puller_step_less)
qed

section \<open>Accounting for the blocks\<close>

fun copier_blocks :: "copier_pc \<Rightarrow> BlockInfo multiset" where
  "copier_blocks (AtLoop bs) = mset bs"
| "copier_blocks (Writing b bs) = add_mset b (mset bs)"
| "copier_blocks (CopyOk b bs) = add_mset b (mset bs)"
| "copier_blocks (CopyFailed b bs) = add_mset b (mset bs)"
| "copier_blocks (StartPull b bs) = add_mset b (mset bs)"
| "copier_blocks (SendPull b bs) = mset bs"
| "copier_blocks AfterLoop = {#}"
| "copier_blocks Sending = {#}"
| "copier_blocks CopierDone = {#}"

fun copier_sent :: "copier_pc \<Rightarrow> BlockInfo multiset" where
  "copier_sent (SendPull b bs) = {#b#}"
| "copier_sent c = {#}"

fun puller_blocks :: "pull_pc \<Rightarrow> BlockInfo multiset" where
  "puller_blocks (PullQueued b) = {#b#}"
| "puller_blocks (PullRequest b) = {#b#}"
| "puller_blocks (PullWritten b) = {#b#}"
| "puller_blocks PullOut = {#}"

definition idx :: "int \<Rightarrow> BlockInfo \<Rightarrow> int" where
  "idx bz b = go_div (bOffset b) bz"

text \<open>
  Unless the file has failed, the counters are the numbers of blocks the copier (\<open>C\<close>) and the
  pullers (\<open>P\<close>) still have, and these are the blocks that are not yet available.
\<close>

definition acct :: "int \<Rightarrow> int multiset \<Rightarrow> sharedPullerState \<Rightarrow> BlockInfo multiset \<Rightarrow> BlockInfo multiset \<Rightarrow> bool" where
  "acct bz all s C P \<longleftrightarrow> FileInfo_BlockSize (sFile s) = bz \<and> \<not> fTruncated (sFile s) \<and>
     (sErr s = None \<longrightarrow>
        copyNeeded s = int (size C) \<and> pullNeeded s = int (size P)
        \<and> mset (available s) + image_mset (idx bz) C + image_mset (idx bz) P = all)"

lemma acct_touched: "touched s s' \<Longrightarrow> acct bz all s C P \<Longrightarrow> acct bz all s' C P"
  using touched_err [of s s'] by (auto simp: acct_def touched_frame)

lemma acct_failed: "acct bz all s C P \<Longrightarrow> sErr s \<noteq> None \<Longrightarrow> acct bz all s C' P'"
  by (auto simp: acct_def)

lemma acct_fail: "acct bz all s C P \<Longrightarrow> acct bz all (fail e s) C' P'"
  by (rule acct_failed [OF acct_touched [OF touched_fail]]) (simp_all add: fail_err)

lemma acct_copyDone: "acct bz all s (add_mset b C) P \<Longrightarrow> acct bz all (copyDone now b s) C P"
  by (auto simp: acct_def copyDone_def blockIndex_def idx_def)

lemma acct_pullStarted: "acct bz all s (add_mset b C) P \<Longrightarrow> acct bz all (pullStarted now s) C (add_mset b P)"
  by (auto simp: acct_def pullStarted_def)

lemma acct_pullDone: "acct bz all s C (add_mset b P) \<Longrightarrow> acct bz all (pullDone now b s) C P"
  by (auto simp: acct_def pullDone_def blockIndex_def idx_def)

lemma touched_sparse [simp]: "touched s (skippedSparseBlock now s)"
  using touched_origin [of s now] by (simp add: skippedSparseBlock_def copiedFromOrigin_def)

lemma touched_fsCall: "fsCall env c s = (e, s') \<Longrightarrow> touched s s'"
  using touched_log [of s] by (auto simp: fsCall_def)

lemma touched_fsCall_fail: "fsCall env c s = (e, s') \<Longrightarrow> touched s (fail x s')"
  by (rule touched_trans [OF touched_fsCall touched_fail])

lemma touched_fsCall_origin: "fsCall env c s = (e, s') \<Longrightarrow> touched s (copiedFromOrigin now s')"
  by (rule touched_trans [OF touched_fsCall touched_origin])

lemma touched_tempFile_fail: "tempFile env s = Ok (e, s') \<Longrightarrow> touched s (case e of None \<Rightarrow> s' | Some x \<Rightarrow> fail x s')"
  by (cases e) (auto intro: touched_tempFile touched_trans [OF touched_tempFile touched_fail])

lemma copier_step_cases:
  assumes "copier_step sha env cfg bs0 (s, c) (s', c')"
  obtains (touch) "touched s s'" "copier_blocks c' = copier_blocks c" "copier_sent c' = copier_sent c"
    | (broken) "touched s s'" "sErr s' \<noteq> None"
    | (copied) b now where "s' = copyDone now b s" "copier_blocks c = add_mset b (copier_blocks c')" "copier_sent c' = copier_sent c"
    | (started) b now where "s' = pullStarted now s" "copier_blocks c = add_mset b (copier_blocks c')"
        "copier_sent c = {#}" "copier_sent c' = {#b#}"
proof -
  note T = touched_tempFile touched_fsCall touched_fsCall_fail touched_fsCall_origin touched_tempFile_fail
  note E = fail_err(1) copiedFromElsewhere_def failed_def
  show thesis
    using assms by (rule copier_stepE) (rule that(1) that(2) that(3) that(4); (simp add: T E; fail)?)+
qed

lemma copier_step_acct:
  assumes "copier_step sha env cfg bs0 (s, c) (s', c')" and "acct bz all s (copier_blocks c) (copier_sent c + P)"
  shows "acct bz all s' (copier_blocks c') (copier_sent c' + P)"
  using assms(1)
proof (cases rule: copier_step_cases)
  case touch
  then show ?thesis using acct_touched [OF _ assms(2)] by simp
next
  case broken
  then show ?thesis using acct_failed [OF acct_touched [OF _ assms(2)]] by simp
next
  case (copied b now)
  then show ?thesis using acct_copyDone assms(2) by simp
next
  case (started b now)
  then show ?thesis using acct_pullStarted assms(2) by simp
qed

lemma copier_step_frame:
  assumes "copier_step sha env cfg bs0 (s, c) (s', c')"
  shows "closed s' = closed s \<and> c \<noteq> CopierDone \<and> c' \<noteq> CopierDone"
proof -
  have "closed s' = closed s"
    using assms by (cases rule: copier_step_cases) (simp_all add: touched_frame copyDone_def pullStarted_def)
  moreover have "c \<noteq> CopierDone \<and> c' \<noteq> CopierDone" using assms by (rule copier_stepE) simp_all
  ultimately show ?thesis by simp
qed

lemma copier_step_idle:
  assumes "copier_step sha env cfg bs0 (s, c) (s', c')" and "copier_blocks c = {#}" and "copier_sent c = {#}"
  shows "copier_blocks c' = {#} \<and> copier_sent c' = {#} \<and> available s' = available s"
proof -
  have "available s' = available s"
    using assms by (cases rule: copier_step_cases) (simp_all add: touched_frame)
  moreover have "copier_blocks c' = {#} \<and> copier_sent c' = {#}" using assms by (auto elim: copier_stepE)
  ultimately show ?thesis by simp
qed

lemma puller_step_cases:
  assumes "puller_step sha env cfg (s, p) (s', p')"
  obtains (touch) "touched s s'" "puller_blocks p' = puller_blocks p"
    | (broken) "touched s s'" "sErr s' \<noteq> None" "puller_blocks p \<noteq> {#}"
    | (pulled) b now where "s' = pullDone now b s" "puller_blocks p = add_mset b (puller_blocks p')"
proof -
  have te: "sErr s1 \<noteq> None" if "tempFile env s = Ok (Some e, s1)" for e s1
    using tempFile_effect [OF that] by simp
  note T = touched_tempFile touched_fsCall touched_fsCall_fail
  note E = fail_err(1) failed_def te
  show thesis
    using assms by (rule puller_stepE) (rule that(1) that(2) that(3); (simp add: T E; fail)?)+
qed

lemma puller_step_acct:
  assumes "puller_step sha env cfg (s, p) (s', p')" and "acct bz all s C (puller_blocks p + P)"
  shows "acct bz all s' C (puller_blocks p' + P)"
  using assms(1)
proof (cases rule: puller_step_cases)
  case touch
  then show ?thesis using acct_touched [OF _ assms(2)] by simp
next
  case broken
  then show ?thesis using acct_failed [OF acct_touched [OF _ assms(2)]] by simp
next
  case (pulled b now)
  then show ?thesis using acct_pullDone assms(2) by simp
qed

lemma puller_step_frame:
  assumes "puller_step sha env cfg (s, p) (s', p')"
  shows "closed s' = closed s \<and> puller_blocks p \<noteq> {#}"
proof -
  have "closed s' = closed s"
    using assms by (cases rule: puller_step_cases) (simp_all add: touched_frame pullDone_def)
  moreover have "puller_blocks p \<noteq> {#}" using assms by (rule puller_stepE) simp_all
  ultimately show ?thesis by simp
qed

section \<open>Closing\<close>

lemma log_only_frame:
  "log_only s s' \<Longrightarrow> available s' = available s \<and> copyNeeded s' = copyNeeded s \<and> pullNeeded s' = pullNeeded s
     \<and> closed s' = closed s \<and> sErr s' = sErr s \<and> sFile s' = sFile s"
  by (auto simp: log_only_def)

lemma fsCall_frame:
  "fsCall env c s = (e, s') \<Longrightarrow> available s' = available s \<and> copyNeeded s' = copyNeeded s \<and> pullNeeded s' = pullNeeded s
     \<and> closed s' = closed s \<and> sErr s' = sErr s \<and> sFile s' = sFile s \<and> writer s' = writer s"
  by (auto simp: fsCall_def)

definition close_frame :: "sharedPullerState \<Rightarrow> sharedPullerState \<Rightarrow> bool" where
  "close_frame s s' \<longleftrightarrow> available s' = available s \<and> copyNeeded s' = copyNeeded s \<and> pullNeeded s' = pullNeeded s
     \<and> FileInfo_BlockSize (sFile s') = FileInfo_BlockSize (sFile s) \<and> fTruncated (sFile s') = fTruncated (sFile s)
     \<and> (sErr s \<noteq> None \<longrightarrow> sErr s' = sErr s)"

lemma close_frame_refl [simp]: "close_frame s s" by (simp add: close_frame_def)

lemma close_frame_trans: "close_frame s s1 \<Longrightarrow> close_frame s1 s2 \<Longrightarrow> close_frame s s2"
  by (auto simp: close_frame_def)

lemma close_frame_fsCall: "fsCall env c s = (e, s') \<Longrightarrow> close_frame s s'"
  by (auto simp: fsCall_def close_frame_def)

lemma close_frame_setErr: "close_frame s (setErr e s)"
  by (auto simp: close_frame_def setErr_def)

lemma close_frame_quiet: "quiet s s' \<Longrightarrow> close_frame s s'"
  using log_only_frame [of s s'] by (auto simp: quiet_def close_frame_def)

lemma close_frame_done: "close_frame s (s\<lparr>writer := w, closed := c\<rparr>)"
  by (simp add: close_frame_def)

lemma close_frame_finalizeEncrypted: "finalizeEncrypted env s = Ok (e, s') \<Longrightarrow> close_frame s s'"
proof -
  assume "finalizeEncrypted env s = Ok (e, s')"
  then obtain r s1 where w: "writeEncryptionTrailer env (sFile s) s = Ok (r, s1)"
      and k: "(case r of Ok t \<Rightarrow> Ok (None, s1\<lparr>sFile := (sFile s1)\<lparr>fSize := fSize (sFile s1) + t, fEncryptionTrailerSize := t\<rparr>\<rparr>)
       | Err e \<Rightarrow> Ok (Some e, s1) | Panic \<Rightarrow> Panic) = (Ok (e, s') :: (unit, perr option \<times> sharedPullerState) result)"
    unfolding finalizeEncrypted_def by (elim bind_Ok_pair) auto
  have "close_frame s s1"
    using w by (auto simp: writeEncryptionTrailer_def Let_def bind_result_Ok fsCall_def close_frame_def)
  moreover have "close_frame s1 s'" using k by (auto simp: close_frame_def FileInfo_BlockSize_def split: result.splits)
  ultimately show ?thesis by (rule close_frame_trans)
qed

lemma close_frame_syncClose: "syncClose env s = (e, s') \<Longrightarrow> close_frame s s'"
  by (auto simp: syncClose_def Let_def fsCall_def close_frame_def split: if_splits)

lemma finalClose_cases:
  assumes "finalClose env s = Ok (c, e, s')"
  obtains (waiting) "\<not> c" "e = None" "s' = s" "closed s \<or> (pullNeeded s + copyNeeded s \<noteq> 0 \<and> sErr s = None)"
    | (no_temp) "\<not> c" "e \<noteq> None" "\<not> closed s" "closed s' = closed s" "close_frame s s'"
    | (closes) "c" "\<not> closed s" "closed s'" "e = sErr s'" "close_frame s s'" "sErr s \<noteq> None \<or> pullNeeded s + copyNeeded s = 0"
proof (cases "closed s \<or> (pullNeeded s + copyNeeded s \<noteq> 0 \<and> sErr s = None)")
  case True
  then have "finalClose env s = Ok (False, None, s)"
    unfolding finalClose_def by (cases "closed s") simp_all
  then have "\<not> c" "e = None" "s' = s" using assms by simp_all
  then show thesis using True by (rule that(1))
next
  case False
  define K where "K s1 = bind_result (if fEncrypted (sFile s1) \<noteq> [] then
       bind_result (finalizeEncrypted env s1) (\<lambda>(e, s2). Ok (setErr e s2)) else Ok s1) (\<lambda>s2.
         let (ce, s3) = (if writer s2 then syncClose env s2 else (None, s2));
             s4 = (setErr ce s3)\<lparr>writer := False, closed := True\<rparr>;
             (_, s5) = fsCall env (FsUnhide (tempName s4)) s4
         in (Ok (True, sErr s5, s5) :: (unit, bool \<times> perr option \<times> sharedPullerState) result))" for s1
  obtain we s1 where w: "(if writer s then Ok (None, s) else addWriterLocked env s) = (Ok (we, s1) :: (unit, perr option \<times> sharedPullerState) result)"
      and k: "(case we of Some e \<Rightarrow> Ok (False, Some e, s1) | None \<Rightarrow> K s1) = Ok (c, e, s')"
    using assms False unfolding finalClose_def K_def [symmetric] by (auto elim!: bind_Ok_pair)
  have f1: "close_frame s s1" "closed s1 = closed s"
    using w addWriterLocked_quiet [of env s we s1] close_frame_quiet log_only_frame
    by (auto simp: quiet_def split: if_splits)
  show thesis
  proof (cases we)
    case (Some x)
    then show thesis using k that(2) False f1 by auto
  next
    case None
    then have "K s1 = Ok (c, e, s')" using k by simp
    then obtain s2 where s2: "(if fEncrypted (sFile s1) \<noteq> [] then
          bind_result (finalizeEncrypted env s1) (\<lambda>(e, s2). Ok (setErr e s2)) else Ok s1) = (Ok s2 :: (unit, sharedPullerState) result)"
        and r: "(let (ce, s3) = (if writer s2 then syncClose env s2 else (None, s2));
             s4 = (setErr ce s3)\<lparr>writer := False, closed := True\<rparr>;
             (_, s5) = fsCall env (FsUnhide (tempName s4)) s4
         in (Ok (True, sErr s5, s5) :: (unit, bool \<times> perr option \<times> sharedPullerState) result)) = Ok (c, e, s')"
      unfolding K_def by (auto simp: bind_result_Ok)
    have f2: "close_frame s s2"
      using s2 f1(1) close_frame_trans close_frame_finalizeEncrypted close_frame_setErr
      by (auto split: if_splits simp: bind_result_Ok) blast
    obtain ce s3 where s3: "(if writer s2 then syncClose env s2 else (None, s2)) = (ce, s3)" by fastforce
    let ?s4 = "(setErr ce s3)\<lparr>writer := False, closed := True\<rparr>"
    have "close_frame s s3" using s3 f2 close_frame_trans close_frame_syncClose by (auto split: if_splits)
    then have f4: "close_frame s ?s4" using close_frame_trans close_frame_setErr close_frame_done by blast
    obtain ue s5 where s5: "fsCall env (FsUnhide (tempName ?s4)) ?s4 = (ue, s5)" by fastforce
    have f5: "close_frame s s5" using f4 close_frame_fsCall [OF s5] by (rule close_frame_trans)
    have "closed s5" using fsCall_frame [OF s5] by simp
    moreover have "c" "e = sErr s5" "s' = s5" using r s3 s5 by (auto simp: Let_def)
    ultimately show thesis using that(3) False f5 by auto
  qed
qed

section \<open>The invariant of a file being fetched\<close>

definition pending_pulls :: "pull_sys \<Rightarrow> BlockInfo multiset" where
  "pending_pulls x = (\<Sum>p\<leftarrow>pulls x. puller_blocks p)"

definition idle :: "pull_sys \<Rightarrow> bool" where
  "idle x \<longleftrightarrow> copier_blocks (copier x) = {#} \<and> copier_sent (copier x) = {#} \<and> pending_pulls x = {#}"

definition pull_inv :: "int \<Rightarrow> int multiset \<Rightarrow> pull_sys \<Rightarrow> bool" where
  "pull_inv bz all x \<longleftrightarrow>
     acct bz all (shared x) (copier_blocks (copier x)) (copier_sent (copier x) + pending_pulls x)
     \<and> (closed (shared x) \<longleftrightarrow> finished x \<noteq> []) \<and> length (finished x) \<le> 1
     \<and> (finished x = [None] \<longrightarrow> idle x \<and> mset (available (shared x)) = all)
     \<and> (\<not> closed (shared x) \<and> \<not> closeErr x \<longrightarrow> copier x \<noteq> CopierDone \<or> pulls x \<noteq> [] \<or> 0 < msgs x)"

lemma pull_invD:
  assumes "pull_inv bz all x"
  shows "acct bz all (shared x) (copier_blocks (copier x)) (copier_sent (copier x) + pending_pulls x)"
    "closed (shared x) \<longleftrightarrow> finished x \<noteq> []" "length (finished x) \<le> 1"
    "finished x = [None] \<Longrightarrow> idle x \<and> mset (available (shared x)) = all"
    "\<not> closed (shared x) \<Longrightarrow> \<not> closeErr x \<Longrightarrow> copier x \<noteq> CopierDone \<or> pulls x \<noteq> [] \<or> 0 < msgs x"
  using assms by (simp_all add: pull_inv_def)

lemma pull_inv_copier:
  assumes "copier_step sha env cfg bs0 (shared x, copier x) (s', c')" and "pull_inv bz all x"
  shows "pull_inv bz all (x\<lparr>shared := s', copier := c'\<rparr>)"
proof -
  note I = pull_invD [OF assms(2)]
  have "acct bz all s' (copier_blocks c') (copier_sent c' + pending_pulls x)"
    by (rule copier_step_acct [OF assms(1) I(1)])
  moreover have "finished x = [None] \<longrightarrow> copier_blocks c' = {#} \<and> copier_sent c' = {#} \<and> pending_pulls x = {#}
      \<and> mset (available s') = all"
    using I(4) copier_step_idle [OF assms(1)] by (auto simp: idle_def)
  ultimately show ?thesis
    using I(2,3,5) copier_step_frame [OF assms(1)] by (simp add: pull_inv_def idle_def pending_pulls_def)
qed

lemma pending_pulls_split:
  "pulls x = ps @ p # qs \<Longrightarrow> pending_pulls x = puller_blocks p + ((\<Sum>p\<leftarrow>ps. puller_blocks p) + (\<Sum>p\<leftarrow>qs. puller_blocks p))"
  by (simp add: pending_pulls_def)

lemma pull_inv_puller:
  assumes "pulls x = ps @ p # qs" and "puller_step sha env cfg (shared x, p) (s', p')" and "pull_inv bz all x"
  shows "pull_inv bz all (x\<lparr>shared := s', pulls := ps @ p' # qs\<rparr>)"
proof -
  note I = pull_invD [OF assms(3)]
  let ?R = "(\<Sum>p\<leftarrow>ps. puller_blocks p) + (\<Sum>p\<leftarrow>qs. puller_blocks p)"
  have "acct bz all (shared x) (copier_blocks (copier x)) (puller_blocks p + (copier_sent (copier x) + ?R))"
    using I(1) unfolding pending_pulls_split [OF assms(1)] by (simp add: ac_simps)
  then have "acct bz all s' (copier_blocks (copier x)) (puller_blocks p' + (copier_sent (copier x) + ?R))"
    by (rule puller_step_acct [OF assms(2)])
  moreover have "finished x \<noteq> [None]"
    using I(4) puller_step_frame [OF assms(2)] pending_pulls_split [OF assms(1)] by (auto simp: idle_def)
  ultimately show ?thesis
    using I(2,3) puller_step_frame [OF assms(2)]
    by (simp add: pull_inv_def pending_pulls_def ac_simps)
qed

lemma acct_close:
  "close_frame s s' \<Longrightarrow> acct bz all s C P \<Longrightarrow> acct bz all s' C P"
  by (auto simp: close_frame_def acct_def)

lemma pull_inv_finisher:
  assumes m: "msgs x = Suc n" and fc: "finalClose env (shared x) = Ok (c, e, s')" and inv: "pull_inv bz all x"
  shows "pull_inv bz all (x\<lparr>shared := s', msgs := n, finished := (if c then finished x @ [e] else finished x),
      closeErr := (closeErr x \<or> (\<not> c \<and> e \<noteq> None))\<rparr>)"
proof -
  note I = pull_invD [OF inv]
  have pp: "pending_pulls (x\<lparr>shared := s', msgs := n, finished := f, closeErr := ce\<rparr>) = pending_pulls x" for f ce
    by (simp add: pending_pulls_def)
  show ?thesis
    using fc
  proof (cases rule: finalClose_cases)
    case waiting
    have "\<not> idle x" if "\<not> closed (shared x)"
      using waiting(4) that I(1) by (auto simp: acct_def idle_def)
    then have "copier x \<noteq> CopierDone \<or> pulls x \<noteq> []" if "\<not> closed (shared x)"
      using that by (cases "copier x"; cases "pulls x") (auto simp: idle_def pending_pulls_def)
    moreover have "pending_pulls (x\<lparr>msgs := n\<rparr>) = pending_pulls x" by (simp add: pending_pulls_def)
    ultimately show ?thesis using waiting(1-3) I by (auto simp: pull_inv_def idle_def)
  next
    case no_temp
    then show ?thesis
      using I(1,2,3) acct_close [OF no_temp(5) I(1)] by (auto simp: pull_inv_def pp)
  next
    case closes
    have fin: "finished x = []" using closes(2) I(2) by simp
    have a: "acct bz all s' (copier_blocks (copier x)) (copier_sent (copier x) + pending_pulls x)"
      by (rule acct_close [OF closes(5) I(1)])
    have "idle x \<and> mset (available s') = all" if "e = None"
    proof -
      have n: "sErr s' = None" using that closes(4) by simp
      then have "sErr (shared x) = None" using closes(5) by (auto simp: close_frame_def)
      then have "pullNeeded (shared x) + copyNeeded (shared x) = 0" using closes(6) by simp
      then have "pullNeeded s' + copyNeeded s' = 0" using closes(5) by (simp add: close_frame_def)
      then have "int (size (copier_sent (copier x) + pending_pulls x)) + int (size (copier_blocks (copier x))) = 0"
        using a n by (simp add: acct_def)
      then have "size (copier_sent (copier x) + pending_pulls x) = 0" "size (copier_blocks (copier x)) = 0"
        by linarith+
      then have "copier_sent (copier x) + pending_pulls x = {#}" "copier_blocks (copier x) = {#}"
        by (simp_all only: size_eq_0_iff_empty)
      then show ?thesis using a n by (simp add: acct_def idle_def)
    qed
    then show ?thesis using a closes(1,3) fin by (auto simp: pull_inv_def idle_def pending_pulls_def)
  qed
qed

lemma pull_step_inv: "pull_step sha env cfg bs0 x y \<Longrightarrow> pull_inv bz all x \<Longrightarrow> pull_inv bz all y"
proof (induction rule: pull_step.induct)
  case (step_send_pull x b bs)
  then show ?case by (auto simp: pull_inv_def pending_pulls_def idle_def ac_simps)
next
  case (step_copier_out x)
  then show ?case by (auto simp: pull_inv_def pending_pulls_def idle_def)
next
  case (step_puller_out x ps qs)
  then show ?case by (auto simp: pull_inv_def pending_pulls_def idle_def)
qed (rule pull_inv_copier pull_inv_puller pull_inv_finisher; assumption)+

definition pull_start :: "int \<Rightarrow> int multiset \<Rightarrow> BlockInfo list \<Rightarrow> pull_sys \<Rightarrow> bool" where
  "pull_start bz all bs0 x \<longleftrightarrow> (\<exists>s. x = startPulling s bs0 \<and> acct bz all s (mset bs0) {#} \<and> \<not> closed s)"

interpretation fetching: invariant_system "pull_step sha env cfg bs0" "pull_start bz all bs0" "pull_inv bz all"
  for sha env cfg bs0 bz all
proof
  show "pull_start bz all bs0 x \<Longrightarrow> pull_inv bz all x" for x
    by (auto simp: pull_start_def startPulling_def pull_inv_def pending_pulls_def)
qed (rule pull_step_inv)

lemma new_start:
  "FileInfo_BlockSize file = bz \<Longrightarrow> \<not> fTruncated file \<Longrightarrow>
   pull_start bz (mset (map int ri) + image_mset (idx bz) (mset bs0)) bs0
     (startPulling (newSharedPullerState now file folder temp bs0 ri ip hc cur sp fy log) bs0)"
  unfolding pull_start_def
  by (rule exI, rule conjI [OF refl]) (simp add: acct_def newSharedPullerState_def)

section \<open>Results\<close>

text \<open>No method panics on a file info that is not truncated.\<close>

lemma addWriterLocked_returns:
  assumes "\<not> fTruncated (sFile s)"
  shows "\<exists>r. addWriterLocked env s = Ok r"
proof -
  have tw: "\<exists>w. FileInfo_ToWire False (sFile s) = Ok w"
    using FileInfo_ToWire_cases [of "sFile s" False] assms by blast
  have tr: "\<exists>r. truncateTemp env s1 = Ok r" if "sFile s1 = sFile s" for s1
    using tw that by (auto simp: truncateTemp_def encryptionTrailerSize_def Let_def split: prod.splits)
  have sf: "sFile (snd (fsCall env c s1)) = sFile s1" for c s1 by (simp add: fsCall_def)
  have te: "\<exists>r. tempFileInWritableDir env s1 = Ok r" if f: "sFile s1 = sFile s" for s1
  proof -
    define mode where "mode = (if ignorePerms s1 then 438 else fPermissions (sFile s1) OR 384)"
    obtain ce s2 where c: "(if reused s1 \<noteq> 0 \<and> \<not> ignorePerms s1 then fsCall env (FsChmod (tempName s1) mode) s1 else (None, s1)) = (ce, s2)"
      by fastforce
    obtain oe s3 where o: "fsCall env (FsOpen (tempName s1) (reused s1 = 0) mode) s2 = (oe, s3)" by fastforce
    obtain he s4 where h: "fsCall env (FsHide (tempName s1)) s3 = (he, s4)" by fastforce
    have "sFile s2 = sFile s" using c f fsCall_frame by (fastforce split: if_splits)
    then have "sFile s4 = sFile s" using o h fsCall_frame by metis
    then obtain r where "truncateTemp env s4 = Ok r" using tr by blast
    then show ?thesis
      unfolding tempFileInWritableDir_def Let_def mode_def [symmetric] c prod.case o h
      by (cases ce; cases oe; cases r; cases "fst r") auto
  qed
  obtain se s1 where st: "fsCall env (FsStat (path_Dir (tempName s))) s = (se, s1)" by fastforce
  obtain d m where sm: "statMode env (fsLog s) (path_Dir (tempName s)) = (d, m)" by fastforce
  obtain pe s2 where p: "fsCall env (FsChmod (path_Dir (tempName s)) ((m AND permBits) OR 448)) s1 = (pe, s2)" by fastforce
  have "sFile s1 = sFile s" using fsCall_frame [OF st] by simp
  moreover have "sFile s2 = sFile s1" using fsCall_frame [OF p] by simp
  ultimately obtain r1 r2 where r: "tempFileInWritableDir env s1 = Ok r1" "tempFileInWritableDir env s2 = Ok r2"
    using te by metis
  obtain fe s3 where r2: "r2 = (fe, s3)" by fastforce
  obtain ue s4 where u: "fsCall env (FsChmod (path_Dir (tempName s)) (m AND permBits)) s3 = (ue, s4)" by fastforce
  show ?thesis
    unfolding addWriterLocked_def inWritableDir_def Let_def st sm prod.case p r r2 bind_result.simps u
    by (cases se; cases pe) auto
qed

lemma tempFile_returns: "\<not> fTruncated (sFile s) \<Longrightarrow> \<exists>e s'. tempFile env s = Ok (e, s')"
proof (cases "sErr s = None \<and> \<not> writer s")
  case True
  assume "\<not> fTruncated (sFile s)"
  then obtain e s1 where "addWriterLocked env s = Ok (e, s1)" using addWriterLocked_returns [of s env] by fastforce
  then show ?thesis using True by (cases e) (auto simp: tempFile_def)
qed (auto simp: tempFile_def split: option.splits)

lemma finalClose_returns: "\<not> fTruncated (sFile s) \<Longrightarrow> \<exists>c e s'. finalClose env s = Ok (c, e, s')"
proof (cases "closed s \<or> (pullNeeded s + copyNeeded s \<noteq> 0 \<and> sErr s = None)")
  case True
  then have "finalClose env s = Ok (False, None, s)" unfolding finalClose_def by (cases "closed s") simp_all
  then show ?thesis by blast
next
  case False
  assume t: "\<not> fTruncated (sFile s)"
  obtain we s1 where w: "(if writer s then Ok (None, s) else addWriterLocked env s) = (Ok (we, s1) :: (unit, perr option \<times> sharedPullerState) result)"
    using addWriterLocked_returns [OF t, of env] by fastforce
  have "sFile s1 = sFile s"
    using w addWriterLocked_quiet [of env s we s1] log_only_frame [of s s1] by (auto simp: quiet_def split: if_splits)
  then have "\<exists>w. FileInfo_ToWire False ((sFile s1)\<lparr>fName := normalName env (fName (sFile s1))\<rparr>) = Ok w"
    using FileInfo_ToWire_cases [of "(sFile s1)\<lparr>fName := normalName env (fName (sFile s1))\<rparr>" False] t by auto
  then obtain w where tw: "FileInfo_ToWire False ((sFile s1)\<lparr>fName := normalName env (fName (sFile s1))\<rparr>) = Ok w" by blast
  let ?c = "FdWriteAt (marshalFile env w @ be_encode 4 (length (marshalFile env w) mod 2 ^ 32)) (fSize (sFile s1))"
  obtain te st where "fsCall env ?c s1 = (te, st)" by fastforce
  then have "writeEncryptionTrailer env (sFile s1) s1 =
      Ok (case te of Some x \<Rightarrow> Err x | None \<Rightarrow> Ok (int (length (marshalFile env w)) + 4), st)"
    using tw by (simp add: writeEncryptionTrailer_def encryptionTrailerSize_def Let_def)
  then obtain fe s2 where f: "finalizeEncrypted env s1 = Ok (fe, s2)"
    by (cases te) (simp_all add: finalizeEncrypted_def)
  have c: "\<not> closed s" and n: "\<not> (pullNeeded s + copyNeeded s \<noteq> 0 \<and> sErr s = None)" using False by auto
  show ?thesis
    unfolding finalClose_def if_not_P [OF c] if_not_P [OF n] w bind_result.simps prod.case
    by (cases we; cases "fEncrypted (sFile s1) = []") (simp_all add: f Let_def split: prod.splits, blast+)
qed

definition active :: "pull_sys \<Rightarrow> bool" where
  "active x \<longleftrightarrow> copier x \<noteq> CopierDone \<or> pulls x \<noteq> [] \<or> 0 < msgs x"

lemma copier_progress:
  assumes "c \<notin> {CopierDone, Sending}" and "\<nexists>b bs. c = SendPull b bs" and "\<not> fTruncated (sFile s)"
  shows "\<exists>s' c'. copier_step sha env cfg bs0 (s, c) (s', c')"
proof (cases c)
  case (AtLoop bs)
  then show ?thesis by (cases bs) (blast intro: copy_end copy_no_source)+
next
  case (CopyFailed b bs)
  then show ?thesis by (cases "failed s = None") (blast intro: copy_break copy_to_pull)+
next
  case AfterLoop
  obtain e s1 where "tempFile env s = Ok (e, s1)" using tempFile_returns [OF assms(3)] by blast
  then show ?thesis using AfterLoop copy_after copy_after_empty by (cases "bs0 = []") blast+
qed (use assms in \<open>blast intro: copy_limit copy_done copy_pull_started\<close>)+

lemma puller_progress: "p = PullOut \<or> (\<exists>s' p'. puller_step sha env cfg (s, p) (s', p'))"
  by (cases p) (blast intro: pull_limit pull_fail pull_done)+

lemma pull_progress:
  assumes "active x" and "\<not> fTruncated (sFile (shared x))"
  shows "\<exists>y. pull_step sha env cfg bs0 x y"
proof (cases "copier x = CopierDone")
  case False
  show ?thesis
  proof (cases "copier x = Sending \<or> (\<exists>b bs. copier x = SendPull b bs)")
    case True
    then show ?thesis by (blast intro: step_copier_out step_send_pull)
  next
    case F: False
    obtain s' c' where "copier_step sha env cfg bs0 (shared x, copier x) (s', c')"
      using copier_progress [of "copier x", OF _ _ assms(2)] False F by blast
    then show ?thesis by (blast intro: step_copier)
  qed
next
  case True
  show ?thesis
  proof (cases "pulls x")
    case (Cons p ps)
    then have p: "pulls x = [] @ p # ps" by simp
    show ?thesis using puller_progress [of p sha env cfg "shared x"] step_puller [OF p] step_puller_out p by (metis)
  next
    case Nil
    then obtain n where "msgs x = Suc n" using assms(1) True by (auto simp: active_def gr0_conv_Suc)
    moreover obtain c e s' where "finalClose env (shared x) = Ok (c, e, s')" using finalClose_returns [OF assms(2)] by blast
    ultimately show ?thesis by (blast intro: step_finisher)
  qed
qed


text \<open>
  Claim C14. Fetching a file comes to an end: every run takes at most \<open>4 + 10 n\<close> steps for \<open>n\<close>
  blocks, and when no routine can take another step the file has been finished exactly once (no
  wake-up of the finisher is lost), unless the temporary file could not be created at the very
  end.
\<close>

theorem fetching_ends:
  fixes x0
  assumes "\<not> fTruncated file" and "x0 = startPulling (newSharedPullerState now file folder temp bs ri ip hc cur sp fy log) bs"
  shows "(\<forall>n x. (pull_step sha env cfg bs ^^ n) x0 x \<longrightarrow> n \<le> 4 + 10 * length bs)
    \<and> (\<exists>x. (pull_step sha env cfg bs)\<^sup>*\<^sup>* x0 x \<and> (\<forall>y. \<not> pull_step sha env cfg bs x y))
    \<and> (\<forall>x. (pull_step sha env cfg bs)\<^sup>*\<^sup>* x0 x \<and> (\<forall>y. \<not> pull_step sha env cfg bs x y) \<longrightarrow> length (finished x) = 1 \<or> closeErr x)"
proof (intro conjI allI impI)
  fix n x assume "(pull_step sha env cfg bs ^^ n) x0 x"
  then show "n \<le> 4 + 10 * length bs"
    using pulling.run_length [of n sha env cfg bs x0 x] assms(2) by (simp add: pull_meas_def startPulling_def)
next
  show "\<exists>x. (pull_step sha env cfg bs)\<^sup>*\<^sup>* x0 x \<and> (\<forall>y. \<not> pull_step sha env cfg bs x y)" by (rule pulling.completes)
next
  fix x assume x: "(pull_step sha env cfg bs)\<^sup>*\<^sup>* x0 x \<and> (\<forall>y. \<not> pull_step sha env cfg bs x y)"
  have inv: "pull_inv (FileInfo_BlockSize file) (mset (map int ri) + image_mset (idx (FileInfo_BlockSize file)) (mset bs)) x"
    using fetching.reachable_inv [OF new_start [OF refl assms(1)]] x assms(2) by blast
  have "\<not> active x" using pull_progress [of x sha env cfg bs] x pull_invD(1) [OF inv] by (auto simp: acct_def)
  then have "closed (shared x) \<or> closeErr x" using pull_invD(5) [OF inv] by (auto simp: active_def)
  then show "length (finished x) = 1 \<or> closeErr x"
    using pull_invD(2,3) [OF inv] by (cases "finished x") auto
qed

definition sha0 :: "byte list \<Rightarrow> byte list" where
  "sha0 buf = bHash block0"

lemma copyCall0: "copyCall sha0 copy_cfg0 block0 (FdWriteAt [1, 2] 0)"
  by (simp add: copyCall_def copy_cfg0_def verifyBuffer_def sha0_def block0_def)

text \<open>A file of one block, which the copier finds and writes.\<close>

lemma one_block_run:
  assumes t: "tempFile pull_env0 s0 = Ok (None, s1)" and w: "writer s1" and c: "copyCall sha cfg b c"
    and s0: "copyNeeded s0 = 1" "pullNeeded s0 = 0" "\<not> closed s0" "fEncrypted (sFile s0) = []" "sErr s0 = None"
  shows "\<exists>x. (pull_step sha pull_env0 cfg [b])\<^sup>*\<^sup>* (startPulling s0 [b]) x \<and> finished x = [None]
    \<and> fsLog (shared x) = fsLog s1 @ c # (if fsync s1 then [FdSync] else []) @ [FdClose, FsUnhide (tempName s1)]"
proof -
  let ?R = "(pull_step sha pull_env0 cfg [b])\<^sup>*\<^sup>* (startPulling s0 [b])"
  note next_step = rtranclp.rtrancl_into_rtrancl [of "pull_step sha pull_env0 cfg [b]"]
  have f1: "copyNeeded s1 = 1" "pullNeeded s1 = 0" "\<not> closed s1" "fEncrypted (sFile s1) = []" "sErr s1 = None"
    using touched_frame [OF touched_tempFile [OF t]] tempFile_effect [OF t] s0 by simp_all
  define s2 where "s2 = s1\<lparr>fsLog := fsLog s1 @ [c]\<rparr>"
  define s3 where "s3 = copyDone (time_Unix 1 0) b s2"
  let ?x = "\<lambda>s c. (startPulling s0 [b])\<lparr>shared := s, copier := c\<rparr>"
  have "?R (?x s0 (AtLoop [b]))" by (simp add: startPulling_def)
  then have "?R (?x s1 (Writing b []))"
    by (rule next_step) (rule step_copier [where x = "?x s0 (AtLoop [b])", simplified], rule copy_open, use t in simp)
  then have "?R (?x s2 (CopyOk b []))"
    by (rule next_step) (use step_copier [where x = "?x s1 (Writing b [])"] copy_write_elsewhere
      [of sha cfg b c pull_env0 s1 s2] assms(3) in \<open>simp add: s2_def fsCall_def pull_env0_def copiedFromElsewhere_def\<close>)
  then have "?R (?x s3 (AtLoop []))"
    by (rule next_step) (use step_copier [where x = "?x s2 (CopyOk b [])"] copy_done in \<open>simp add: s3_def\<close>)
  then have "?R (?x s3 AfterLoop)"
    by (rule next_step) (use step_copier [where x = "?x s3 (AtLoop [])"] copy_end in simp)
  then have "?R (?x s3 Sending)"
    by (rule next_step) (use step_copier [where x = "?x s3 AfterLoop"] copy_after in simp)
  then have r: "?R (?x s3 CopierDone\<lparr>msgs := 1\<rparr>)"
    by (rule next_step) (use step_copier_out [where x = "?x s3 Sending"] in \<open>simp add: startPulling_def\<close>)
  let ?y = "?x s3 CopierDone\<lparr>msgs := 1\<rparr>"
  have fc: "finalClose pull_env0 (shared ?y) = Ok (True, None, (snd (fsCall pull_env0 (FsUnhide (tempName s3))
      ((snd (syncClose pull_env0 s3))\<lparr>writer := False, closed := True\<rparr>))))"
    using f1 w by (simp add: finalClose_def s3_def s2_def copyDone_def syncClose_def fsCall_def pull_env0_def setErr_def Let_def)
  have m: "msgs ?y = Suc 0" by simp
  let ?z = "?y\<lparr>shared := snd (fsCall pull_env0 (FsUnhide (tempName s3))
        ((snd (syncClose pull_env0 s3))\<lparr>writer := False, closed := True\<rparr>)), msgs := 0,
      finished := (if True then finished ?y @ [None] else finished ?y), closeErr := (closeErr ?y \<or> \<not> True \<and> None \<noteq> (None :: perr option))\<rparr>"
  have "?R ?z" by (rule next_step [OF r]) (rule step_finisher [OF m fc])
  moreover have "finished ?z = [None]" by (simp add: startPulling_def)
  moreover have "fsLog (shared ?z) = fsLog s1 @ c # (if fsync s1 then [FdSync] else []) @ [FdClose, FsUnhide (tempName s1)]"
    by (simp add: s3_def s2_def copyDone_def syncClose_def fsCall_def)
  ultimately show ?thesis by blast
qed

lemma run0: "\<exists>x. (pull_step sha0 pull_env0 copy_cfg0 [block0])\<^sup>*\<^sup>* (startPulling puller0 [block0]) x \<and> finished x = [None]"
proof -
  obtain e s1 where t: "tempFile pull_env0 puller0 = Ok (e, s1)"
    using tempFile_returns [of puller0 pull_env0] by (auto simp: puller0_def newSharedPullerState_def fi_blank_def)
  have "(case tempFile pull_env0 puller0 of Ok (e, s1) \<Rightarrow> e = None \<and> writer s1 | _ \<Rightarrow> False)" by code_simp
  then have "e = None" "writer s1" using t by simp_all
  then show ?thesis using t one_block_run [OF _ _ copyCall0, of puller0 s1]
    by (auto simp: puller0_def newSharedPullerState_def fi_blank_def)
qed


theorem fetching_ends_witness:
  "\<exists>x. (pull_step sha0 pull_env0 copy_cfg0 [block0])\<^sup>*\<^sup>* (startPulling puller0 [block0]) x \<and> (length (finished x) = 1 \<or> closeErr x)"
proof -
  let ?f = "fi_blank\<lparr>fName := ''a'', fSize := 2, fBlocks := [block0]\<rparr>"
  have "\<not> fTruncated ?f" by (simp add: fi_blank_def)
  from fetching_ends [OF this refl, of sha0 pull_env0 copy_cfg0 "[block0]" "time_Unix 0 0" "''f''" "''t''" "[]" False False fi_blank False False "[]",
      folded puller0_def]
  show ?thesis by blast
qed

section \<open>When the temporary file cannot be created\<close>

definition no_temp_file :: "pull_env \<Rightarrow> bool" where
  "no_temp_file env \<longleftrightarrow> (\<forall>log n ex m. fsErr env log (FsOpen n ex m) \<noteq> None)"

lemma no_temp_addWriter: "no_temp_file env \<Longrightarrow> addWriterLocked env s = Ok (e, s') \<Longrightarrow> e \<noteq> None \<and> writer s' = writer s"
proof -
  assume nt: "no_temp_file env" and a: "addWriterLocked env s = Ok (e, s')"
  have te: "e \<noteq> None \<and> writer s' = writer s" if "tempFileInWritableDir env s = Ok (e, s')" for s e s'
  proof -
    define mode where "mode = (if ignorePerms s then 438 else fPermissions (sFile s) OR 384)"
    obtain ce s1 where c: "(if reused s \<noteq> 0 \<and> \<not> ignorePerms s then fsCall env (FsChmod (tempName s) mode) s else (None, s)) = (ce, s1)"
      by fastforce
    obtain oe s2 where o: "fsCall env (FsOpen (tempName s) (reused s = 0) mode) s1 = (oe, s2)" by fastforce
    then have "oe \<noteq> None" using nt by (auto simp: fsCall_def no_temp_file_def)
    moreover have "writer s1 = writer s" using c fsCall_frame by (fastforce split: if_splits)
    ultimately show ?thesis
      using that fsCall_frame [OF o] unfolding tempFileInWritableDir_def Let_def mode_def [symmetric] c prod.case o
      by (cases ce) auto
  qed
  obtain se s1 where st: "fsCall env (FsStat (path_Dir (tempName s))) s = (se, s1)" by fastforce
  obtain d m where sm: "statMode env (fsLog s) (path_Dir (tempName s)) = (d, m)" by fastforce
  define md where "md = m AND permBits"
  obtain pe s2 where p: "fsCall env (FsChmod (path_Dir (tempName s)) (md OR 448)) s1 = (pe, s2)" by fastforce
  note w = fsCall_frame [OF st] fsCall_frame [OF p]
  have D: "addWriterLocked env s = (case se of Some e \<Rightarrow> Ok (Some e, s1) | None \<Rightarrow>
      if \<not> d then Ok (Some (NotADirectory (tempName s)), s1)
      else if md AND 128 = 0 then bind_result (tempFileInWritableDir env s2) (\<lambda>(fe, s3).
        case pe of Some p \<Rightarrow> Ok (case fe of Some e \<Rightarrow> if isPermission env e then Some (AfterParent e) else Some e
                                           | None \<Rightarrow> None, s3)
        | None \<Rightarrow> (case fsCall env (FsChmod (path_Dir (tempName s)) md) s3 of (_, s4) \<Rightarrow> Ok (fe, s4)))
      else tempFileInWritableDir env s1)"
    unfolding addWriterLocked_def inWritableDir_def Let_def st sm prod.case md_def [symmetric] p ..
  consider "se \<noteq> None \<or> \<not> d" | "se = None" d "md AND 128 = 0" | "se = None" d "md AND 128 \<noteq> 0" by blast
  then show ?thesis
  proof cases
    case 1
    then show ?thesis using a w unfolding D by (auto split: option.splits)
  next
    case 2
    obtain fe s3 where f: "tempFileInWritableDir env s2 = Ok (fe, s3)"
        and k: "(case pe of Some p \<Rightarrow> Ok (case fe of Some e \<Rightarrow> if isPermission env e then Some (AfterParent e) else Some e
                                           | None \<Rightarrow> None, s3)
        | None \<Rightarrow> (case fsCall env (FsChmod (path_Dir (tempName s)) md) s3 of (_, s4) \<Rightarrow> Ok (fe, s4)))
        = (Ok (e, s') :: (unit, perr option \<times> sharedPullerState) result)"
      using a 2 unfolding D by (auto elim!: bind_Ok_pair)
    have "fe \<noteq> None" "writer s3 = writer s" using te [OF f] w by auto
    moreover obtain re s4 where r: "fsCall env (FsChmod (path_Dir (tempName s)) md) s3 = (re, s4)" by fastforce
    ultimately show ?thesis using k fsCall_frame [OF r] by (cases pe) (auto split: option.splits)
  next
    case 3
    then show ?thesis using a te w unfolding D by auto
  qed
qed

lemma no_temp_tempFile:
  "no_temp_file env \<Longrightarrow> tempFile env s = Ok (e, s') \<Longrightarrow> \<not> writer s \<Longrightarrow> \<not> writer s'"
  using no_temp_addWriter [of env s]
  by (auto simp: tempFile_def failLocked_def split: option.splits if_splits elim!: bind_Ok_pair)

lemma no_temp_finalClose:
  assumes "no_temp_file env" and "finalClose env s = Ok (c, e, s')" and "\<not> writer s"
  shows "\<not> c \<and> \<not> writer s'"
proof (cases "closed s \<or> (pullNeeded s + copyNeeded s \<noteq> 0 \<and> sErr s = None)")
  case True
  then have "finalClose env s = Ok (False, None, s)" unfolding finalClose_def by (cases "closed s") simp_all
  then show ?thesis using assms by simp
next
  case False
  then have c: "\<not> closed s" and n: "\<not> (pullNeeded s + copyNeeded s \<noteq> 0 \<and> sErr s = None)" by auto
  have f: "bind_result (addWriterLocked env s) k = Ok y \<Longrightarrow> \<exists>x s1. k (Some x, s1) = Ok y \<and> writer s1 = writer s"
    for k :: "perr option \<times> sharedPullerState \<Rightarrow> (unit, bool \<times> perr option \<times> sharedPullerState) result" and y
    using no_temp_addWriter [OF assms(1), of s] by (fastforce elim!: bind_Ok_pair)
  show ?thesis
    using f [OF assms(2) [unfolded finalClose_def if_not_P [OF c] if_not_P [OF n] if_not_P [OF assms(3)]]] assms(3) by auto
qed

definition unfinished :: "pull_sys \<Rightarrow> bool" where
  "unfinished x \<longleftrightarrow> finished x = [] \<and> \<not> writer (shared x)"

lemma unfinished_copier:
  "no_temp_file env \<Longrightarrow> copier_step sha env cfg bs0 (s, c) (s', c') \<Longrightarrow> \<not> writer s \<Longrightarrow> \<not> writer s'"
  by (erule copier_stepE)
    (auto simp: fail_def failLocked_def skippedSparseBlock_def copiedFromOrigin_def copiedFromElsewhere_def copyDone_def
      pullStarted_def fsCall_def no_temp_tempFile split: option.splits)

lemma unfinished_puller:
  "no_temp_file env \<Longrightarrow> puller_step sha env cfg (s, p) (s', p') \<Longrightarrow> \<not> writer s \<Longrightarrow> \<not> writer s'"
  by (erule puller_stepE) (auto simp: fail_def failLocked_def pullDone_def fsCall_def no_temp_tempFile)

lemma unfinished_step: "no_temp_file env \<Longrightarrow> pull_step sha env cfg bs0 x y \<Longrightarrow> unfinished x \<Longrightarrow> unfinished y"
proof (erule pull_step.cases, goal_cases)
  case (6 x n c e s')
  then show ?case using no_temp_finalClose [of env "shared x" c e s'] by (auto simp: unfinished_def)
qed (auto simp: unfinished_def dest: unfinished_copier unfinished_puller)

text \<open>
  Claim C30. When the temporary file cannot be created, the failure is never reported: \<open>finalClose\<close>
  tries once more and returns \<open>false\<close> with the error, which the finisher takes for a file that
  is not ready. In every run the file stays unfinished, so that it is neither removed from the
  queue nor listed among the errors.
\<close>

theorem temp_failure_unreported:
  assumes "no_temp_file env"
    and "(pull_step sha env cfg bs)\<^sup>*\<^sup>* (startPulling (newSharedPullerState now file folder temp bs ri ip hc cur sp fy log) bs) x"
  shows "finished x = []"
proof -
  have "unfinished x"
    using assms(2)
  proof (induction rule: rtranclp_induct)
    case base
    then show ?case by (simp add: unfinished_def startPulling_def newSharedPullerState_def)
  next
    case (step y z)
    then show ?case using unfinished_step [OF assms(1)] by blast
  qed
  then show ?thesis by (simp add: unfinished_def)
qed

theorem temp_failure_unreported_witness:
  "\<exists>x. (pull_step sha0 (pull_env0\<lparr>fsErr := (\<lambda>_ _. Some (FsError ''EACCES''))\<rparr>) copy_cfg0 [block0])\<^sup>*\<^sup>* (startPulling puller0 [block0]) x
     \<and> (\<forall>y. \<not> pull_step sha0 (pull_env0\<lparr>fsErr := (\<lambda>_ _. Some (FsError ''EACCES''))\<rparr>) copy_cfg0 [block0] x y) \<and> finished x = []"
proof -
  let ?e = "pull_env0\<lparr>fsErr := (\<lambda>_ _. Some (FsError ''EACCES''))\<rparr>"
  have n: "no_temp_file ?e" by (simp add: no_temp_file_def)
  obtain x where x: "(pull_step sha0 ?e copy_cfg0 [block0])\<^sup>*\<^sup>* (startPulling puller0 [block0]) x"
      "\<forall>y. \<not> pull_step sha0 ?e copy_cfg0 [block0] x y"
    using pulling.completes by blast
  from temp_failure_unreported [OF n x(1) [unfolded puller0_def]] x show ?thesis by blast
qed

end
