(* ===== verification/Download_State.thy ===== *)
theory Download_State
  imports Puller_State "HOL-Library.AList"
begin

text \<open>
  What a device tells others about the blocks it has downloaded so far: the message
  (\<open>lib/protocol/bep_download_progress.go\<close>), what has been announced to each device
  (\<open>lib/model/sentdownloadstate.go\<close>) and what each device has announced to us
  (\<open>lib/model/devicedownloadstate.go\<close>).

  Go maps are association lists with distinct keys; the order of the list is the order in
  which a \<open>range\<close> loop happens to visit the map.
\<close>

section \<open>The message\<close>

datatype FileDownloadProgressUpdateType = UpdateAppend | UpdateForget

record FileDownloadProgressUpdate =
  uType :: FileDownloadProgressUpdateType
  uName :: string
  uVersion :: Vector
  uBlockIndexes :: "int list"
  uBlockSize :: int

record bep_FileDownloadProgressUpdate =
  buType :: FileDownloadProgressUpdateType
  buName :: string
  buVersion :: "bep_Vector option"
  buBlockIndexes :: "int list"
  buBlockSize :: int

record DownloadProgress =
  dpFolder :: string
  dpUpdates :: "FileDownloadProgressUpdate list"

record bep_DownloadProgress =
  bdFolder :: string
  bdUpdates :: "bep_FileDownloadProgressUpdate list"

definition FileDownloadProgressUpdate_toWire :: "FileDownloadProgressUpdate \<Rightarrow> bep_FileDownloadProgressUpdate" where
  "FileDownloadProgressUpdate_toWire f =
     \<lparr>buType = uType f, buName = uName f, buVersion = Some (Vector_ToWire (uVersion f)),
      buBlockIndexes = map to_i32 (uBlockIndexes f), buBlockSize = to_i32 (uBlockSize f)\<rparr>"

definition fileDownloadProgressUpdateFromWire :: "bep_FileDownloadProgressUpdate \<Rightarrow> FileDownloadProgressUpdate" where
  "fileDownloadProgressUpdateFromWire w =
     \<lparr>uType = buType w, uName = buName w, uVersion = VectorFromWire (buVersion w),
      uBlockIndexes = buBlockIndexes w, uBlockSize = buBlockSize w\<rparr>"

definition DownloadProgress_toWire :: "DownloadProgress \<Rightarrow> bep_DownloadProgress" where
  "DownloadProgress_toWire d =
     \<lparr>bdFolder = dpFolder d, bdUpdates = map FileDownloadProgressUpdate_toWire (dpUpdates d)\<rparr>"

definition downloadProgressFromWire :: "bep_DownloadProgress \<Rightarrow> DownloadProgress" where
  "downloadProgressFromWire w =
     \<lparr>dpFolder = bdFolder w, dpUpdates = map fileDownloadProgressUpdateFromWire (bdUpdates w)\<rparr>"

section \<open>What a device has announced to us\<close>

record deviceFolderFileDownloadState =
  dfBlockIndexes :: "int list"
  dfVersion :: Vector
  dfBlockSize :: int

type_synonym deviceFolderDownloadState = "(string \<times> deviceFolderFileDownloadState) list"

definition dfHas :: "string \<Rightarrow> Vector \<Rightarrow> int \<Rightarrow> deviceFolderDownloadState \<Rightarrow> bool" where
  "dfHas file version i p =
     (case map_of p file of
        None \<Rightarrow> False
      | Some l \<Rightarrow> if \<not> VEqual (dfVersion l) version then False else i \<in> set (dfBlockIndexes l))"

definition dfUpdateOne :: "FileDownloadProgressUpdate \<Rightarrow> deviceFolderDownloadState \<Rightarrow> deviceFolderDownloadState" where
  "dfUpdateOne u p =
     (case map_of p (uName u) of
        Some l \<Rightarrow>
          (if uType u = UpdateForget then (if VEqual (dfVersion l) (uVersion u) then AList.delete (uName u) p else p)
           else if \<not> VEqual (dfVersion l) (uVersion u) then
             AList.update (uName u) (l\<lparr>dfBlockIndexes := uBlockIndexes u, dfVersion := uVersion u, dfBlockSize := uBlockSize u\<rparr>) p
           else AList.update (uName u) (l\<lparr>dfBlockIndexes := dfBlockIndexes l @ uBlockIndexes u\<rparr>) p)
      | None \<Rightarrow>
          (if uType u = UpdateForget then p
           else AList.update (uName u)
                  \<lparr>dfBlockIndexes = uBlockIndexes u, dfVersion = uVersion u, dfBlockSize = uBlockSize u\<rparr> p))"

definition dfUpdate :: "FileDownloadProgressUpdate list \<Rightarrow> deviceFolderDownloadState \<Rightarrow> deviceFolderDownloadState" where
  "dfUpdate us p = fold dfUpdateOne us p"

definition dfBytesDownloaded :: "deviceFolderDownloadState \<Rightarrow> int" where
  "dfBytesDownloaded p =
     (\<Sum>(n, st)\<leftarrow>p. int (length (dfBlockIndexes st)) * (if dfBlockSize st \<noteq> 0 then dfBlockSize st else MinBlockSize))"

definition dfGetBlockCounts :: "deviceFolderDownloadState \<Rightarrow> (string \<times> nat) list" where
  "dfGetBlockCounts p = map (\<lambda>(n, st). (n, length (dfBlockIndexes st))) p"

text \<open>All folders of a device; \<open>None\<close> is the nil pointer.\<close>

type_synonym deviceDownloadState = "(string \<times> deviceFolderDownloadState) list"

definition newDeviceDownloadState :: deviceDownloadState where
  "newDeviceDownloadState = []"

definition ddUpdate ::
  "string \<Rightarrow> FileDownloadProgressUpdate list \<Rightarrow> deviceDownloadState option \<Rightarrow> deviceDownloadState option" where
  "ddUpdate folder us t =
     map_option (\<lambda>fs.
       AList.update folder (dfUpdate us (case map_of fs folder of None \<Rightarrow> [] | Some f \<Rightarrow> f)) fs) t"

definition ddHas :: "string \<Rightarrow> string \<Rightarrow> Vector \<Rightarrow> int \<Rightarrow> deviceDownloadState option \<Rightarrow> bool" where
  "ddHas folder file version i t =
     (case t of
        None \<Rightarrow> False
      | Some fs \<Rightarrow> (case map_of fs folder of None \<Rightarrow> False | Some f \<Rightarrow> dfHas file version i f))"

definition ddGetBlockCounts :: "string \<Rightarrow> deviceDownloadState option \<Rightarrow> (string \<times> nat) list option" where
  "ddGetBlockCounts folder t =
     (case t of
        None \<Rightarrow> None
      | Some fs \<Rightarrow> map_option (\<lambda>(n, st). dfGetBlockCounts st) (find (\<lambda>(n, st). n = folder) fs))"

definition ddBytesDownloaded :: "string \<Rightarrow> deviceDownloadState option \<Rightarrow> int" where
  "ddBytesDownloaded folder t =
     (case t of
        None \<Rightarrow> 0
      | Some fs \<Rightarrow> (case find (\<lambda>(n, st). n = folder) fs of None \<Rightarrow> 0 | Some (n, st) \<Rightarrow> dfBytesDownloaded st))"

section \<open>What we have announced to a device\<close>

record sentFolderFileDownloadState =
  sfBlockIndexes :: "int list"
  sfVersion :: Vector
  sfUpdated :: go_time
  sfCreated :: go_time
  sfBlockSize :: int

type_synonym sentFolderDownloadState = "(string \<times> sentFolderFileDownloadState) list"

definition appendUpdate :: "string \<Rightarrow> Vector \<Rightarrow> int list \<Rightarrow> int \<Rightarrow> FileDownloadProgressUpdate" where
  "appendUpdate n v is bz = \<lparr>uType = UpdateAppend, uName = n, uVersion = v, uBlockIndexes = is, uBlockSize = bz\<rparr>"

definition forgetUpdate :: "string \<Rightarrow> Vector \<Rightarrow> FileDownloadProgressUpdate" where
  "forgetUpdate n v = \<lparr>uType = UpdateForget, uName = n, uVersion = v, uBlockIndexes = [], uBlockSize = 0\<rparr>"

text \<open>One puller: the new announcements, and the state after them. The slice of the new blocks panics when the list of available blocks has shrunk.\<close>

definition sentUpdateOne ::
  "sharedPullerState \<Rightarrow> sentFolderDownloadState \<Rightarrow> (unit, FileDownloadProgressUpdate list \<times> sentFolderDownloadState) result" where
  "sentUpdateOne puller fs =
     (let name = fName (sFile puller);
          idxs = Available puller;
          ver = fVersion (sFile puller);
          upd = AvailableUpdated puller;
          cre = created puller;
          bz = FileInfo_BlockSize (sFile puller);
          fresh = \<lparr>sfBlockIndexes = idxs, sfVersion = ver, sfUpdated = upd, sfCreated = cre, sfBlockSize = bz\<rparr>
      in case map_of fs name of
           None \<Rightarrow>
             (if idxs \<noteq> [] then Ok ([appendUpdate name ver idxs bz], AList.update name fresh fs) else Ok ([], fs))
         | Some l \<Rightarrow>
             (if time_Equal upd (sfUpdated l) \<and> VEqual ver (sfVersion l) then Ok ([], fs)
              else if \<not> VEqual ver (sfVersion l) \<or> \<not> time_Equal cre (sfCreated l) then
                Ok ([forgetUpdate name (sfVersion l), appendUpdate name ver idxs bz], AList.update name fresh fs)
              else
                bind_result (go_slice (int (length (sfBlockIndexes l))) (int (length idxs)) idxs) (\<lambda>newBlocks.
                  Ok (if newBlocks \<noteq> [] then [appendUpdate name (sfVersion l) newBlocks bz] else [],
                      AList.update name (l\<lparr>sfBlockIndexes := sfBlockIndexes l @ newBlocks, sfUpdated := upd\<rparr>) fs))))"

fun sentUpdateLoop ::
  "sharedPullerState list \<Rightarrow> sentFolderDownloadState \<Rightarrow> (unit, FileDownloadProgressUpdate list \<times> sentFolderDownloadState) result" where
  "sentUpdateLoop [] fs = Ok ([], fs)"
| "sentUpdateLoop (p # ps) fs =
     bind_result (sentUpdateOne p fs) (\<lambda>(us, fs1).
     bind_result (sentUpdateLoop ps fs1) (\<lambda>(vs, fs2). Ok (us @ vs, fs2)))"

definition sentUpdate ::
  "sharedPullerState list \<Rightarrow> sentFolderDownloadState \<Rightarrow> (unit, FileDownloadProgressUpdate list \<times> sentFolderDownloadState) result" where
  "sentUpdate pullers fs =
     bind_result (sentUpdateLoop pullers fs) (\<lambda>(us, fs1).
       let seen = map (\<lambda>p. fName (sFile p)) pullers;
           gone = filter (\<lambda>(n, i). n \<notin> set seen) fs1
       in Ok (us @ map (\<lambda>(n, i). forgetUpdate n (sfVersion i)) gone, filter (\<lambda>(n, i). n \<in> set seen) fs1))"

definition sentDestroy :: "sentFolderDownloadState \<Rightarrow> FileDownloadProgressUpdate list \<times> sentFolderDownloadState" where
  "sentDestroy fs = (map (\<lambda>(n, i). forgetUpdate n (sfVersion i)) fs, [])"

type_synonym sentDownloadState = "(string \<times> sentFolderDownloadState) list"

definition sdUpdate ::
  "string \<Rightarrow> sharedPullerState list \<Rightarrow> sentDownloadState \<Rightarrow> (unit, FileDownloadProgressUpdate list \<times> sentDownloadState) result" where
  "sdUpdate folder pullers s =
     bind_result (sentUpdate pullers (case map_of s folder of None \<Rightarrow> [] | Some fs \<Rightarrow> fs)) (\<lambda>(us, fs').
       Ok (us, AList.update folder fs' s))"

definition sdFolders :: "sentDownloadState \<Rightarrow> string list" where
  "sdFolders s = map fst s"

definition sdCleanup :: "string \<Rightarrow> sentDownloadState \<Rightarrow> FileDownloadProgressUpdate list \<times> sentDownloadState" where
  "sdCleanup folder s =
     (case map_of s folder of
        None \<Rightarrow> ([], s)
      | Some fs \<Rightarrow> (fst (sentDestroy fs), AList.delete folder s))"

section \<open>The receiver mirrors the sender\<close>

definition same_file :: "sentFolderFileDownloadState \<Rightarrow> deviceFolderFileDownloadState \<Rightarrow> bool" where
  "same_file s d \<longleftrightarrow> sfBlockIndexes s = dfBlockIndexes d \<and> sfVersion s = dfVersion d \<and> sfBlockSize s = dfBlockSize d"

definition mirrors :: "sentFolderDownloadState \<Rightarrow> deviceFolderDownloadState \<Rightarrow> bool" where
  "mirrors s d \<longleftrightarrow> (\<forall>n. rel_option same_file (map_of s n) (map_of d n))"

definition viaWire :: "FileDownloadProgressUpdate list \<Rightarrow> FileDownloadProgressUpdate list" where
  "viaWire us = dpUpdates (downloadProgressFromWire (DownloadProgress_toWire \<lparr>dpFolder = [], dpUpdates = us\<rparr>))"

lemma VEqual_refl [simp]: "VEqual v v"
proof -
  have "compareLoop v v r = r" for r
    by (induction v) (simp_all add: compareLoop_unfold counterAt_def compareStep_def continue_def)
  then show ?thesis by (simp add: VEqual_def Compare_def)
qed

lemma VEqual_sym: "VEqual a b \<longleftrightarrow> VEqual b a"
  unfolding VEqual_def Compare_swap [of b a] by (cases "Compare a b") simp_all

lemma dfUpdate_append [simp]: "dfUpdate (us @ vs) p = dfUpdate vs (dfUpdate us p)"
  by (simp add: dfUpdate_def)

lemma dfUpdate_simps [simp]: "dfUpdate [] p = p" "dfUpdate (u # us) p = dfUpdate us (dfUpdateOne u p)"
  by (simp_all add: dfUpdate_def)

lemma mirrorsD: "mirrors s d \<Longrightarrow> rel_option same_file (map_of s n) (map_of d n)"
  by (simp add: mirrors_def)

lemma mirrors_update: "mirrors s d \<Longrightarrow> same_file l m \<Longrightarrow> mirrors (AList.update n l s) (AList.update n m d)"
  by (simp add: mirrors_def update_conv')

lemma mirrors_forget:
  assumes "mirrors s d" and "map_of s n = Some l"
  shows "mirrors (AList.delete n s) (dfUpdateOne (forgetUpdate n (sfVersion l)) d)"
proof -
  obtain m where m: "map_of d n = Some m" "same_file l m"
    using mirrorsD [OF assms(1), of n] assms(2) by (cases "map_of d n") auto
  then have "dfUpdateOne (forgetUpdate n (sfVersion l)) d = AList.delete n d"
    by (simp add: dfUpdateOne_def forgetUpdate_def same_file_def)
  then show ?thesis using assms(1) by (simp add: mirrors_def delete_conv')
qed

lemma mirrors_append_new:
  assumes "mirrors s d" and "map_of s n = None" and "same_file l \<lparr>dfBlockIndexes = is, dfVersion = v, dfBlockSize = bz\<rparr>"
  shows "mirrors (AList.update n l s) (dfUpdateOne (appendUpdate n v is bz) d)"
proof -
  have "map_of d n = None" using mirrorsD [OF assms(1), of n] assms(2) by (cases "map_of d n") auto
  then show ?thesis
    using mirrors_update [OF assms(1,3)] by (simp add: dfUpdateOne_def appendUpdate_def)
qed

lemma mirrors_append_old:
  assumes "mirrors s d" and "map_of s n = Some l"
  shows "mirrors (AList.update n (l\<lparr>sfBlockIndexes := sfBlockIndexes l @ is, sfUpdated := t\<rparr>) s)
    (dfUpdate (if is \<noteq> [] then [appendUpdate n (sfVersion l) is bz] else []) d)"
proof -
  obtain m where m: "map_of d n = Some m" "same_file l m"
    using mirrorsD [OF assms(1), of n] assms(2) by (cases "map_of d n") auto
  show ?thesis
  proof (cases "is = []")
    case True
    then show ?thesis using assms(1) m by (auto simp: mirrors_def update_conv' same_file_def)
  next
    case False
    have "dfUpdateOne (appendUpdate n (sfVersion l) is bz) d =
        AList.update n (m\<lparr>dfBlockIndexes := dfBlockIndexes m @ is\<rparr>) d"
      using m by (simp add: dfUpdateOne_def appendUpdate_def same_file_def)
    then show ?thesis using False mirrors_update [OF assms(1)] m(2) by (simp add: same_file_def)
  qed
qed

lemma update_delete: "mirrors (AList.update n l (AList.delete n s)) d \<longleftrightarrow> mirrors (AList.update n l s) d"
  by (simp add: mirrors_def update_conv' delete_conv')

lemma sentUpdateOne_mirrors:
  assumes "mirrors s d" and "sentUpdateOne p s = Ok (us, s')"
  shows "mirrors s' (dfUpdate us d)"
proof (cases "map_of s (fName (sFile p))")
  case None
  then show ?thesis
    using assms
    by (auto simp: sentUpdateOne_def Let_def same_file_def split: if_splits intro!: mirrors_append_new [OF assms(1) None])
next
  case (Some l)
  let ?n = "fName (sFile p)" and ?v = "fVersion (sFile p)"
  consider "time_Equal (AvailableUpdated p) (sfUpdated l) \<and> VEqual ?v (sfVersion l)"
    | "\<not> (time_Equal (AvailableUpdated p) (sfUpdated l) \<and> VEqual ?v (sfVersion l))"
      "\<not> VEqual ?v (sfVersion l) \<or> \<not> time_Equal (created p) (sfCreated l)"
    | "\<not> (time_Equal (AvailableUpdated p) (sfUpdated l) \<and> VEqual ?v (sfVersion l))"
      "\<not> (\<not> VEqual ?v (sfVersion l) \<or> \<not> time_Equal (created p) (sfCreated l))" by blast
  then show ?thesis
  proof cases
    case 1
    then show ?thesis using assms Some by (simp add: sentUpdateOne_def Let_def)
  next
    case 2
    define fresh where "fresh = \<lparr>sfBlockIndexes = Available p, sfVersion = ?v, sfUpdated = AvailableUpdated p,
      sfCreated = created p, sfBlockSize = FileInfo_BlockSize (sFile p)\<rparr>"
    have us: "us = [forgetUpdate ?n (sfVersion l), appendUpdate ?n ?v (Available p) (FileInfo_BlockSize (sFile p))]"
      "s' = AList.update ?n fresh s"
      using assms(2) 2 Some by (simp_all add: sentUpdateOne_def Let_def fresh_def)
    have "mirrors (AList.update ?n fresh (AList.delete ?n s)) (dfUpdate us d)"
      unfolding us(1) dfUpdate_simps
      by (rule mirrors_append_new [OF mirrors_forget [OF assms(1) Some]])
        (simp_all add: delete_conv' fresh_def same_file_def)
    then show ?thesis unfolding update_delete us(2) .
  next
    case 3
    obtain new where new: "go_slice (int (length (sfBlockIndexes l))) (int (length (Available p))) (Available p) = (Ok new :: (unit, int list) result)"
        and r: "us = (if new \<noteq> [] then [appendUpdate ?n (sfVersion l) new (FileInfo_BlockSize (sFile p))] else [])"
          "s' = AList.update ?n (l\<lparr>sfBlockIndexes := sfBlockIndexes l @ new, sfUpdated := AvailableUpdated p\<rparr>) s"
      using assms(2) 3 Some by (auto simp: sentUpdateOne_def Let_def bind_result_Ok)
    show ?thesis unfolding r by (rule mirrors_append_old [OF assms(1) Some])
  qed
qed

lemma sentUpdateLoop_mirrors: "mirrors s d \<Longrightarrow> sentUpdateLoop ps s = Ok (us, s') \<Longrightarrow> mirrors s' (dfUpdate us d)"
proof (induction ps arbitrary: s d us)
  case (Cons p ps)
  then obtain us1 s1 us2 where "sentUpdateOne p s = Ok (us1, s1)" "sentUpdateLoop ps s1 = Ok (us2, s')" "us = us1 @ us2"
    by (auto simp: bind_result_Ok)
  then show ?case using Cons.IH [OF sentUpdateOne_mirrors [OF Cons.prems(1)]] by simp
qed simp

lemma mirrors_forget_many:
  assumes "distinct (map fst s)" and "mirrors s d"
  shows "mirrors (filter (\<lambda>(n, i). P n) s) (dfUpdate (map (\<lambda>(n, i). forgetUpdate n (sfVersion i)) (filter (\<lambda>(n, i). \<not> P n) s)) d)"
proof -
  have key: "mirrors (fold (\<lambda>n. AList.delete n) (map fst gs) s) (dfUpdate (map (\<lambda>(n, i). forgetUpdate n (sfVersion i)) gs) d)"
    if "mirrors s d" "distinct (map fst gs)" "\<forall>(n, i)\<in>set gs. map_of s n = Some i" for gs s d
    using that
  proof (induction gs arbitrary: s d)
    case (Cons g gs)
    obtain n i where g: "g = (n, i)" by fastforce
    have "\<forall>(m, j)\<in>set gs. map_of (AList.delete n s) m = Some j"
      using Cons.prems(2,3) g by (auto simp: delete_conv' rev_image_eqI)
    moreover have "mirrors (AList.delete n s) (dfUpdateOne (forgetUpdate n (sfVersion i)) d)"
      using Cons.prems(1,3) g by (intro mirrors_forget) auto
    ultimately show ?case using Cons.IH Cons.prems(2) g by simp
  qed simp
  let ?gs = "filter (\<lambda>(n, i). \<not> P n) s"
  have del: "map_of (fold (\<lambda>n. AList.delete n) ks s) m = (if m \<in> set ks then None else map_of s m)" for ks m s
    by (induction ks arbitrary: s) (auto simp: delete_conv')
  have fil: "map_of (filter (\<lambda>(n, i). P n) s) m = (if P m then map_of s m else None)" for m
    by (induction s) auto
  have gone: "m \<in> set (map fst ?gs) \<longleftrightarrow> \<not> P m \<and> m \<in> fst ` set s" for m by force
  have "map_of (filter (\<lambda>(n, i). P n) s) m = map_of (fold (\<lambda>n. AList.delete n) (map fst ?gs) s) m" for m
    unfolding del fil gone using map_of_eq_None_iff [of s m] by auto
  then have "map_of (filter (\<lambda>(n, i). P n) s) = map_of (fold (\<lambda>n. AList.delete n) (map fst ?gs) s)" by blast
  moreover have "mirrors (fold (\<lambda>n. AList.delete n) (map fst ?gs) s) (dfUpdate (map (\<lambda>(n, i). forgetUpdate n (sfVersion i)) ?gs) d)"
    using assms by (intro key) (auto simp: distinct_map_filter)
  ultimately show ?thesis by (simp add: mirrors_def)
qed

text \<open>Announcements survive the wire when the numbers fit 32 bits.\<close>

definition upd_fits :: "FileDownloadProgressUpdate \<Rightarrow> bool" where
  "upd_fits u \<longleftrightarrow> list_all is_i32 (uBlockIndexes u) \<and> is_i32 (uBlockSize u)"

definition puller_fits :: "sharedPullerState \<Rightarrow> bool" where
  "puller_fits p \<longleftrightarrow> list_all is_i32 (Available p) \<and> is_i32 (FileInfo_BlockSize (sFile p))"

lemma update_wire [wire_simps]:
  "upd_fits u \<Longrightarrow> fileDownloadProgressUpdateFromWire (FileDownloadProgressUpdate_toWire u) = u"
  by (cases u) (auto simp: upd_fits_def fileDownloadProgressUpdateFromWire_def FileDownloadProgressUpdate_toWire_def
      wire_simps list_all_iff intro!: map_idI)

lemma viaWire_id: "list_all upd_fits us \<Longrightarrow> viaWire us = us"
  by (auto simp: viaWire_def downloadProgressFromWire_def DownloadProgress_toWire_def list_all_iff wire_simps intro!: map_idI)

lemma forget_fits [simp]: "upd_fits (forgetUpdate n v)"
  by (simp add: upd_fits_def forgetUpdate_def is_i32_def)

lemma append_fits [simp]: "upd_fits (appendUpdate n v is bz) \<longleftrightarrow> list_all is_i32 is \<and> is_i32 bz"
  by (simp add: upd_fits_def appendUpdate_def)

lemma go_slice_fits: "list_all P xs \<Longrightarrow> go_slice a b xs = Ok ys \<Longrightarrow> list_all P ys"
  by (auto simp: go_slice_def list_all_iff split: if_splits dest: in_set_takeD in_set_dropD)

lemma sentUpdateOne_fits:
  "puller_fits p \<Longrightarrow> sentUpdateOne p s = Ok (us, s') \<Longrightarrow> list_all upd_fits us"
  by (auto simp: sentUpdateOne_def Let_def puller_fits_def bind_result_Ok go_slice_fits split: option.splits if_splits)

lemma sentUpdateLoop_fits:
  "\<forall>p\<in>set ps. puller_fits p \<Longrightarrow> sentUpdateLoop ps s = Ok (us, s') \<Longrightarrow> list_all upd_fits us"
proof (induction ps arbitrary: s us)
  case (Cons p ps)
  then obtain us1 s1 us2 where "sentUpdateOne p s = Ok (us1, s1)" "sentUpdateLoop ps s1 = Ok (us2, s')" "us = us1 @ us2"
    by (auto simp: bind_result_Ok)
  then show ?case using Cons sentUpdateOne_fits by auto
qed simp

lemma sentUpdateOne_distinct:
  "distinct (map fst s) \<Longrightarrow> sentUpdateOne p s = Ok (us, s') \<Longrightarrow> distinct (map fst s')"
  by (auto simp: sentUpdateOne_def Let_def bind_result_Ok distinct_update split: option.splits if_splits)

lemma sentUpdateLoop_distinct:
  "distinct (map fst s) \<Longrightarrow> sentUpdateLoop ps s = Ok (us, s') \<Longrightarrow> distinct (map fst s')"
proof (induction ps arbitrary: s us)
  case (Cons p ps)
  then obtain us1 s1 us2 where "sentUpdateOne p s = Ok (us1, s1)" "sentUpdateLoop ps s1 = Ok (us2, s')"
    by (auto simp: bind_result_Ok)
  then show ?case using Cons sentUpdateOne_distinct by blast
qed simp

lemma sentUpdate_mirrors:
  assumes "distinct (map fst s)" and "mirrors s d" and "sentUpdate ps s = Ok (us, s')"
  shows "mirrors s' (dfUpdate us d) \<and> distinct (map fst s')"
proof -
  obtain us1 s1 where l: "sentUpdateLoop ps s = Ok (us1, s1)"
      and r: "us = us1 @ map (\<lambda>(n, i). forgetUpdate n (sfVersion i)) (filter (\<lambda>(n, i). n \<notin> set (map (\<lambda>p. fName (sFile p)) ps)) s1)"
        "s' = filter (\<lambda>(n, i). n \<in> set (map (\<lambda>p. fName (sFile p)) ps)) s1"
    using assms(3) by (auto simp: sentUpdate_def Let_def bind_result_Ok)
  have d1: "distinct (map fst s1)" by (rule sentUpdateLoop_distinct [OF assms(1) l])
  show ?thesis
    unfolding r using mirrors_forget_many [OF d1 sentUpdateLoop_mirrors [OF assms(2) l]] d1
    by (simp add: distinct_map_filter)
qed

lemma sentUpdate_fits: "\<forall>p\<in>set ps. puller_fits p \<Longrightarrow> sentUpdate ps s = Ok (us, s') \<Longrightarrow> list_all upd_fits us"
  using sentUpdateLoop_fits [of ps s] by (auto simp: sentUpdate_def Let_def bind_result_Ok list_all_iff)

section \<open>A contract for announcements\<close>

text \<open>
  A sender that computes messages from its state, a receiver that applies them, and a relation
  between their states that a message re-establishes; then it holds after any number of rounds.
\<close>

fun rounds :: "('i \<Rightarrow> 's \<Rightarrow> ('m \<times> 's) option) \<Rightarrow> ('m \<Rightarrow> 'r \<Rightarrow> 'r) \<Rightarrow> 'i list \<Rightarrow> 's \<times> 'r \<Rightarrow> ('s \<times> 'r) option" where
  "rounds send recv [] sr = Some sr"
| "rounds send recv (i # is) (s, r) =
     (case send i s of None \<Rightarrow> None | Some (m, s') \<Rightarrow> rounds send recv is (s', recv m r))"

locale announcer =
  fixes send :: "'i \<Rightarrow> 's \<Rightarrow> ('m \<times> 's) option" and recv :: "'m \<Rightarrow> 'r \<Rightarrow> 'r" and rel :: "'s \<Rightarrow> 'r \<Rightarrow> bool"
  assumes round_law: "rel s r \<Longrightarrow> send i s = Some (m, s') \<Longrightarrow> rel s' (recv m r)"
begin

lemma rounds_rel: "rel s r \<Longrightarrow> rounds send recv is (s, r) = Some (s', r') \<Longrightarrow> rel s' r'"
  by (induction "is" arbitrary: s r) (auto split: option.splits intro: round_law)

end

definition sendRound :: "sharedPullerState list \<Rightarrow> sentFolderDownloadState \<Rightarrow> (FileDownloadProgressUpdate list \<times> sentFolderDownloadState) option" where
  "sendRound ps s =
     (if \<forall>p\<in>set ps. puller_fits p then (case sentUpdate ps s of Ok r \<Rightarrow> Some r | _ \<Rightarrow> None) else None)"

definition recvRound :: "FileDownloadProgressUpdate list \<Rightarrow> deviceFolderDownloadState \<Rightarrow> deviceFolderDownloadState" where
  "recvRound us d = dfUpdate (viaWire us) d"

interpretation downloads: announcer sendRound recvRound "\<lambda>s d. mirrors s d \<and> distinct (map fst s)"
proof
  fix s d ps us s'
  assume r: "mirrors s d \<and> distinct (map fst s)" and o: "sendRound ps s = Some (us, s')"
  then have f: "\<forall>p\<in>set ps. puller_fits p" and u: "sentUpdate ps s = Ok (us, s')"
    by (auto simp: sendRound_def split: if_splits result.splits)
  show "mirrors s' (recvRound us d) \<and> distinct (map fst s')"
    unfolding recvRound_def viaWire_id [OF sentUpdate_fits [OF f u]] using sentUpdate_mirrors r u by blast
qed

section \<open>What the receiver knows is what the sender has\<close>

definition pName :: "sharedPullerState \<Rightarrow> string" where
  "pName p = fName (sFile p)"

text \<open>
  What the sender relies on: for a puller it has announced before in the same version, the list
  of available blocks has only grown since, and it is the same if its time stamp is.
\<close>

definition tracked :: "sentFolderDownloadState \<Rightarrow> sharedPullerState \<Rightarrow> bool" where
  "tracked s p \<longleftrightarrow> (\<forall>l. map_of s (pName p) = Some l \<and> VEqual (fVersion (sFile p)) (sfVersion l) \<longrightarrow>
     (if time_Equal (AvailableUpdated p) (sfUpdated l) then sfBlockIndexes l = Available p
      else time_Equal (created p) (sfCreated l) \<longrightarrow> prefix (sfBlockIndexes l) (Available p)))"

definition covers :: "sentFolderDownloadState \<Rightarrow> sharedPullerState \<Rightarrow> bool" where
  "covers s p \<longleftrightarrow> (case map_of s (pName p) of
     None \<Rightarrow> Available p = []
   | Some l \<Rightarrow> VEqual (fVersion (sFile p)) (sfVersion l) \<and> sfBlockIndexes l = Available p)"

lemma go_slice_suffix:
  "prefix xs ys \<Longrightarrow> \<exists>zs. go_slice (int (length xs)) (int (length ys)) ys = Ok zs \<and> xs @ zs = ys"
  by (auto simp: go_slice_def prefix_def)

lemma sentUpdateOne_covers:
  assumes "tracked s p"
  shows "\<exists>us s'. sentUpdateOne p s = Ok (us, s') \<and> covers s' p \<and> (\<forall>m. m \<noteq> pName p \<longrightarrow> map_of s' m = map_of s m)"
proof (cases "map_of s (pName p)")
  case None
  then show ?thesis by (auto simp: sentUpdateOne_def Let_def covers_def pName_def update_conv')
next
  case (Some l)
  let ?same = "VEqual (fVersion (sFile p)) (sfVersion l)"
  consider "time_Equal (AvailableUpdated p) (sfUpdated l)" ?same
    | "\<not> (time_Equal (AvailableUpdated p) (sfUpdated l) \<and> ?same)" "\<not> ?same \<or> \<not> time_Equal (created p) (sfCreated l)"
    | "\<not> time_Equal (AvailableUpdated p) (sfUpdated l)" ?same "time_Equal (created p) (sfCreated l)" by blast
  then show ?thesis
  proof cases
    case 1
    then show ?thesis using assms Some by (auto simp: sentUpdateOne_def Let_def covers_def tracked_def pName_def)
  next
    case 2
    then show ?thesis using Some by (auto simp: sentUpdateOne_def Let_def covers_def pName_def update_conv')
  next
    case 3
    then have "prefix (sfBlockIndexes l) (Available p)" using assms Some by (auto simp: tracked_def)
    then obtain zs where z: "go_slice (int (length (sfBlockIndexes l))) (int (length (Available p))) (Available p) = (Ok zs :: (unit, int list) result)"
        "sfBlockIndexes l @ zs = Available p" using go_slice_suffix by blast
    show ?thesis
      using 3 Some z by (auto simp: sentUpdateOne_def Let_def covers_def pName_def update_conv')
  qed
qed

lemma tracked_cong: "map_of s' (pName p) = map_of s (pName p) \<Longrightarrow> tracked s' p \<longleftrightarrow> tracked s p"
  by (simp add: tracked_def)

lemma covers_cong: "map_of s' (pName p) = map_of s (pName p) \<Longrightarrow> covers s' p \<longleftrightarrow> covers s p"
  by (simp add: covers_def)

lemma sentUpdateLoop_covers:
  assumes "distinct (map pName ps)" and "\<forall>p\<in>set ps. tracked s p"
  shows "\<exists>us s'. sentUpdateLoop ps s = Ok (us, s') \<and> (\<forall>p\<in>set ps. covers s' p)
    \<and> (\<forall>m. m \<notin> pName ` set ps \<longrightarrow> map_of s' m = map_of s m)"
  using assms
proof (induction ps arbitrary: s)
  case (Cons p ps)
  obtain us s1 where 1: "sentUpdateOne p s = Ok (us, s1)" "covers s1 p" "\<forall>m. m \<noteq> pName p \<longrightarrow> map_of s1 m = map_of s m"
    using sentUpdateOne_covers [of s p] Cons.prems(2) by auto
  have "\<forall>q\<in>set ps. tracked s1 q"
    using Cons.prems 1(3) tracked_cong [of s1 _ s] by (auto simp: image_iff)
  then obtain vs s2 where 2: "sentUpdateLoop ps s1 = Ok (vs, s2)" "\<forall>q\<in>set ps. covers s2 q"
      "\<forall>m. m \<notin> pName ` set ps \<longrightarrow> map_of s2 m = map_of s1 m"
    using Cons.IH [of s1] Cons.prems(1) by auto
  have "covers s2 p" using covers_cong [of s2 p s1] 1(2) 2(3) Cons.prems(1) by auto
  then show ?case using 1 2 by auto
qed simp

lemma mirrors_Has:
  assumes "mirrors s d"
  shows "dfHas n v i d \<longleftrightarrow> (\<exists>l. map_of s n = Some l \<and> VEqual (sfVersion l) v \<and> i \<in> set (sfBlockIndexes l))"
  using mirrorsD [OF assms, of n]
  by (cases "map_of s n"; cases "map_of d n") (auto simp: dfHas_def same_file_def)


definition announced0 :: sharedPullerState where
  "announced0 = newSharedPullerState (time_Unix 5 0) (fi_blank\<lparr>fName := ''a'', fSize := 2\<rparr>) ''f'' ''t'' [] [3]
     False False fi_blank False False []"


end
