(* ===== verification/Progress_Emitter.thy ===== *)
theory Progress_Emitter
  imports Download_State
begin

text \<open>
  The progress emitter, \<open>lib/model/progressemitter.go\<close>: it knows the files being pulled in each
  folder and announces at intervals to each subscribed device which blocks have become
  available. A puller is referred to by an address, and \<open>heap\<close> is the current content of the
  shared states, which the pulling routines change meanwhile. The methods run under the
  emitter's mutex.
\<close>

type_synonym pref = nat
type_synonym pheap = "pref \<Rightarrow> sharedPullerState"

record ProgressEmitter =
  registry :: "(string \<times> (string \<times> pref) list) list"
  interval :: int
  minBlocks :: int
  sentDownloadStates :: "(DeviceID \<times> sentDownloadState) list"
  connections :: "(DeviceID \<times> nat) list"
  foldersByConns :: "(DeviceID \<times> string list) list"
  disabled :: bool
  timerReset :: bool

record progressUpdate =
  puConn :: nat
  puFolder :: string
  puUpdates :: "FileDownloadProgressUpdate list"

definition lenRegistryLocked :: "ProgressEmitter \<Rightarrow> nat" where
  "lenRegistryLocked t = (\<Sum>(f, ps)\<leftarrow>registry t. length ps)"

definition emptyLocked :: "ProgressEmitter \<Rightarrow> bool" where
  "emptyLocked t = list_all (\<lambda>(f, ps). ps = []) (registry t)"

definition folderPullers :: "string \<Rightarrow> ProgressEmitter \<Rightarrow> (string \<times> pref) list" where
  "folderPullers folder t = (case map_of (registry t) folder of None \<Rightarrow> [] | Some ps \<Rightarrow> ps)"

definition Register :: "pheap \<Rightarrow> pref \<Rightarrow> ProgressEmitter \<Rightarrow> ProgressEmitter" where
  "Register heap s t =
     (if disabled t then t
      else
        let folder = sFolder (heap s) in
        t\<lparr>timerReset := timerReset t \<or> emptyLocked t,
          registry := AList.update folder (AList.update (fName (sFile (heap s))) s (folderPullers folder t)) (registry t)\<rparr>)"

text \<open>Deleting from a folder that has never had a puller deletes from a nil map, which does nothing.\<close>

definition Deregister :: "pheap \<Rightarrow> pref \<Rightarrow> ProgressEmitter \<Rightarrow> ProgressEmitter" where
  "Deregister heap s t =
     (if disabled t then t
      else
        let folder = sFolder (heap s) in
        case map_of (registry t) folder of
          None \<Rightarrow> t
        | Some ps \<Rightarrow> t\<lparr>registry := AList.update folder (AList.delete (fName (sFile (heap s))) ps) (registry t)\<rparr>)"

definition BytesCompleted :: "pheap \<Rightarrow> string \<Rightarrow> ProgressEmitter \<Rightarrow> int" where
  "BytesCompleted heap folder t = (\<Sum>(n, s)\<leftarrow>folderPullers folder t. pBytesDone (Progress (heap s)))"

text \<open>The event with the progress of all pullers.\<close>

definition downloadProgressEvent :: "pheap \<Rightarrow> ProgressEmitter \<Rightarrow> (string \<times> (string \<times> PullerProgress) list) list" where
  "downloadProgressEvent heap t =
     map (\<lambda>(f, ps). (f, map (\<lambda>(n, s). (n, Progress (heap s))) ps)) (filter (\<lambda>(f, ps). ps \<noteq> []) (registry t))"

definition temporaryIndexSubscribe :: "DeviceID \<Rightarrow> nat \<Rightarrow> string list \<Rightarrow> ProgressEmitter \<Rightarrow> ProgressEmitter" where
  "temporaryIndexSubscribe i conn folders t =
     t\<lparr>connections := AList.update i conn (connections t), foldersByConns := AList.update i folders (foldersByConns t)\<rparr>"

definition temporaryIndexUnsubscribe :: "DeviceID \<Rightarrow> ProgressEmitter \<Rightarrow> ProgressEmitter" where
  "temporaryIndexUnsubscribe i t =
     t\<lparr>connections := AList.delete i (connections t), foldersByConns := AList.delete i (foldersByConns t)\<rparr>"

definition foldersOf :: "DeviceID \<Rightarrow> ProgressEmitter \<Rightarrow> string list" where
  "foldersOf i t = (case map_of (foldersByConns t) i of None \<Rightarrow> [] | Some fs \<Rightarrow> fs)"

section \<open>Computing the announcements\<close>

definition activePullers :: "pheap \<Rightarrow> string \<Rightarrow> ProgressEmitter \<Rightarrow> (string \<times> pref) list \<Rightarrow> sharedPullerState list" where
  "activePullers heap folder t ps =
     filter (\<lambda>p. \<not> (sFolder p \<noteq> folder \<or> IsSymlink (sFile p) \<or> IsDirectory (sFile p)
                    \<or> int (length (fBlocks (sFile p))) \<le> minBlocks t))
       (map (\<lambda>(n, s). heap s) ps)"

text \<open>One folder of one connection, on the announced states.\<close>

definition computeFolder ::
  "pheap \<Rightarrow> ProgressEmitter \<Rightarrow> DeviceID \<Rightarrow> nat \<Rightarrow> string \<Rightarrow> (DeviceID \<times> sentDownloadState) list
     \<Rightarrow> (unit, progressUpdate list \<times> (DeviceID \<times> sentDownloadState) list) result" where
  "computeFolder heap t i conn folder sent =
     (case map_of (registry t) folder of
        None \<Rightarrow> Ok ([], sent)
      | Some ps \<Rightarrow>
          bind_result (sdUpdate folder (activePullers heap folder t ps) (case map_of sent i of None \<Rightarrow> [] | Some st \<Rightarrow> st))
            (\<lambda>(us, st'). Ok (if us \<noteq> [] then [\<lparr>puConn = conn, puFolder = folder, puUpdates = us\<rparr>] else [],
                             AList.update i st' sent)))"

fun computeFolders ::
  "pheap \<Rightarrow> ProgressEmitter \<Rightarrow> DeviceID \<Rightarrow> nat \<Rightarrow> string list \<Rightarrow> (DeviceID \<times> sentDownloadState) list
     \<Rightarrow> (unit, progressUpdate list \<times> (DeviceID \<times> sentDownloadState) list) result" where
  "computeFolders heap t i conn [] sent = Ok ([], sent)"
| "computeFolders heap t i conn (f # fs) sent =
     bind_result (computeFolder heap t i conn f sent) (\<lambda>(us, sent1).
     bind_result (computeFolders heap t i conn fs sent1) (\<lambda>(vs, sent2). Ok (us @ vs, sent2)))"

fun computeConns ::
  "pheap \<Rightarrow> ProgressEmitter \<Rightarrow> (DeviceID \<times> nat) list \<Rightarrow> (DeviceID \<times> sentDownloadState) list
     \<Rightarrow> (unit, progressUpdate list \<times> (DeviceID \<times> sentDownloadState) list) result" where
  "computeConns heap t [] sent = Ok ([], sent)"
| "computeConns heap t ((i, conn) # cs) sent =
     bind_result (computeFolders heap t i conn (foldersOf i t) sent) (\<lambda>(us, sent1).
     bind_result (computeConns heap t cs sent1) (\<lambda>(vs, sent2). Ok (us @ vs, sent2)))"

definition computeProgressUpdates :: "pheap \<Rightarrow> ProgressEmitter \<Rightarrow> (unit, progressUpdate list \<times> ProgressEmitter) result" where
  "computeProgressUpdates heap t =
     bind_result (computeConns heap t (connections t) (sentDownloadStates t)) (\<lambda>(us, sent).
       let connected = filter (\<lambda>(i, st). map_of (connections t) i \<noteq> None) sent;
           shared = map (\<lambda>(i, st). (i, filter (\<lambda>(folder, fs). folder \<in> set (foldersOf i t)) st)) connected
       in Ok (us, t\<lparr>sentDownloadStates := shared\<rparr>))"

text \<open>One tick of \<open>Serve\<close>, with the time and the count of the last change seen.\<close>

definition serveTick ::
  "pheap \<Rightarrow> go_time \<times> nat \<Rightarrow> ProgressEmitter \<Rightarrow> (unit, progressUpdate list \<times> (go_time \<times> nat) \<times> ProgressEmitter) result" where
  "serveTick heap prev t =
     (let newCount = lenRegistryLocked t;
          stamps = concat (map (\<lambda>(f, ps). map (\<lambda>(n, s). Updated (heap s)) ps) (registry t));
          newLastUpdated = fold (\<lambda>u l. if time_After u l then u else l) stamps (fst prev);
          t1 = (if newCount \<noteq> 0 then t\<lparr>timerReset := True\<rparr> else t\<lparr>timerReset := False\<rparr>)
      in if \<not> time_Equal newLastUpdated (fst prev) \<or> newCount \<noteq> snd prev then
           bind_result (computeProgressUpdates heap t1) (\<lambda>(us, t2). Ok (us, (newLastUpdated, newCount), t2))
         else Ok ([], prev, t1))"

section \<open>Configuration\<close>

definition clearLocked :: "ProgressEmitter \<Rightarrow> progressUpdate list \<times> ProgressEmitter" where
  "clearLocked t =
     (concat (map (\<lambda>(i, st).
        case map_of (connections t) i of
          None \<Rightarrow> []
        | Some conn \<Rightarrow>
            map (\<lambda>(f, fs). \<lparr>puConn = conn, puFolder = f, puUpdates = fst (sentDestroy fs)\<rparr>)
              (filter (\<lambda>(f, fs). fst (sentDestroy fs) \<noteq> []) st))
        (sentDownloadStates t)),
      t\<lparr>registry := [], sentDownloadStates := [], connections := [], foldersByConns := []\<rparr>)"

definition second_ns :: int where "second_ns = 10 ^ 9"

definition CommitConfiguration :: "int \<Rightarrow> int \<Rightarrow> ProgressEmitter \<Rightarrow> progressUpdate list \<times> ProgressEmitter" where
  "CommitConfiguration intervalS minBlks t =
     (let newInterval = to_i64 (intervalS * second_ns);
          (us, t1) =
            (if newInterval > 0 then ([], t\<lparr>disabled := False, interval := newInterval\<rparr>)
             else if \<not> disabled t then (let (us, t') = clearLocked t in (us, t'\<lparr>disabled := True\<rparr>))
             else ([], t));
          t2 = t1\<lparr>minBlocks := minBlks\<rparr>
      in (us, if interval t2 < second_ns then t2\<lparr>interval := second_ns\<rparr> else t2))"

section \<open>Devices know what they were told\<close>

text \<open>
  The states of the subscribed devices, as they evolve by delivering the messages in order;
  \<open>dev\<close> is the device at the other end of a connection.
\<close>

definition ddFolder :: "string \<Rightarrow> deviceDownloadState \<Rightarrow> deviceFolderDownloadState" where
  "ddFolder folder t = (case map_of t folder of None \<Rightarrow> [] | Some f \<Rightarrow> f)"

definition deliver ::
  "(nat \<Rightarrow> DeviceID) \<Rightarrow> progressUpdate \<Rightarrow> (DeviceID \<Rightarrow> deviceDownloadState) \<Rightarrow> (DeviceID \<Rightarrow> deviceDownloadState)" where
  "deliver dev pu r =
     r(dev (puConn pu) := the (ddUpdate (puFolder pu) (viaWire (puUpdates pu)) (Some (r (dev (puConn pu))))))"

definition sentFolder :: "DeviceID \<Rightarrow> string \<Rightarrow> (DeviceID \<times> sentDownloadState) list \<Rightarrow> sentFolderDownloadState" where
  "sentFolder i f sent =
     (case map_of sent i of None \<Rightarrow> [] | Some st \<Rightarrow> (case map_of st f of None \<Rightarrow> [] | Some fs \<Rightarrow> fs))"

definition in_step :: "(DeviceID \<times> sentDownloadState) list \<Rightarrow> (DeviceID \<Rightarrow> deviceDownloadState) \<Rightarrow> DeviceID \<Rightarrow> string \<Rightarrow> bool" where
  "in_step sent r i f \<longleftrightarrow> mirrors (sentFolder i f sent) (ddFolder f (r i)) \<and> distinct (map fst (sentFolder i f sent))"

definition registry_fits :: "pheap \<Rightarrow> ProgressEmitter \<Rightarrow> bool" where
  "registry_fits heap t \<longleftrightarrow> (\<forall>(f, ps)\<in>set (registry t). \<forall>(n, s)\<in>set ps. puller_fits (heap s))"

lemma ddFolder_ddUpdate:
  "ddFolder f (the (ddUpdate g us (Some t))) = (if f = g then dfUpdate us (ddFolder f t) else ddFolder f t)"
  by (simp add: ddFolder_def ddUpdate_def update_conv')

lemma map_of_filter_key: "map_of (filter (\<lambda>(k, v). P k) xs) k = (if P k then map_of xs k else None)"
  by (induction xs) auto

lemma map_of_map_key: "map_of (map (\<lambda>(k, v). (k, g k v)) xs) k = map_option (g k) (map_of xs k)"
  by (induction xs) auto

lemma computeFolder_in_step:
  assumes "computeFolder heap t i conn folder sent = Ok (us, sent')" and "registry_fits heap t" and "dev conn = i"
    and "in_step sent r j g"
  shows "in_step sent' (fold (deliver dev) us r) j g"
proof (cases "map_of (registry t) folder")
  case None
  then show ?thesis using assms by (simp add: computeFolder_def)
next
  case (Some ps)
  let ?act = "activePullers heap folder t ps"
  have fits: "\<forall>p\<in>set ?act. puller_fits p"
    using assms(2) map_of_SomeD [OF Some] by (fastforce simp: registry_fits_def activePullers_def)
  obtain vs fs' where u: "sentUpdate ?act (sentFolder i folder sent) = Ok (vs, fs')"
      and us: "us = (if vs \<noteq> [] then [\<lparr>puConn = conn, puFolder = folder, puUpdates = vs\<rparr>] else [])"
      and sent': "sent' = AList.update i (AList.update folder fs' (case map_of sent i of None \<Rightarrow> [] | Some st \<Rightarrow> st)) sent"
    using assms(1) Some
    by (auto simp: computeFolder_def sdUpdate_def sentFolder_def bind_result_Ok split: option.splits)
  have sf: "sentFolder j g sent' = (if j = i \<and> g = folder then fs' else sentFolder j g sent)"
    unfolding sent' by (auto simp: sentFolder_def update_conv' split: option.splits)
  have df: "ddFolder g (fold (deliver dev) us r j) =
      (if j = i \<and> g = folder then dfUpdate (viaWire vs) (ddFolder g (r j)) else ddFolder g (r j))"
    unfolding us by (simp add: deliver_def assms(3) ddFolder_ddUpdate viaWire_id)
  show ?thesis
  proof (cases "j = i \<and> g = folder")
    case True
    then have m: "mirrors (sentFolder i folder sent) (ddFolder folder (r i))" "distinct (map fst (sentFolder i folder sent))"
      using assms(4) by (auto simp: in_step_def)
    then show ?thesis
      using sentUpdate_mirrors [OF m(2,1) u] True unfolding in_step_def sf df
      by (simp add: viaWire_id [OF sentUpdate_fits [OF fits u]])
  next
    case False
    then have "sentFolder j g sent' = sentFolder j g sent" "ddFolder g (fold (deliver dev) us r j) = ddFolder g (r j)"
      using sf df by presburger+
    then show ?thesis using assms(4) by (simp add: in_step_def)
  qed
qed

lemma computeFolders_in_step:
  "computeFolders heap t i conn fs sent = Ok (us, sent') \<Longrightarrow> registry_fits heap t \<Longrightarrow> dev conn = i \<Longrightarrow> in_step sent r j g \<Longrightarrow>
     in_step sent' (fold (deliver dev) us r) j g"
proof (induction fs arbitrary: sent r us)
  case (Cons f fs)
  then obtain us1 s1 us2 where "computeFolder heap t i conn f sent = Ok (us1, s1)"
      "computeFolders heap t i conn fs s1 = Ok (us2, sent')" "us = us1 @ us2"
    by (auto simp: bind_result_Ok)
  then show ?case using Cons.IH Cons.prems(2-4) computeFolder_in_step by simp
qed simp

lemma computeConns_in_step:
  "computeConns heap t cs sent = Ok (us, sent') \<Longrightarrow> registry_fits heap t \<Longrightarrow> \<forall>(i, c)\<in>set cs. dev c = i \<Longrightarrow> in_step sent r j g \<Longrightarrow>
     in_step sent' (fold (deliver dev) us r) j g"
proof (induction cs arbitrary: sent r us)
  case (Cons c cs)
  obtain i conn where c: "c = (i, conn)" by fastforce
  then obtain us1 s1 us2 where "computeFolders heap t i conn (foldersOf i t) sent = Ok (us1, s1)"
      "computeConns heap t cs s1 = Ok (us2, sent')" "us = us1 @ us2"
    using Cons.prems(1) by (auto simp: bind_result_Ok)
  then show ?case using Cons.IH Cons.prems(2-4) c computeFolders_in_step [of heap t i conn] by simp
qed simp

text \<open>
  Claim C17. A tick of the emitter keeps every subscribed device in step: if for each connected
  device and each folder shared with it the record of what was announced agrees with what the
  device knows, then it does so again after the computed announcements have been delivered,
  with all the bookkeeping for gone connections and folders done.
\<close>

theorem emitter_in_step:
  assumes "computeProgressUpdates heap t = Ok (us, t')" and "registry_fits heap t"
    and "\<forall>(i, c)\<in>set (connections t). dev c = i"
    and "\<forall>(i, c)\<in>set (connections t). \<forall>f\<in>set (foldersOf i t). in_step (sentDownloadStates t) r i f"
  shows "connections t' = connections t \<and>
    (\<forall>(i, c)\<in>set (connections t). \<forall>f\<in>set (foldersOf i t). in_step (sentDownloadStates t') (fold (deliver dev) us r) i f)"
proof -
  obtain sent where c: "computeConns heap t (connections t) (sentDownloadStates t) = Ok (us, sent)"
      and t': "t' = t\<lparr>sentDownloadStates := map (\<lambda>(i, st). (i, filter (\<lambda>(folder, fs). folder \<in> set (foldersOf i t)) st))
          (filter (\<lambda>(i, st). map_of (connections t) i \<noteq> None) sent)\<rparr>"
    using assms(1) by (auto simp: computeProgressUpdates_def Let_def bind_result_Ok)
  have same: "sentFolder i f (sentDownloadStates t') = sentFolder i f sent"
    if "(i, c) \<in> set (connections t)" "f \<in> set (foldersOf i t)" for i c f
  proof -
    have "map_of (connections t) i \<noteq> None" using that(1) by (metis map_of_eq_None_iff fst_conv image_eqI)
    then show ?thesis using that(2)
      by (auto simp: t' sentFolder_def map_of_map_key map_of_filter_key split: option.splits)
  qed
  have "in_step (sentDownloadStates t') (fold (deliver dev) us r) i f"
    if "(i, c) \<in> set (connections t)" "f \<in> set (foldersOf i t)" for i c f
    using computeConns_in_step [OF c assms(2,3)] assms(4) that same [OF that] by (fastforce simp: in_step_def)
  then show ?thesis by (auto simp: t')
qed

definition pulling0 :: pheap where
  "pulling0 s = announced0\<lparr>sFile := fi_blank\<lparr>fName := ''a'', fSize := 2, fBlocks := [\<lparr>bHash = [7, 7], bOffset = 0, bSize = 2\<rparr>]\<rparr>\<rparr>"

definition emitter0 :: ProgressEmitter where
  "emitter0 = \<lparr>registry = [(''f'', [(''a'', 0)])], interval = second_ns, minBlocks = 0, sentDownloadStates = [],
     connections = [([1], 7)], foldersByConns = [([1], [''f''])], disabled = False, timerReset = True\<rparr>"

definition emitter1 :: ProgressEmitter where
  "emitter1 = emitter0\<lparr>sentDownloadStates := [([1], [(''f'', [(''a'',
     \<lparr>sfBlockIndexes = [3], sfVersion = fVersion fi_blank, sfUpdated = time_Unix 5 0, sfCreated = time_Unix 5 0,
      sfBlockSize = MinBlockSize\<rparr>)])])]\<rparr>"

lemmas emitter_samples = emitter1_def emitter0_def pulling0_def announced0_def newSharedPullerState_def

lemma computeProgressUpdates_emitter0:
  "computeProgressUpdates pulling0 emitter0 =
     Ok ([\<lparr>puConn = 7, puFolder = ''f'',
           puUpdates = [\<lparr>uType = UpdateAppend, uName = ''a'', uVersion = fVersion fi_blank,
             uBlockIndexes = [3], uBlockSize = MinBlockSize\<rparr>]\<rparr>], emitter1)"
  by (simp add: emitter_samples computeProgressUpdates_def computeFolder_def foldersOf_def sdUpdate_def sentUpdate_def
      activePullers_def sentUpdateOne_def appendUpdate_def Let_def AvailableUpdated_def Available_def fi_blank_def
      IsSymlink_def IsDirectory_def FileInfo_BlockSize_def MinBlockSize_def)

theorem emitter_in_step_witness:
  "\<exists>us. computeProgressUpdates pulling0 emitter0 = Ok (us, emitter1)
     \<and> in_step (sentDownloadStates emitter1) (fold (deliver (\<lambda>c. [1])) us (\<lambda>i. [])) [1] ''f''"
proof -
  have "in_step (sentDownloadStates emitter0) (\<lambda>i. []) [1] ''f''"
    by (simp add: in_step_def emitter0_def sentFolder_def ddFolder_def mirrors_def)
  moreover have "registry_fits pulling0 emitter0"
    by (simp add: registry_fits_def puller_fits_def emitter_samples Available_def FileInfo_BlockSize_def MinBlockSize_def
        is_i32_def fi_blank_def)
  moreover have "connections emitter0 = [([1], 7)]" "foldersOf [1] emitter0 = [''f'']"
    by (simp_all add: emitter0_def foldersOf_def)
  ultimately show ?thesis
    using emitter_in_step [OF computeProgressUpdates_emitter0, of "\<lambda>c. [1]" "\<lambda>i. []"]
    by (auto simp: computeProgressUpdates_emitter0)
qed

section \<open>A quick reconnection\<close>

lemma computeConns_conn:
  "computeFolders heap t i conn fs sent = Ok ([], sent') \<Longrightarrow> computeFolders heap t i conn' fs sent = Ok ([], sent')"
proof (induction fs arbitrary: sent)
  case (Cons f fs)
  then show ?case
    by (auto simp: bind_result_Ok computeFolder_def split: option.splits if_splits)
qed simp

lemma compute_irrelevant:
  "computeFolders heap (t\<lparr>connections := c, foldersByConns := d\<rparr>) i conn fs sent = computeFolders heap t i conn fs sent"
proof -
  have "computeFolder heap (t\<lparr>connections := c, foldersByConns := d\<rparr>) i conn f sent = computeFolder heap t i conn f sent" for f sent
  proof -
    have "activePullers heap f (t\<lparr>connections := c, foldersByConns := d\<rparr>) ps = activePullers heap f t ps" for ps
      by (simp add: activePullers_def)
    then show ?thesis unfolding computeFolder_def by (cases "map_of (registry t) f") simp_all
  qed
  then show ?thesis by (induction fs arbitrary: sent) simp_all
qed

text \<open>
  Claim C31. A device that reconnects between two ticks is told nothing: when everything had been
  announced over the old connection, unsubscribing and subscribing again leaves the record of
  what was announced in place, so that the next tick computes no update, although the device,
  having lost all its connections, starts from an empty state.
\<close>

theorem reconnect_stale:
  assumes "connections t = [(i, c)]" and "foldersByConns t = [(i, fs)]"
    and "computeProgressUpdates heap t = Ok ([], t)"
  shows "\<exists>t'. computeProgressUpdates heap (temporaryIndexSubscribe i c' fs (temporaryIndexUnsubscribe i t)) = Ok ([], t')
     \<and> sentDownloadStates t' = sentDownloadStates t"
proof -
  let ?t = "temporaryIndexSubscribe i c' fs (temporaryIndexUnsubscribe i t)"
  have t: "?t = t\<lparr>connections := [(i, c')], foldersByConns := [(i, fs)]\<rparr>"
    using assms(1,2) by (simp add: temporaryIndexSubscribe_def temporaryIndexUnsubscribe_def)
  have fo: "foldersOf i t = fs" "foldersOf j ?t = foldersOf j t" for j
    using assms(2) by (auto simp: foldersOf_def t)
  obtain sent where f: "computeFolders heap t i c fs (sentDownloadStates t) = Ok ([], sent)"
      and s: "map (\<lambda>(j, st). (j, filter (\<lambda>(folder, x). folder \<in> set (foldersOf j t)) st))
          (filter (\<lambda>(j, st). map_of (connections t) j \<noteq> None) sent) = sentDownloadStates t"
    using assms(1,3) fo(1) by (auto simp: computeProgressUpdates_def Let_def bind_result_Ok dest!: arg_cong [of _ _ sentDownloadStates])
  have "computeFolders heap ?t i c' fs (sentDownloadStates t) = Ok ([], sent)"
    unfolding t compute_irrelevant by (rule computeConns_conn [OF f])
  then have "computeConns heap ?t (connections ?t) (sentDownloadStates ?t) = Ok ([], sent)"
    using fo by (simp add: t)
  moreover have "(\<lambda>j. map_of (connections ?t) j \<noteq> None) = (\<lambda>j. map_of (connections t) j \<noteq> None)"
    using assms(1) by (auto simp: t)
  ultimately show ?thesis
    using s fo(2) unfolding computeProgressUpdates_def Let_def by (simp add: fun_eq_iff)
qed

theorem reconnect_stale_witness:
  "\<exists>t'. computeProgressUpdates pulling0 (temporaryIndexSubscribe [1] 8 [''f''] (temporaryIndexUnsubscribe [1] emitter1)) = Ok ([], t')
     \<and> sentFolder [1] ''f'' (sentDownloadStates t') \<noteq> []"
proof -
  have "computeProgressUpdates pulling0 emitter1 = Ok ([], emitter1)"
    by (simp add: emitter_samples computeProgressUpdates_def computeFolder_def foldersOf_def sdUpdate_def sentUpdate_def
        activePullers_def sentUpdateOne_def Let_def AvailableUpdated_def fi_blank_def IsSymlink_def IsDirectory_def
        time_Equal_def)
  then have "\<exists>t'. computeProgressUpdates pulling0 (temporaryIndexSubscribe [1] 8 [''f''] (temporaryIndexUnsubscribe [1] emitter1)) = Ok ([], t')
     \<and> sentDownloadStates t' = sentDownloadStates emitter1"
    by (intro reconnect_stale) (simp_all add: emitter1_def emitter0_def)
  then show ?thesis by (auto simp: emitter1_def sentFolder_def)
qed

end
