(* ===== verification/Wire_Messages.thy ===== *)
theory Wire_Messages
  imports Download_State
begin

text \<open>
  The messages of the block exchange protocol and their conversion from and to the generated
  protobuf structures: \<open>lib/protocol/bep_clusterconfig.go\<close>, \<open>bep_index_updates.go\<close>,
  \<open>bep_request_response.go\<close> and \<open>errors.go\<close>. Enumerations of the wire format are open: their values
  are integers, and a peer may send any of them.
\<close>

section \<open>Cluster configuration\<close>

type_synonym Compression = int

abbreviation (input) "CompressionMetadata \<equiv> 0 :: Compression"
abbreviation (input) "CompressionNever \<equiv> 1 :: Compression"
abbreviation (input) "CompressionAlways \<equiv> 2 :: Compression"

type_synonym FolderStopReason = int

abbreviation (input) "FolderStopReasonRunning \<equiv> 0 :: FolderStopReason"
abbreviation (input) "FolderStopReasonPaused \<equiv> 1 :: FolderStopReason"

record Device =
  dvID :: DeviceID
  dvName :: string
  dvAddresses :: "string list"
  dvCompression :: Compression
  dvCertName :: string
  dvMaxSequence :: int
  dvIntroducer :: bool
  dvIndexID :: IndexID
  dvSkipIntroductionRemovals :: bool
  dvEncryptionPasswordToken :: "byte list"

record bep_Device =
  bvId :: "byte list"
  bvName :: string
  bvAddresses :: "string list"
  bvCompression :: int
  bvCertName :: string
  bvMaxSequence :: int
  bvIntroducer :: bool
  bvIndexId :: u64
  bvSkipIntroductionRemovals :: bool
  bvEncryptionPasswordToken :: "byte list"

record Folder =
  foID :: string
  foLabel :: string
  foType :: int
  foStopReason :: FolderStopReason
  foDevices :: "Device list"

record bep_Folder =
  boId :: string
  boLabel :: string
  boType :: int
  boStopReason :: int
  boDevices :: "bep_Device list"

record ClusterConfig =
  ccFolders :: "Folder list"
  ccSecondary :: bool

record bep_ClusterConfig =
  bcFolders :: "bep_Folder list"
  bcSecondary :: bool

definition Device_toWire :: "Device \<Rightarrow> bep_Device" where
  "Device_toWire d =
     \<lparr>bvId = dvID d, bvName = dvName d, bvAddresses = dvAddresses d, bvCompression = dvCompression d,
      bvCertName = dvCertName d, bvMaxSequence = dvMaxSequence d, bvIntroducer = dvIntroducer d,
      bvIndexId = dvIndexID d, bvSkipIntroductionRemovals = dvSkipIntroductionRemovals d,
      bvEncryptionPasswordToken = dvEncryptionPasswordToken d\<rparr>"

text \<open>The conversion \<open>DeviceID(w.Id)\<close> of a slice to an array panics when the slice is too short, and takes its first bytes otherwise.\<close>

definition deviceFromWire :: "bep_Device \<Rightarrow> (unit, Device) result" where
  "deviceFromWire w =
     (if length (bvId w) < DeviceIDLength then Panic
      else Ok \<lparr>dvID = take DeviceIDLength (bvId w), dvName = bvName w, dvAddresses = bvAddresses w,
        dvCompression = bvCompression w, dvCertName = bvCertName w, dvMaxSequence = bvMaxSequence w,
        dvIntroducer = bvIntroducer w, dvIndexID = bvIndexId w,
        dvSkipIntroductionRemovals = bvSkipIntroductionRemovals w,
        dvEncryptionPasswordToken = bvEncryptionPasswordToken w\<rparr>)"

definition Folder_toWire :: "Folder \<Rightarrow> bep_Folder" where
  "Folder_toWire f =
     \<lparr>boId = foID f, boLabel = foLabel f, boType = foType f, boStopReason = foStopReason f,
      boDevices = map Device_toWire (foDevices f)\<rparr>"

definition folderFromWire :: "bep_Folder \<Rightarrow> (unit, Folder) result" where
  "folderFromWire w =
     bind_result (traverse_result deviceFromWire (boDevices w)) (\<lambda>devices.
       Ok \<lparr>foID = boId w, foLabel = boLabel w, foType = boType w, foStopReason = boStopReason w, foDevices = devices\<rparr>)"

definition Folder_IsRunning :: "Folder \<Rightarrow> bool" where
  "Folder_IsRunning f = (if foStopReason f = FolderStopReasonPaused then False else True)"

definition ClusterConfig_toWire :: "ClusterConfig \<Rightarrow> bep_ClusterConfig" where
  "ClusterConfig_toWire c = \<lparr>bcFolders = map Folder_toWire (ccFolders c), bcSecondary = ccSecondary c\<rparr>"

text \<open>The wire message handed over is never nil.\<close>

definition clusterConfigFromWire :: "bep_ClusterConfig \<Rightarrow> (unit, ClusterConfig) result" where
  "clusterConfigFromWire w =
     bind_result (traverse_result folderFromWire (bcFolders w)) (\<lambda>folders.
       Ok \<lparr>ccFolders = folders, ccSecondary = bcSecondary w\<rparr>)"

section \<open>Indexes\<close>

record Index =
  ixFolder :: string
  ixFiles :: "FileInfo list"
  ixLastSequence :: int

record bep_Index =
  biFolder :: string
  biFiles :: "bep_FileInfo list"
  biLastSequence :: int

record IndexUpdate =
  iuFolder :: string
  iuFiles :: "FileInfo list"
  iuLastSequence :: int
  iuPrevSequence :: int

record bep_IndexUpdate =
  bxFolder :: string
  bxFiles :: "bep_FileInfo list"
  bxLastSequence :: int
  bxPrevSequence :: int

definition Index_toWire :: "Index \<Rightarrow> (unit, bep_Index) result" where
  "Index_toWire i =
     bind_result (traverse_result (FileInfo_ToWire False) (ixFiles i)) (\<lambda>files.
       Ok \<lparr>biFolder = ixFolder i, biFiles = files, biLastSequence = ixLastSequence i\<rparr>)"

definition indexFromWire :: "bep_Index \<Rightarrow> Index" where
  "indexFromWire w =
     \<lparr>ixFolder = biFolder w, ixFiles = map FileInfoFromWire (biFiles w), ixLastSequence = biLastSequence w\<rparr>"

definition IndexUpdate_toWire :: "IndexUpdate \<Rightarrow> (unit, bep_IndexUpdate) result" where
  "IndexUpdate_toWire i =
     bind_result (traverse_result (FileInfo_ToWire False) (iuFiles i)) (\<lambda>files.
       Ok \<lparr>bxFolder = iuFolder i, bxFiles = files, bxLastSequence = iuLastSequence i, bxPrevSequence = iuPrevSequence i\<rparr>)"

definition indexUpdateFromWire :: "bep_IndexUpdate \<Rightarrow> IndexUpdate" where
  "indexUpdateFromWire w =
     \<lparr>iuFolder = bxFolder w, iuFiles = map FileInfoFromWire (bxFiles w),
      iuLastSequence = bxLastSequence w, iuPrevSequence = bxPrevSequence w\<rparr>"

section \<open>Requests and responses\<close>

type_synonym ErrorCode = int

abbreviation (input) "ErrorCodeNoError \<equiv> 0 :: ErrorCode"
abbreviation (input) "ErrorCodeGeneric \<equiv> 1 :: ErrorCode"
abbreviation (input) "ErrorCodeNoSuchFile \<equiv> 2 :: ErrorCode"
abbreviation (input) "ErrorCodeInvalidFile \<equiv> 3 :: ErrorCode"

record Request =
  rqID :: int
  rqFolder :: string
  rqName :: string
  rqOffset :: int
  rqSize :: int
  rqHash :: "byte list"
  rqFromTemporary :: bool
  rqBlockNo :: int

record bep_Request =
  bqId :: int
  bqFolder :: string
  bqName :: string
  bqOffset :: int
  bqSize :: int
  bqHash :: "byte list"
  bqFromTemporary :: bool
  bqBlockNo :: int

record Response =
  rsID :: int
  rsData :: "byte list"
  rsCode :: ErrorCode

record bep_Response =
  bsId :: int
  bsData :: "byte list"
  bsCode :: ErrorCode

definition Request_toWire :: "Request \<Rightarrow> bep_Request" where
  "Request_toWire r =
     \<lparr>bqId = to_i32 (rqID r), bqFolder = rqFolder r, bqName = rqName r, bqOffset = rqOffset r,
      bqSize = to_i32 (rqSize r), bqHash = rqHash r, bqFromTemporary = rqFromTemporary r,
      bqBlockNo = to_i32 (rqBlockNo r)\<rparr>"

definition requestFromWire :: "bep_Request \<Rightarrow> Request" where
  "requestFromWire w =
     \<lparr>rqID = bqId w, rqFolder = bqFolder w, rqName = bqName w, rqOffset = bqOffset w, rqSize = bqSize w,
      rqHash = bqHash w, rqFromTemporary = bqFromTemporary w, rqBlockNo = bqBlockNo w\<rparr>"

definition Response_toWire :: "Response \<Rightarrow> bep_Response" where
  "Response_toWire r = \<lparr>bsId = to_i32 (rsID r), bsData = rsData r, bsCode = rsCode r\<rparr>"

definition responseFromWire :: "bep_Response \<Rightarrow> Response" where
  "responseFromWire w = \<lparr>rsID = bsId w, rsData = bsData w, rsCode = bsCode w\<rparr>"

text \<open>Errors, with the chain that \<open>errors.Is\<close> searches.\<close>

datatype req_error = ErrGeneric | ErrNoSuchFile | ErrInvalid | OtherError string | WrappedError string req_error

fun errors_Is :: "req_error \<Rightarrow> req_error \<Rightarrow> bool" where
  "errors_Is (WrappedError s e) t \<longleftrightarrow> WrappedError s e = t \<or> errors_Is e t"
| "errors_Is e t \<longleftrightarrow> e = t"

definition codeToError :: "ErrorCode \<Rightarrow> req_error option" where
  "codeToError code =
     (if code = ErrorCodeNoError then None
      else if code = ErrorCodeNoSuchFile then Some ErrNoSuchFile
      else if code = ErrorCodeInvalidFile then Some ErrInvalid
      else Some ErrGeneric)"

definition errorToCode :: "req_error option \<Rightarrow> ErrorCode" where
  "errorToCode err =
     (case err of
        None \<Rightarrow> ErrorCodeNoError
      | Some e \<Rightarrow>
          if errors_Is e ErrNoSuchFile then ErrorCodeNoSuchFile
          else if errors_Is e ErrInvalid then ErrorCodeInvalidFile
          else ErrorCodeGeneric)"

section \<open>All messages\<close>

datatype bep_message =
    MsgClusterConfig bep_ClusterConfig
  | MsgIndex bep_Index
  | MsgIndexUpdate bep_IndexUpdate
  | MsgRequest bep_Request
  | MsgResponse bep_Response
  | MsgDownloadProgress bep_DownloadProgress
  | MsgPing
  | MsgClose string

section \<open>Round trips\<close>

lemma device_wire [wire_simps]:
  "length (dvID d) = DeviceIDLength \<Longrightarrow> deviceFromWire (Device_toWire d) = Ok d"
  by (simp add: deviceFromWire_def Device_toWire_def)

lemma folder_wire [wire_simps]:
  "\<forall>d\<in>set (foDevices f). length (dvID d) = DeviceIDLength \<Longrightarrow> folderFromWire (Folder_toWire f) = Ok f"
  by (simp add: folderFromWire_def Folder_toWire_def traverse_result_Ok wire_simps)

definition ids_complete :: "ClusterConfig \<Rightarrow> bool" where
  "ids_complete c \<longleftrightarrow> (\<forall>f\<in>set (ccFolders c). \<forall>d\<in>set (foDevices f). length (dvID d) = DeviceIDLength)"

lemma clusterConfig_wire [wire_simps]:
  "ids_complete c \<Longrightarrow> clusterConfigFromWire (ClusterConfig_toWire c) = Ok c"
  by (simp add: clusterConfigFromWire_def ClusterConfig_toWire_def traverse_result_Ok wire_simps ids_complete_def)

lemma deviceFromWire_Panic: "deviceFromWire w = Panic \<longleftrightarrow> length (bvId w) < DeviceIDLength" "deviceFromWire w \<noteq> Err e"
  by (simp_all add: deviceFromWire_def)

lemma folderFromWire_Panic:
  "folderFromWire w = Panic \<longleftrightarrow> (\<exists>d\<in>set (boDevices w). length (bvId d) < DeviceIDLength)" "folderFromWire w \<noteq> Err e"
  by (simp_all add: folderFromWire_def bind_result_Panic bind_result_Err traverse_result_Panic traverse_result_no_Err
      deviceFromWire_Panic)

definition short_ids :: "bep_ClusterConfig \<Rightarrow> bool" where
  "short_ids w \<longleftrightarrow> list_ex (\<lambda>f. list_ex (\<lambda>d. length (bvId d) < DeviceIDLength) (boDevices f)) (bcFolders w)"

lemma clusterConfigFromWire_Panic:
  "clusterConfigFromWire w = Panic \<longleftrightarrow> short_ids w" "clusterConfigFromWire w \<noteq> Err e"
  by (simp_all add: clusterConfigFromWire_def bind_result_Panic bind_result_Err traverse_result_Panic traverse_result_no_Err
      folderFromWire_Panic short_ids_def list_ex_iff)

text \<open>A file as a device receives it: the local flags are reduced to whether the file is usable.\<close>

definition as_received :: "FileInfo \<Rightarrow> FileInfo" where
  "as_received f = f\<lparr>fLocalFlags := (if IsInvalid f then FlagLocalRemoteInvalid else 0), fEncryptionTrailerSize := 0\<rparr>"

lemma files_wire:
  "list_all (\<lambda>f. fi_fits f \<and> \<not> fTruncated f) fs \<Longrightarrow>
     \<exists>ws. traverse_result (FileInfo_ToWire False) fs = Ok ws \<and> map FileInfoFromWire ws = map as_received fs"
proof (induction fs)
  case (Cons f fs)
  then obtain w ws where "FileInfo_ToWire False f = Ok w" "FileInfoFromWire w = as_received f"
      "traverse_result (FileInfo_ToWire False) fs = Ok ws" "map FileInfoFromWire ws = map as_received fs"
    using FileInfo_wire [of f] by (auto simp: as_received_def)
  then show ?case by simp
qed simp

lemma index_wire:
  assumes "list_all (\<lambda>f. fi_fits f \<and> \<not> fTruncated f) (ixFiles i)"
  shows "\<exists>w. Index_toWire i = Ok w \<and> indexFromWire w = i\<lparr>ixFiles := map as_received (ixFiles i)\<rparr>"
  using files_wire [OF assms] by (cases i) (auto simp: Index_toWire_def indexFromWire_def)

lemma indexUpdate_wire:
  assumes "list_all (\<lambda>f. fi_fits f \<and> \<not> fTruncated f) (iuFiles i)"
  shows "\<exists>w. IndexUpdate_toWire i = Ok w \<and> indexUpdateFromWire w = i\<lparr>iuFiles := map as_received (iuFiles i)\<rparr>"
  using files_wire [OF assms] by (cases i) (auto simp: IndexUpdate_toWire_def indexUpdateFromWire_def)

definition req_fits :: "Request \<Rightarrow> bool" where
  "req_fits r \<longleftrightarrow> is_i32 (rqID r) \<and> is_i32 (rqSize r) \<and> is_i32 (rqBlockNo r)"

lemma request_wire [wire_simps]: "req_fits r \<Longrightarrow> requestFromWire (Request_toWire r) = r"
  by (simp add: requestFromWire_def Request_toWire_def req_fits_def)

lemma response_wire [wire_simps]: "is_i32 (rsID r) \<Longrightarrow> responseFromWire (Response_toWire r) = r"
  by (simp add: responseFromWire_def Response_toWire_def)

text \<open>
  Codes carry the classification of errors: the error a device gets is of the class of the one
  the other device had.
\<close>

lemma code_error:
  "codeToError (errorToCode (Some e)) =
     Some (if errors_Is e ErrNoSuchFile then ErrNoSuchFile else if errors_Is e ErrInvalid then ErrInvalid else ErrGeneric)"
  "codeToError (errorToCode None) = None"
  by (simp_all add: codeToError_def errorToCode_def)

end
