(* ===== verification/Framing.thy ===== *)
theory Framing
  imports Wire_Messages
begin

text \<open>
  How messages travel on a connection, \<open>lib/protocol/protocol.go\<close>: a header with its length, then
  the message with its length, compressed or not. The protobuf encoding and the LZ4 block
  format are libraries; they enter as the functions of a \<open>codec\<close>, with the laws
  \<open>codec_ok\<close>. The bytes that will arrive are a list, at whose end reading fails.
\<close>

record bep_Header =
  hType :: int
  hCompression :: int

record codec =
  hdrMarshal :: "bep_Header \<Rightarrow> byte list"
  hdrUnmarshal :: "byte list \<Rightarrow> bep_Header option"
  msgSize :: "bep_message \<Rightarrow> nat"
  msgMarshal :: "bep_message \<Rightarrow> byte list option"
  msgUnmarshal :: "int \<Rightarrow> byte list \<Rightarrow> bep_message option"
  compressBlock :: "byte list \<Rightarrow> nat \<Rightarrow> byte list option"
  uncompressBlock :: "byte list \<Rightarrow> nat \<Rightarrow> byte list option"

datatype frame_err =
    ReadLength | NegativeHeaderLength | ReadHeader | UnmarshalHeader
  | ReadMessageLength | NegativeMessageLength | MessageTooLong | ReadMessage
  | CompressedTooShort | DecompressedTooLarge | Uncompress | UnknownCompression int
  | ErrUnknownMessage | UnmarshalMessage | MarshalMessage

definition MaxMessageLen :: int where "MaxMessageLen = 500 * 1000 * 1000"
definition compressionThreshold :: nat where "compressionThreshold = 128"

section \<open>Writing\<close>

definition typeOf :: "bep_message \<Rightarrow> int" where
  "typeOf msg =
     (case msg of
        MsgClusterConfig c \<Rightarrow> 0
      | MsgIndex i \<Rightarrow> 1
      | MsgIndexUpdate i \<Rightarrow> 2
      | MsgRequest r \<Rightarrow> 3
      | MsgResponse r \<Rightarrow> 4
      | MsgDownloadProgress d \<Rightarrow> 5
      | MsgPing \<Rightarrow> 6
      | MsgClose s \<Rightarrow> 7)"

text \<open>The type decides what is unmarshalled, and an unknown one is an error.\<close>

definition newMessage :: "int \<Rightarrow> (frame_err, int) result" where
  "newMessage t = (if 0 \<le> t \<and> t \<le> 7 then Ok t else Err ErrUnknownMessage)"

fun is_response :: "bep_message \<Rightarrow> bool" where
  "is_response (MsgResponse r) = True"
| "is_response m = False"

definition shouldCompressMessage :: "codec \<Rightarrow> Compression \<Rightarrow> bep_message \<Rightarrow> (frame_err, bool) result" where
  "shouldCompressMessage cd compression msg =
     (if compression = CompressionNever then Ok False
      else if compression = CompressionAlways then Ok (msgSize cd msg \<ge> compressionThreshold)
      else if compression = CompressionMetadata then Ok (\<not> is_response msg \<and> msgSize cd msg \<ge> compressionThreshold)
      else Panic)"

text \<open>The space for the compressed block is \<open>n\<close> bytes, four of which hold the uncompressed size.\<close>

definition lz4Compress :: "codec \<Rightarrow> byte list \<Rightarrow> nat \<Rightarrow> (frame_err, byte list option) result" where
  "lz4Compress cd src n =
     (if n < 4 then Panic
      else case compressBlock cd src (n - 4) of
             None \<Rightarrow> Ok None
           | Some c \<Rightarrow> (if c = [] then Ok None else Ok (Some (be_encode 4 (length src) @ c))))"

definition frame :: "codec \<Rightarrow> bep_Header \<Rightarrow> byte list \<Rightarrow> byte list" where
  "frame cd hdr body =
     be_encode 2 (length (hdrMarshal cd hdr)) @ hdrMarshal cd hdr @ be_encode 4 (length body) @ body"

definition writeCompressedMessage :: "codec \<Rightarrow> bep_message \<Rightarrow> byte list \<Rightarrow> (frame_err, byte list option) result" where
  "writeCompressedMessage cd msg marshaled =
     (let hdr = \<lparr>hType = typeOf msg, hCompression = 1\<rparr> in
      if length (hdrMarshal cd hdr) > 2 ^ 16 - 1 then Panic
      else bind_result (lz4Compress cd marshaled (length marshaled - length marshaled div 32)) (\<lambda>c.
             Ok (map_option (frame cd hdr) c)))"

text \<open>The bytes handed to the connection, or the error or panic before that.\<close>

definition writeMessage :: "codec \<Rightarrow> Compression \<Rightarrow> bep_message \<Rightarrow> (frame_err, byte list) result" where
  "writeMessage cd compression msg =
     (let hdr = \<lparr>hType = typeOf msg, hCompression = 0\<rparr> in
      if length (hdrMarshal cd hdr) > 2 ^ 16 - 1 then Panic
      else case msgMarshal cd msg of
             None \<Rightarrow> Err MarshalMessage
           | Some bs \<Rightarrow>
               bind_result (shouldCompressMessage cd compression msg) (\<lambda>compress.
               bind_result (if compress then writeCompressedMessage cd msg bs else Ok None) (\<lambda>written.
                 case written of Some out \<Rightarrow> Ok out | None \<Rightarrow> Ok (frame cd hdr bs))))"

section \<open>Reading\<close>

definition readFull :: "nat \<Rightarrow> byte list \<Rightarrow> (byte list \<times> byte list) option" where
  "readFull n bs = (if n \<le> length bs then Some (take n bs, drop n bs) else None)"

definition to_i16 :: "int \<Rightarrow> int" where
  "to_i16 x = (x + 2 ^ 15) mod 2 ^ 16 - 2 ^ 15"

definition lz4Decompress :: "codec \<Rightarrow> byte list \<Rightarrow> (frame_err, byte list) result" where
  "lz4Decompress cd src =
     (if length src < 4 then Err CompressedTooShort
      else let size = be_decode (take 4 src) in
           if int size > MaxMessageLen then Err DecompressedTooLarge
           else case uncompressBlock cd (drop 4 src) size of None \<Rightarrow> Err Uncompress | Some bs \<Rightarrow> Ok bs)"

definition readHeader :: "codec \<Rightarrow> byte list \<Rightarrow> (frame_err, bep_Header \<times> byte list) result" where
  "readHeader cd inp =
     (case readFull 2 inp of
        None \<Rightarrow> Err ReadLength
      | Some (lenb, inp1) \<Rightarrow>
          let hdrLen = to_i16 (int (be_decode lenb)) in
          if hdrLen < 0 then Err NegativeHeaderLength
          else case readFull (nat hdrLen) inp1 of
                 None \<Rightarrow> Err ReadHeader
               | Some (buf, inp2) \<Rightarrow>
                   (case hdrUnmarshal cd buf of None \<Rightarrow> Err UnmarshalHeader | Some hdr \<Rightarrow> Ok (hdr, inp2)))"

definition decodeBody :: "codec \<Rightarrow> bep_Header \<Rightarrow> byte list \<Rightarrow> (frame_err, bep_message) result" where
  "decodeBody cd hdr buf =
     bind_result
       (if hCompression hdr = 0 then Ok buf
        else if hCompression hdr = 1 then lz4Decompress cd buf
        else Err (UnknownCompression (hCompression hdr))) (\<lambda>body.
     bind_result (newMessage (hType hdr)) (\<lambda>t.
       case msgUnmarshal cd t body of None \<Rightarrow> Err UnmarshalMessage | Some m \<Rightarrow> Ok m))"

definition readMessageAfterHeader ::
  "codec \<Rightarrow> bep_Header \<Rightarrow> byte list \<Rightarrow> (frame_err, bep_message) result \<times> byte list" where
  "readMessageAfterHeader cd hdr inp =
     (case readFull 4 inp of
        None \<Rightarrow> (Err ReadMessageLength, [])
      | Some (lenb, inp1) \<Rightarrow>
          let msgLen = to_i32 (int (be_decode lenb)) in
          if msgLen < 0 then (Err NegativeMessageLength, inp1)
          else if msgLen > MaxMessageLen then (Err MessageTooLong, inp1)
          else case readFull (nat msgLen) inp1 of
                 None \<Rightarrow> (Err ReadMessage, [])
               | Some (buf, inp2) \<Rightarrow> (decodeBody cd hdr buf, inp2))"

definition readMessage :: "codec \<Rightarrow> byte list \<Rightarrow> (frame_err, bep_message) result \<times> byte list" where
  "readMessage cd inp =
     (case readHeader cd inp of
        Ok (hdr, inp1) \<Rightarrow> readMessageAfterHeader cd hdr inp1
      | Err e \<Rightarrow> (Err e, [])
      | Panic \<Rightarrow> (Panic, []))"

lemma readFull_length: "readFull n bs = Some (a, b) \<Longrightarrow> length b + n = length bs"
  by (auto simp: readFull_def split: if_splits)

lemma readHeader_shorter: "readHeader cd inp = Ok (hdr, rest) \<Longrightarrow> length rest + 2 \<le> length inp"
  by (auto simp: readHeader_def Let_def dest!: readFull_length split: option.splits if_splits)

lemma readMessageAfterHeader_shorter:
  assumes "readMessageAfterHeader cd hdr inp = (r, rest)" and "r = Ok m \<or> r = Err ErrUnknownMessage"
  shows "length rest \<le> length inp"
proof -
  obtain lenb inp1 where 1: "readFull 4 inp = Some (lenb, inp1)"
    using assms by (cases "readFull 4 inp") (auto simp: readMessageAfterHeader_def)
  then show ?thesis
    using assms readFull_length [OF 1]
    by (auto simp: readMessageAfterHeader_def Let_def dest!: readFull_length split: if_splits option.splits)
qed

lemma readMessage_shorter:
  assumes "readMessage cd inp = (r, rest)" and "r = Ok m \<or> r = Err ErrUnknownMessage"
  shows "length rest < length inp"
proof (cases "readHeader cd inp")
  case (Ok x)
  then show ?thesis
    using assms readHeader_shorter [of cd inp "fst x" "snd x"] readMessageAfterHeader_shorter [of cd "fst x" "snd x" r rest m]
    by (cases x) (auto simp: readMessage_def)
qed (use assms in \<open>auto simp: readMessage_def readHeader_def Let_def split: option.splits if_splits\<close>)

text \<open>
  The reader passes the messages on to the dispatcher until reading fails with an error other
  than an unknown message type.
\<close>

function readerLoop :: "codec \<Rightarrow> byte list \<Rightarrow> bep_message list \<times> (frame_err, unit) result" where
  "readerLoop cd inp =
     (case readMessage cd inp of
        (Ok m, rest) \<Rightarrow> (let (ms, e) = readerLoop cd rest in (m # ms, e))
      | (Err e, rest) \<Rightarrow> (if e = ErrUnknownMessage then readerLoop cd rest else ([], Err e))
      | (Panic, rest) \<Rightarrow> ([], Panic))"
  by pat_completeness auto

termination
  by (relation "measure (\<lambda>(cd, inp). length inp)") (auto dest: readMessage_shorter [OF sym])

declare readerLoop.simps [simp del]

section \<open>The laws of the libraries\<close>

definition codec_ok :: "codec \<Rightarrow> bool" where
  "codec_ok cd \<longleftrightarrow>
     (\<forall>h. is_i32 (hType h) \<and> is_i32 (hCompression h) \<longrightarrow>
          hdrUnmarshal cd (hdrMarshal cd h) = Some h \<and> length (hdrMarshal cd h) \<le> 32767)
     \<and> (\<forall>m bs. msgMarshal cd m = Some bs \<longrightarrow> length bs = msgSize cd m \<and> msgUnmarshal cd (typeOf m) bs = Some m)
     \<and> (\<forall>src n c. compressBlock cd src n = Some c \<longrightarrow> c \<noteq> [] \<longrightarrow>
          length c \<le> n \<and> uncompressBlock cd c (length src) = Some src)"

definition hdr_ok :: "bep_Header \<Rightarrow> bool" where
  "hdr_ok h \<longleftrightarrow> is_i32 (hType h) \<and> is_i32 (hCompression h)"

lemma codec_okD:
  assumes "codec_ok cd"
  shows "hdr_ok h \<Longrightarrow> hdrUnmarshal cd (hdrMarshal cd h) = Some h" "hdr_ok h \<Longrightarrow> length (hdrMarshal cd h) \<le> 32767"
    "msgMarshal cd m = Some bs \<Longrightarrow> length bs = msgSize cd m \<and> msgUnmarshal cd (typeOf m) bs = Some m"
    "compressBlock cd src n = Some c \<Longrightarrow> c \<noteq> [] \<Longrightarrow> length c \<le> n \<and> uncompressBlock cd c (length src) = Some src"
  using assms by (auto simp: codec_ok_def hdr_ok_def)

lemma hdr_ok_typeOf [simp]: "hdr_ok \<lparr>hType = typeOf m, hCompression = 0\<rparr>" "hdr_ok \<lparr>hType = typeOf m, hCompression = 1\<rparr>"
  by (cases m; simp add: hdr_ok_def is_i32_def typeOf_def)+

text \<open>A message that can be sent: it can be marshalled and is not too long.\<close>

definition sendable :: "codec \<Rightarrow> bep_message \<Rightarrow> bool" where
  "sendable cd m \<longleftrightarrow> msgMarshal cd m \<noteq> None \<and> int (msgSize cd m) \<le> MaxMessageLen"

section \<open>Messages arrive as they were sent\<close>

lemma readHeader_frame:
  assumes "codec_ok cd" and "hdr_ok hdr"
  shows "readHeader cd (frame cd hdr body @ rest) = Ok (hdr, be_encode 4 (length body) @ body @ rest)"
proof -
  have l: "length (hdrMarshal cd hdr) < 256 ^ 2" "to_i16 (int (length (hdrMarshal cd hdr))) = int (length (hdrMarshal cd hdr))"
    using codec_okD(2) [OF assms] by (simp_all add: to_i16_def)
  show ?thesis
    by (simp add: readHeader_def frame_def readFull_def be_decode_encode [OF l(1)] l(2) codec_okD(1) [OF assms])
qed

lemma readMessage_frame:
  assumes "codec_ok cd" and "hdr_ok hdr" and "int (length body) \<le> MaxMessageLen"
  shows "readMessage cd (frame cd hdr body @ rest) = (decodeBody cd hdr body, rest)"
proof -
  have l: "length body < 256 ^ 4" "to_i32 (int (length body)) = int (length body)"
    using assms(3) by (simp_all add: MaxMessageLen_def is_i32_def)
  show ?thesis
    using assms(3)
    by (simp add: readMessage_def readHeader_frame [OF assms(1,2)] readMessageAfterHeader_def readFull_def
        be_decode_encode [OF l(1)] l(2))
qed

lemma newMessage_typeOf [simp]: "newMessage (typeOf m) = Ok (typeOf m)"
  by (cases m) (simp_all add: newMessage_def typeOf_def)

lemma lz4_roundtrip:
  assumes "codec_ok cd" and "int (length bs) \<le> MaxMessageLen" and "lz4Compress cd bs n = Ok (Some c)"
  shows "lz4Decompress cd c = Ok bs" "length c \<le> n"
proof -
  obtain d where d: "compressBlock cd bs (n - 4) = Some d" "d \<noteq> []" "c = be_encode 4 (length bs) @ d" "4 \<le> n"
    using assms(3) by (auto simp: lz4Compress_def split: if_splits option.splits)
  note u = codec_okD(4) [OF assms(1) d(1,2)]
  have l: "length bs < 256 ^ 4" using assms(2) by (simp add: MaxMessageLen_def)
  show "lz4Decompress cd c = Ok bs"
    using assms(2) u by (simp add: lz4Decompress_def d(3) be_decode_encode [OF l])
  show "length c \<le> n" using u d(3,4) by auto
qed

lemma writeMessage_frame:
  assumes "codec_ok cd" and "sendable cd m" and "compression \<in> {CompressionNever, CompressionAlways, CompressionMetadata}"
  shows "\<exists>hdr body. writeMessage cd compression m = Ok (frame cd hdr body) \<and> hdr_ok hdr
    \<and> int (length body) \<le> MaxMessageLen \<and> decodeBody cd hdr body = Ok m"
proof -
  obtain bs where bs: "msgMarshal cd m = Some bs" "int (length bs) \<le> MaxMessageLen" "msgUnmarshal cd (typeOf m) bs = Some m"
      "length bs = msgSize cd m"
    using assms(2) codec_okD(3) [OF assms(1)] by (auto simp: sendable_def)
  have small: "hdr_ok h \<Longrightarrow> \<not> 65535 < length (hdrMarshal cd h)" for h
    using codec_okD(2) [OF assms(1), of h] by simp
  obtain compress where c: "shouldCompressMessage cd compression m = Ok compress"
      "compress \<Longrightarrow> length bs \<ge> compressionThreshold"
    using assms(3) bs(4) by (cases "shouldCompressMessage cd compression m") (auto simp: shouldCompressMessage_def)
  show ?thesis
  proof (cases "compress \<and> (\<exists>d. lz4Compress cd bs (length bs - length bs div 32) = Ok (Some d))")
    case True
    then obtain d where d: "lz4Compress cd bs (length bs - length bs div 32) = Ok (Some d)" by blast
    note z = lz4_roundtrip [OF assms(1) bs(2) d]
    have "writeMessage cd compression m = Ok (frame cd \<lparr>hType = typeOf m, hCompression = 1\<rparr> d)"
      using True by (simp add: writeMessage_def Let_def small bs(1) c(1) writeCompressedMessage_def d)
    moreover have "decodeBody cd \<lparr>hType = typeOf m, hCompression = 1\<rparr> d = Ok m"
      by (simp add: decodeBody_def z(1) bs(3))
    ultimately show ?thesis using z(2) bs(2) by (intro exI conjI) (assumption | simp)+
  next
    case False
    have "\<not> length bs - length bs div 32 < 4" if compress using c(2) [OF that] by (simp add: compressionThreshold_def)
    then have "lz4Compress cd bs (length bs - length bs div 32) = Ok None" if compress
      using False that by (auto simp: lz4Compress_def split: option.splits)
    then have "writeMessage cd compression m = Ok (frame cd \<lparr>hType = typeOf m, hCompression = 0\<rparr> bs)"
      by (simp add: writeMessage_def Let_def small bs(1) c(1) writeCompressedMessage_def)
    then show ?thesis using bs by (intro exI conjI) (assumption | simp add: decodeBody_def)+
  qed
qed

text \<open>A frame that is cut off is never taken for a message.\<close>

lemma readHeader_cut:
  assumes "codec_ok cd" and "hdr_ok hdr"
  shows "(\<exists>e. readHeader cd (take k (frame cd hdr body)) = Err e \<and> e \<in> {ReadLength, ReadHeader})
    \<or> readHeader cd (take k (frame cd hdr body)) =
         Ok (hdr, take (k - (2 + length (hdrMarshal cd hdr))) (be_encode 4 (length body) @ body))"
proof -
  have l: "length (hdrMarshal cd hdr) < 256 ^ 2" "to_i16 (int (length (hdrMarshal cd hdr))) = int (length (hdrMarshal cd hdr))"
    using codec_okD(2) [OF assms] by (simp_all add: to_i16_def)
  consider "k < 2" | "2 \<le> k" "k < 2 + length (hdrMarshal cd hdr)" | "2 + length (hdrMarshal cd hdr) \<le> k" by linarith
  then show ?thesis
  proof cases
    case 2
    then have "take k (frame cd hdr body) = be_encode 2 (length (hdrMarshal cd hdr)) @ take (k - 2) (hdrMarshal cd hdr)"
      by (simp add: frame_def)
    moreover have "\<not> length (hdrMarshal cd hdr) \<le> k - 2" using 2 by linarith
    ultimately show ?thesis by (simp add: readHeader_def readFull_def be_decode_encode [OF l(1)] l(2))
  next
    case 3
    then have "take k (frame cd hdr body) = be_encode 2 (length (hdrMarshal cd hdr)) @ hdrMarshal cd hdr
        @ take (k - (2 + length (hdrMarshal cd hdr))) (be_encode 4 (length body) @ body)"
      by (simp add: frame_def)
    then show ?thesis
      by (simp add: readHeader_def readFull_def be_decode_encode [OF l(1)] l(2) codec_okD(1) [OF assms])
  qed (simp_all add: frame_def readHeader_def readFull_def be_decode_encode [OF l(1)] l(2))
qed

lemma readMessage_cut:
  assumes "codec_ok cd" and "hdr_ok hdr" and "int (length body) \<le> MaxMessageLen" and "k < length (frame cd hdr body)"
  shows "\<exists>e rest. readMessage cd (take k (frame cd hdr body)) = (Err e, rest) \<and> e \<noteq> ErrUnknownMessage"
proof -
  let ?k = "k - (2 + length (hdrMarshal cd hdr))"
  have l: "length body < 256 ^ 4" "to_i32 (int (length body)) = int (length body)"
    using assms(3) by (simp_all add: MaxMessageLen_def is_i32_def)
  have k: "?k < 4 + length body" using assms(4) by (simp add: frame_def)
  have "\<exists>e rest. readMessageAfterHeader cd hdr (take ?k (be_encode 4 (length body) @ body)) = (Err e, rest) \<and> e \<noteq> ErrUnknownMessage"
  proof (cases "?k < 4")
    case False
    then have "take ?k (be_encode 4 (length body) @ body) = be_encode 4 (length body) @ take (?k - 4) body" by simp
    then show ?thesis
      using k False assms(3) less_diff_conv [of ?k 4 "length body"]
      by (auto simp: readMessageAfterHeader_def readFull_def be_decode_encode [OF l(1)] l(2))
  qed (simp add: readMessageAfterHeader_def readFull_def)
  then show ?thesis using readHeader_cut [OF assms(1,2), of k body] by (auto simp: readMessage_def)
qed

lemma readerLoop_Ok: "readMessage cd inp = (Ok m, rest) \<Longrightarrow> readerLoop cd inp = (m # fst (readerLoop cd rest), snd (readerLoop cd rest))"
  by (subst readerLoop.simps) (simp add: split_beta)

lemma readerLoop_skip: "readMessage cd inp = (Err ErrUnknownMessage, rest) \<Longrightarrow> readerLoop cd inp = readerLoop cd rest"
  by (subst readerLoop.simps) simp

lemma readerLoop_end: "readMessage cd inp = (Err e, rest) \<Longrightarrow> e \<noteq> ErrUnknownMessage \<Longrightarrow> readerLoop cd inp = ([], Err e)"
  by (subst readerLoop.simps) simp

section \<open>Streams\<close>

text \<open>
  What a peer may put on the connection: messages written by \<open>writeMessage\<close>, with any
  compression setting, and messages of types that this version does not know.
\<close>

datatype stream_item = Sent Compression bep_message | Foreign int "byte list"

fun item_bytes :: "codec \<Rightarrow> stream_item \<Rightarrow> (frame_err, byte list) result" where
  "item_bytes cd (Sent c m) = writeMessage cd c m"
| "item_bytes cd (Foreign t bs) = Ok (frame cd \<lparr>hType = t, hCompression = 0\<rparr> bs)"

fun item_ok :: "codec \<Rightarrow> stream_item \<Rightarrow> bool" where
  "item_ok cd (Sent c m) \<longleftrightarrow> sendable cd m \<and> c \<in> {CompressionNever, CompressionAlways, CompressionMetadata}"
| "item_ok cd (Foreign t bs) \<longleftrightarrow> is_i32 t \<and> \<not> (0 \<le> t \<and> t \<le> 7) \<and> int (length bs) \<le> MaxMessageLen"

fun item_messages :: "stream_item \<Rightarrow> bep_message list" where
  "item_messages (Sent c m) = [m]"
| "item_messages (Foreign t bs) = []"

definition received :: "stream_item list \<Rightarrow> bep_message list" where
  "received items = concat (map item_messages items)"

lemma item_frame:
  assumes "codec_ok cd" and "item_ok cd i"
  shows "\<exists>hdr body. item_bytes cd i = Ok (frame cd hdr body) \<and> hdr_ok hdr \<and> int (length body) \<le> MaxMessageLen
    \<and> decodeBody cd hdr body = (case i of Sent c m \<Rightarrow> Ok m | Foreign t bs \<Rightarrow> Err ErrUnknownMessage)"
proof (cases i)
  case (Sent c m)
  then show ?thesis using writeMessage_frame [OF assms(1), of m c] assms(2) by auto
next
  case (Foreign t bs)
  then have "decodeBody cd \<lparr>hType = t, hCompression = 0\<rparr> bs = Err ErrUnknownMessage"
    using assms(2) by (auto simp: decodeBody_def newMessage_def)
  then show ?thesis using assms(2) Foreign
    by (intro exI [of _ "\<lparr>hType = t, hCompression = 0\<rparr>"] exI [of _ bs]) (simp add: hdr_ok_def is_i32_def)
qed

lemma item_read:
  assumes "codec_ok cd" and "item_ok cd i" and "item_bytes cd i = Ok out"
  shows "readerLoop cd (out @ rest) = (item_messages i @ fst (readerLoop cd rest), snd (readerLoop cd rest))"
    "k < length out \<Longrightarrow> fst (readerLoop cd (take k out)) = []"
proof -
  obtain hdr body where f: "out = frame cd hdr body" "hdr_ok hdr" "int (length body) \<le> MaxMessageLen"
      "decodeBody cd hdr body = (case i of Sent c m \<Rightarrow> Ok m | Foreign t bs \<Rightarrow> Err ErrUnknownMessage)"
    using item_frame [OF assms(1,2)] assms(3) by auto
  show "readerLoop cd (out @ rest) = (item_messages i @ fst (readerLoop cd rest), snd (readerLoop cd rest))"
    using readMessage_frame [OF assms(1) f(2,3), of rest] f(1,4) readerLoop_Ok readerLoop_skip by (cases i) auto
  show "fst (readerLoop cd (take k out)) = []" if "k < length out"
    using readMessage_cut [OF assms(1) f(2,3), of k] that f(1) readerLoop_end by fastforce
qed

lemma readerLoop_Nil [simp]: "readerLoop cd [] = ([], Err ReadLength)"
  by (subst readerLoop.simps) (simp add: readMessage_def readHeader_def readFull_def)

lemma stream_read:
  assumes "codec_ok cd" and "\<forall>i\<in>set items. item_ok cd i"
  shows "\<exists>outs. traverse_result (item_bytes cd) items = Ok outs
    \<and> readerLoop cd (concat outs) = (received items, Err ReadLength)
    \<and> (\<forall>k. prefix (fst (readerLoop cd (take k (concat outs)))) (received items))"
  using assms(2)
proof (induction items)
  case (Cons i items)
  then obtain outs where o: "traverse_result (item_bytes cd) items = Ok outs"
      "readerLoop cd (concat outs) = (received items, Err ReadLength)"
      "\<forall>k. prefix (fst (readerLoop cd (take k (concat outs)))) (received items)" by auto
  obtain out where out: "item_bytes cd i = Ok out" using item_frame [OF assms(1)] Cons.prems by (meson list.set_intros(1))
  have i: "item_ok cd i" using Cons.prems by simp
  note r = item_read [OF assms(1) i out]
  have "prefix (fst (readerLoop cd (take k (out @ concat outs)))) (item_messages i @ received items)" for k
  proof (cases "k < length out")
    case False
    then show ?thesis using o(3) r(1) by simp
  qed (simp add: r(2))
  then show ?case using o(1,2) out r(1) by (simp add: received_def)
qed (simp add: received_def)

text \<open>
  Claim C34. The stream of messages is faithful: whatever sequence of messages is written, with
  whatever compression settings, and with messages of unknown types in between, the reader
  delivers exactly the known ones, as they were and in order, and ends with the error of
  reading at the end of the stream. When the connection breaks after any number of bytes, what
  has been delivered is a prefix of that.
\<close>

theorem stream_roundtrip:
  assumes "codec_ok cd" and "\<forall>i\<in>set items. item_ok cd i"
  shows "\<exists>outs. traverse_result (item_bytes cd) items = Ok outs
    \<and> readerLoop cd (concat outs) = (received items, Err ReadLength)
    \<and> (\<forall>k. prefix (fst (readerLoop cd (take k (concat outs)))) (received items))"
  by (rule stream_read [OF assms])

text \<open>A codec that satisfies the laws, for close messages and pings, with runs of one byte compressed.\<close>

definition codec0 :: codec where
  "codec0 =
     \<lparr>hdrMarshal = (\<lambda>h. be_encode 4 (nat (hType h + 2 ^ 31)) @ be_encode 4 (nat (hCompression h + 2 ^ 31))),
      hdrUnmarshal = (\<lambda>bs. Some \<lparr>hType = int (be_decode (take 4 bs)) - 2 ^ 31, hCompression = int (be_decode (drop 4 bs)) - 2 ^ 31\<rparr>),
      msgSize = (\<lambda>m. case m of MsgClose s \<Rightarrow> length s | _ \<Rightarrow> 0),
      msgMarshal = (\<lambda>m. case m of MsgPing \<Rightarrow> Some [] | MsgClose s \<Rightarrow> Some (map (\<lambda>c. word_of_nat (of_char c)) s) | _ \<Rightarrow> None),
      msgUnmarshal = (\<lambda>t bs. if t = 7 then Some (MsgClose (map (\<lambda>b. char_of (unat b)) bs)) else Some MsgPing),
      compressBlock = (\<lambda>src n. if n \<ge> 1 \<and> src \<noteq> [] \<and> src = replicate (length src) (hd src) then Some [hd src] else None),
      uncompressBlock = (\<lambda>c n. Some (replicate n (hd c)))\<rparr>"

lemma of_char_byte [simp]: "char_of (unat (word_of_nat (of_char c) :: byte)) = c"
proof -
  have "(of_char c :: nat) < 256" by simp
  then show ?thesis by (simp add: unat_of_nat)
qed

lemma codec0_ok: "codec_ok codec0"
proof -
  have d: "int (be_decode (be_encode 4 (nat (x + 2147483648)))) = x + 2147483648" if "is_i32 x" for x
    using that be_decode_encode [of "nat (x + 2147483648)" 4] by (simp add: is_i32_def nat_less_iff)
  have "hdrUnmarshal codec0 (hdrMarshal codec0 h) = Some h \<and> length (hdrMarshal codec0 h) \<le> 32767"
    if "is_i32 (hType h)" "is_i32 (hCompression h)" for h
    using that by (simp add: codec0_def d)
  moreover have "length bs = msgSize codec0 m \<and> msgUnmarshal codec0 (typeOf m) bs = Some m"
    if "msgMarshal codec0 m = Some bs" for m bs
    using that by (auto simp: codec0_def typeOf_def comp_def split: bep_message.splits)
  moreover have "length c \<le> n \<and> uncompressBlock codec0 c (length src) = Some src"
    if "compressBlock codec0 src n = Some c" for src n c
    using that by (auto simp: codec0_def split: if_splits)
  ultimately show ?thesis unfolding codec_ok_def by blast
qed

theorem stream_roundtrip_witness:
  "\<exists>outs. traverse_result (item_bytes codec0) [Sent CompressionAlways (MsgClose (replicate 200 CHR ''a'')), Foreign 9 [1], Sent CompressionNever MsgPing] = Ok outs
    \<and> readerLoop codec0 (concat outs) = ([MsgClose (replicate 200 CHR ''a''), MsgPing], Err ReadLength)"
proof -
  have "\<forall>i\<in>set [Sent CompressionAlways (MsgClose (replicate 200 CHR ''a'')), Foreign 9 [1], Sent CompressionNever MsgPing]. item_ok codec0 i"
    by (simp add: sendable_def codec0_def is_i32_def MaxMessageLen_def)
  from stream_roundtrip [OF codec0_ok this] show ?thesis by (auto simp: received_def)
qed

end
