(* ===== verification/Protocol_Conn.thy ===== *)
theory Protocol_Conn
  imports Framing Go_Path
begin

text \<open>
  What a connection does with the messages it receives, \<open>lib/protocol/protocol.go\<close>: the checks of
  file names and indexes and the dispatcher, a state machine that hands checked messages to the
  model. The model is the caller of this code; its answers to the calls are a function of the
  calls so far.
\<close>

section \<open>Checks\<close>

datatype check_err = UncleanFilename | InvalidFilename | DeletedHasBlocks | DirectoryHasBlocks | FileHasNoBlocks

definition checkFilename :: "string \<Rightarrow> check_err option" where
  "checkFilename name =
     (if Clean name \<noteq> name then Some UncleanFilename
      else if name = [] \<or> name = dot \<or> name = dotdot then Some InvalidFilename
      else if prefix [slash] name then Some InvalidFilename
      else if prefix (dotdot @ [slash]) name then Some InvalidFilename
      else None)"

definition checkFileInfoConsistency :: "FileInfo \<Rightarrow> check_err option" where
  "checkFileInfoConsistency f =
     (case checkFilename (fName f) of
        Some e \<Rightarrow> Some e
      | None \<Rightarrow>
          if fDeleted f \<and> length (fBlocks f) \<noteq> 0 then Some DeletedHasBlocks
          else if fType f = FileInfoTypeDirectory \<and> length (fBlocks f) \<noteq> 0 then Some DirectoryHasBlocks
          else if \<not> fDeleted f \<and> \<not> IsInvalid f \<and> fType f = FileInfoTypeFile \<and> length (fBlocks f) = 0 then Some FileHasNoBlocks
          else None)"

fun checkIndexConsistency :: "FileInfo list \<Rightarrow> (string \<times> check_err) option" where
  "checkIndexConsistency [] = None"
| "checkIndexConsistency (f # fs) =
     (case checkFileInfoConsistency f of
        Some e \<Rightarrow> Some (fName f, e)
      | None \<Rightarrow> checkIndexConsistency fs)"

section \<open>The dispatcher\<close>

definition MaxRequestSize :: int where "MaxRequestSize = 2 * MaxBlockSize"

datatype model_call =
    CallClusterConfig ClusterConfig
  | CallIndex Index
  | CallIndexUpdate IndexUpdate
  | StartRequest Request
  | CallResponse Response
  | CallDownloadProgress DownloadProgress

datatype dispatch_err =
    ConnClosed
  | ClosedByRemote string
  | InvalidState
  | BadIndex string check_err
  | BadRequestName check_err
  | RequestTooSmall int
  | RequestTooBig int
  | HandleError string

datatype conn_state = StateInitial | StateReady

definition stateAfter :: "conn_state \<Rightarrow> bep_message \<Rightarrow> (dispatch_err, conn_state) result" where
  "stateAfter state msg =
     (case msg of
        MsgClusterConfig w \<Rightarrow> Ok (if state = StateInitial then StateReady else state)
      | MsgClose reason \<Rightarrow> Err (ClosedByRemote reason)
      | _ \<Rightarrow> if state \<noteq> StateReady then Err InvalidState else Ok state)"

text \<open>The calls that a message leads to; a failed check ends the connection instead.\<close>

definition callsFor :: "bep_message \<Rightarrow> (dispatch_err, model_call list) result" where
  "callsFor msg =
     (case msg of
        MsgClusterConfig w \<Rightarrow>
          (case clusterConfigFromWire w of
             Ok c \<Rightarrow> Ok [CallClusterConfig c]
           | _ \<Rightarrow> Panic)
      | MsgIndex w \<Rightarrow>
          (case checkIndexConsistency (ixFiles (indexFromWire w)) of
             Some (n, e) \<Rightarrow> Err (BadIndex n e)
           | None \<Rightarrow> Ok [CallIndex (indexFromWire w)])
      | MsgIndexUpdate w \<Rightarrow>
          (case checkIndexConsistency (iuFiles (indexUpdateFromWire w)) of
             Some (n, e) \<Rightarrow> Err (BadIndex n e)
           | None \<Rightarrow> Ok [CallIndexUpdate (indexUpdateFromWire w)])
      | MsgRequest w \<Rightarrow>
          (case checkFilename (bqName w) of
             Some e \<Rightarrow> Err (BadRequestName e)
           | None \<Rightarrow>
               if bqSize w \<le> 0 then Err (RequestTooSmall (bqSize w))
               else if bqSize w > MaxRequestSize then Err (RequestTooBig (bqSize w))
               else Ok [StartRequest (requestFromWire w)])
      | MsgResponse w \<Rightarrow> Ok [CallResponse (responseFromWire w)]
      | MsgDownloadProgress w \<Rightarrow> Ok [CallDownloadProgress (downloadProgressFromWire w)]
      | MsgPing \<Rightarrow> Ok []
      | MsgClose reason \<Rightarrow> Ok [])"

text \<open>Only these calls return an error to the dispatcher; requests run in a goroutine of their own.\<close>

fun can_fail :: "model_call \<Rightarrow> bool" where
  "can_fail (StartRequest r) = False"
| "can_fail (CallResponse r) = False"
| "can_fail c = True"

type_synonym answers = "model_call list \<Rightarrow> model_call \<Rightarrow> string option"

fun makeCalls :: "answers \<Rightarrow> model_call list \<Rightarrow> model_call list \<Rightarrow> string option" where
  "makeCalls ans past [] = None"
| "makeCalls ans past (c # cs) =
     (case (if can_fail c then ans past c else None) of
        Some e \<Rightarrow> Some e
      | None \<Rightarrow> makeCalls ans (past @ [c]) cs)"

text \<open>
  The loop, on the messages that arrive before the connection is closed: the calls made and how
  the loop ends.
\<close>

fun dispatcherLoop ::
  "answers \<Rightarrow> model_call list \<Rightarrow> conn_state \<Rightarrow> bep_message list \<Rightarrow> model_call list \<times> (dispatch_err, unit) result" where
  "dispatcherLoop ans past state [] = ([], Err ConnClosed)"
| "dispatcherLoop ans past state (msg # msgs) =
     (case stateAfter state msg of
        Err e \<Rightarrow> ([], Err e)
      | Panic \<Rightarrow> ([], Panic)
      | Ok state' \<Rightarrow>
          (case callsFor msg of
             Err e \<Rightarrow> ([], Err e)
           | Panic \<Rightarrow> ([], Panic)
           | Ok calls \<Rightarrow>
               (case makeCalls ans past calls of
                  Some e \<Rightarrow> (calls, Err (HandleError e))
                | None \<Rightarrow>
                    (let (rest, r) = dispatcherLoop ans (past @ calls) state' msgs in (calls @ rest, r)))))"

section \<open>Accepted names\<close>

lemma cleanParts_proper: "\<forall>c\<in>set cs. proper_name c \<Longrightarrow> cleanParts r cs = cs"
proof -
  have "foldl (cleanStep r) out cs = rev cs @ out" if "\<forall>c\<in>set cs. proper_name c" for out
    using that by (induction cs arbitrary: out) (auto simp: cleanStep_def proper_name_def)
  then show "\<forall>c\<in>set cs. proper_name c \<Longrightarrow> cleanParts r cs = cs" by (simp add: cleanParts_def)
qed

text \<open>A proper path: every component is a name, so that it stays inside the folder.\<close>

definition proper_path :: "string \<Rightarrow> bool" where
  "proper_path p \<longleftrightarrow> list_all proper_name (split_on slash p)"

lemma split_on_Cons_sep: "split_on sep (sep # s) = [] # split_on sep s"
  by simp

lemma proper_path_not_rooted: "proper_path p \<Longrightarrow> \<not> isRooted p"
  by (cases p) (auto simp: proper_path_def isRooted_def proper_name_def split: if_splits)

lemma Clean_proper_path:
  assumes "proper_path p"
  shows "Clean p = p"
proof -
  have p: "p \<noteq> []" using assms by (auto simp: proper_path_def proper_name_def)
  have "cleanParts False (split_on slash p) = split_on slash p"
    using assms by (intro cleanParts_proper) (simp add: proper_path_def list_all_iff)
  then show ?thesis using p proper_path_not_rooted [OF assms] join_split_on [of slash p] by (simp add: Clean_def Let_def)
qed

lemma checkFilename_None:
  "checkFilename name = None \<longleftrightarrow> proper_path name"
proof
  assume "checkFilename name = None"
  then show "proper_path name"
    using Clean_fixed_inside [of name]
    by (auto simp: checkFilename_def proper_path_def list_all_iff isRooted_def prefix_def neq_Nil_conv split: if_splits)
next
  assume p: "proper_path name"
  have "\<not> prefix (dotdot @ [slash]) name"
  proof
    assume "prefix (dotdot @ [slash]) name"
    then obtain t where "name = dotdot @ slash # t" by (auto simp: prefix_def)
    then have "dotdot \<in> set (split_on slash name)" using split_on_append [of slash dotdot t] by simp
    then show False using p by (auto simp: proper_path_def list_all_iff proper_name_def)
  qed
  moreover have "name \<noteq> []" "name \<noteq> dot" "name \<noteq> dotdot"
    using p by (auto simp: proper_path_def proper_name_def)
  moreover have "\<not> prefix [slash] name"
    using proper_path_not_rooted [OF p] by (cases name) (auto simp: isRooted_def)
  ultimately show "checkFilename name = None" using Clean_proper_path [OF p] by (simp add: checkFilename_def)
qed

text \<open>
  A name is accepted from a peer exactly when it is a sequence of proper names, none of
  them empty, \<open>.\<close> or \<open>..\<close>, separated by single slashes: an accepted name lies
  strictly inside the folder, and no such name is refused.
\<close>

lemma checkFilename_correct: "checkFilename name = None \<longleftrightarrow> proper_path name"
  by (rule checkFilename_None)

section \<open>What reaches the model\<close>

definition file_safe :: "FileInfo \<Rightarrow> bool" where
  "file_safe f \<longleftrightarrow> proper_path (fName f)
     \<and> (fDeleted f \<or> fType f = FileInfoTypeDirectory \<longrightarrow> fBlocks f = [])
     \<and> (\<not> fDeleted f \<and> \<not> IsInvalid f \<and> fType f = FileInfoTypeFile \<longrightarrow> fBlocks f \<noteq> [])"

fun call_safe :: "model_call \<Rightarrow> bool" where
  "call_safe (CallClusterConfig c) \<longleftrightarrow> ids_complete c"
| "call_safe (CallIndex i) \<longleftrightarrow> list_all file_safe (ixFiles i)"
| "call_safe (CallIndexUpdate i) \<longleftrightarrow> list_all file_safe (iuFiles i)"
| "call_safe (StartRequest r) \<longleftrightarrow> proper_path (rqName r) \<and> 0 < rqSize r \<and> rqSize r \<le> MaxRequestSize"
| "call_safe (CallResponse r) \<longleftrightarrow> True"
| "call_safe (CallDownloadProgress d) \<longleftrightarrow> True"

lemma checkFileInfoConsistency_None: "checkFileInfoConsistency f = None \<longleftrightarrow> file_safe f"
  by (auto simp: checkFileInfoConsistency_def file_safe_def checkFilename_None [symmetric] split: option.splits)

lemma checkIndexConsistency_None: "checkIndexConsistency fs = None \<longleftrightarrow> list_all file_safe fs"
  by (induction fs) (auto simp: checkFileInfoConsistency_None [symmetric] split: option.splits)

lemma deviceFromWire_complete: "deviceFromWire w = Ok d \<Longrightarrow> length (dvID d) = DeviceIDLength"
  by (auto simp: deviceFromWire_def split: if_splits)

lemma traverse_result_elem: "traverse_result f xs = Ok ys \<Longrightarrow> y \<in> set ys \<Longrightarrow> \<exists>x\<in>set xs. f x = Ok y"
  by (induction xs arbitrary: ys) (auto simp: bind_result_Ok)

lemma traverse_result_all: "traverse_result f xs = Ok ys \<Longrightarrow> (\<And>x y. f x = Ok y \<Longrightarrow> P y) \<Longrightarrow> \<forall>y\<in>set ys. P y"
  using traverse_result_elem by metis

lemma folderFromWire_complete: "folderFromWire w = Ok f \<Longrightarrow> \<forall>d\<in>set (foDevices f). length (dvID d) = DeviceIDLength"
  using traverse_result_all [of deviceFromWire _ _ "\<lambda>d. length (dvID d) = DeviceIDLength"] deviceFromWire_complete
  by (fastforce simp: folderFromWire_def bind_result_Ok)

lemma clusterConfigFromWire_complete: "clusterConfigFromWire w = Ok c \<Longrightarrow> ids_complete c"
  using traverse_result_all [of folderFromWire _ _ "\<lambda>f. \<forall>d\<in>set (foDevices f). length (dvID d) = DeviceIDLength"] folderFromWire_complete
  by (fastforce simp: clusterConfigFromWire_def bind_result_Ok ids_complete_def)

lemma callsFor_safe: "callsFor msg = Ok calls \<Longrightarrow> list_all call_safe calls"
proof (cases msg)
  case (MsgClusterConfig w)
  then show "callsFor msg = Ok calls \<Longrightarrow> list_all call_safe calls"
    using clusterConfigFromWire_complete [of w] by (auto simp: callsFor_def split: result.splits)
next
  case (MsgIndex w)
  then show "callsFor msg = Ok calls \<Longrightarrow> list_all call_safe calls"
    using checkIndexConsistency_None [of "ixFiles (indexFromWire w)"] by (auto simp: callsFor_def split: option.splits)
next
  case (MsgIndexUpdate w)
  then show "callsFor msg = Ok calls \<Longrightarrow> list_all call_safe calls"
    using checkIndexConsistency_None [of "iuFiles (indexUpdateFromWire w)"] by (auto simp: callsFor_def split: option.splits)
next
  case (MsgRequest w)
  then show "callsFor msg = Ok calls \<Longrightarrow> list_all call_safe calls"
    using checkFilename_None [of "bqName w"]
    by (auto simp: callsFor_def requestFromWire_def split: option.splits if_splits)
qed (auto simp: callsFor_def)

fun is_cluster_config :: "model_call \<Rightarrow> bool" where
  "is_cluster_config (CallClusterConfig c) = True"
| "is_cluster_config c = False"

lemma dispatcherLoop_calls: "list_all call_safe (fst (dispatcherLoop ans past state msgs))"
  by (induction msgs arbitrary: past state)
    (auto simp: split_beta split: result.splits option.splits dest: callsFor_safe)

lemma initial_calls:
  "stateAfter StateInitial msg = Ok state' \<Longrightarrow> callsFor msg = Ok calls \<Longrightarrow> \<exists>c. calls = [CallClusterConfig c]"
  by (auto simp: stateAfter_def callsFor_def split: bep_message.splits result.splits)

text \<open>
  Claim C13. Whatever a peer sends, the model is called only with checked data, and first of all
  with a cluster configuration: every announced file and every requested file has a proper name
  inside the folder, deleted files and directories have no blocks and other valid files have
  some, requests ask for a positive number of bytes up to the maximum, and device IDs are complete.
\<close>

theorem dispatch_safe:
  "(case fst (dispatcherLoop ans [] StateInitial msgs) of [] \<Rightarrow> True | c # cs \<Rightarrow> is_cluster_config c)
    \<and> list_all call_safe (fst (dispatcherLoop ans [] StateInitial msgs))"
proof
  show "list_all call_safe (fst (dispatcherLoop ans [] StateInitial msgs))" by (rule dispatcherLoop_calls)
  show "case fst (dispatcherLoop ans [] StateInitial msgs) of [] \<Rightarrow> True | c # cs \<Rightarrow> is_cluster_config c"
    by (cases msgs) (auto simp: split_beta split: result.splits option.splits dest!: initial_calls)
qed

section \<open>Panics\<close>

lemma stateAfter_no_Panic: "stateAfter state msg \<noteq> Panic"
  by (auto simp: stateAfter_def split: bep_message.splits)

lemma callsFor_Panic: "callsFor msg = Panic \<longleftrightarrow> (\<exists>w. msg = MsgClusterConfig w \<and> short_ids w)"
proof (cases msg)
  case (MsgClusterConfig w)
  then show ?thesis
    using clusterConfigFromWire_Panic [of w] by (cases "clusterConfigFromWire w") (auto simp: callsFor_def)
qed (auto simp: callsFor_def split: option.splits)

lemma stateAfter_ClusterConfig [simp]: "stateAfter state (MsgClusterConfig w) \<noteq> Err e"
  by (simp add: stateAfter_def)

lemma split_first_short:
  "(\<exists>pre w post. msg # msgs = pre @ MsgClusterConfig w # post \<and> short_ids w \<and> Q pre) \<longleftrightarrow>
     (\<exists>w. msg = MsgClusterConfig w \<and> short_ids w) \<and> Q []
     \<or> (\<exists>pre w post. msgs = pre @ MsgClusterConfig w # post \<and> short_ids w \<and> Q (msg # pre))"
  by (auto simp: Cons_eq_append_conv)

lemma dispatcherLoop_ConnClosed:
  "stateAfter state msg = Err e \<Longrightarrow> e \<noteq> ConnClosed" "callsFor msg = Err e \<Longrightarrow> e \<noteq> ConnClosed"
  by (cases msg; auto simp: stateAfter_def callsFor_def split: result.splits option.splits if_splits)+

text \<open>
  Claim C33. A peer can crash the program: the dispatcher panics exactly when it gets to a cluster
  configuration with a device ID of fewer than 32 bytes, at any point of the connection. No
  other message makes it panic.
\<close>

theorem dispatcher_panics:
  "snd (dispatcherLoop ans past state msgs) = Panic \<longleftrightarrow>
     (\<exists>pre w post. msgs = pre @ MsgClusterConfig w # post \<and> short_ids w
        \<and> snd (dispatcherLoop ans past state pre) = Err ConnClosed)"
proof (induction msgs arbitrary: past state)
  case (Cons msg msgs)
  show ?case
  proof (cases "stateAfter state msg")
    case (Ok state')
    show ?thesis
    proof (cases "callsFor msg")
      case c: (Ok calls)
      have no: "\<not> (\<exists>w. msg = MsgClusterConfig w \<and> short_ids w)" using c callsFor_Panic [of msg] by auto
      show ?thesis
      proof (cases "makeCalls ans past calls")
        case None
        then have "snd (dispatcherLoop ans past state (msg # ms)) = snd (dispatcherLoop ans (past @ calls) state' ms)" for ms
          using Ok c by (simp add: split_beta)
        then show ?thesis using no unfolding split_first_short by (simp only: Cons.IH) simp
      next
        case (Some e)
        then show ?thesis using Ok c no unfolding split_first_short by simp
      qed
    next
      case (Err e)
      then show ?thesis
        using Ok callsFor_Panic [of msg] dispatcherLoop_ConnClosed(2) [OF Err] unfolding split_first_short by simp
    next
      case Panic
      then show ?thesis using Ok callsFor_Panic [of msg] unfolding split_first_short by simp
    qed
  next
    case (Err e)
    then show ?thesis
      using dispatcherLoop_ConnClosed(1) [OF Err]
      unfolding split_first_short by auto
  qed (simp add: stateAfter_no_Panic)
qed simp

section \<open>From one model to the other\<close>

text \<open>The messages as the methods of a connection take them, their wire form, and the call they lead to at the peer.\<close>

datatype native_message =
    NClusterConfig ClusterConfig
  | NIndex Index
  | NIndexUpdate IndexUpdate
  | NRequest Request
  | NResponse Response
  | NDownloadProgress DownloadProgress
  | NPing

fun native_wire :: "native_message \<Rightarrow> (unit, bep_message) result" where
  "native_wire (NClusterConfig c) = Ok (MsgClusterConfig (ClusterConfig_toWire c))"
| "native_wire (NIndex i) = bind_result (Index_toWire i) (\<lambda>w. Ok (MsgIndex w))"
| "native_wire (NIndexUpdate i) = bind_result (IndexUpdate_toWire i) (\<lambda>w. Ok (MsgIndexUpdate w))"
| "native_wire (NRequest r) = Ok (MsgRequest (Request_toWire r))"
| "native_wire (NResponse r) = Ok (MsgResponse (Response_toWire r))"
| "native_wire (NDownloadProgress d) = Ok (MsgDownloadProgress (DownloadProgress_toWire d))"
| "native_wire NPing = Ok MsgPing"

fun native_calls :: "native_message \<Rightarrow> model_call list" where
  "native_calls (NClusterConfig c) = [CallClusterConfig c]"
| "native_calls (NIndex i) = [CallIndex (i\<lparr>ixFiles := map as_received (ixFiles i)\<rparr>)]"
| "native_calls (NIndexUpdate i) = [CallIndexUpdate (i\<lparr>iuFiles := map as_received (iuFiles i)\<rparr>)]"
| "native_calls (NRequest r) = [StartRequest r]"
| "native_calls (NResponse r) = [CallResponse r]"
| "native_calls (NDownloadProgress d) = [CallDownloadProgress d]"
| "native_calls NPing = []"

definition file_sendable :: "FileInfo \<Rightarrow> bool" where
  "file_sendable f \<longleftrightarrow> fi_fits f \<and> \<not> fTruncated f \<and> file_safe f"

fun native_ok :: "native_message \<Rightarrow> bool" where
  "native_ok (NClusterConfig c) \<longleftrightarrow> ids_complete c"
| "native_ok (NIndex i) \<longleftrightarrow> list_all file_sendable (ixFiles i)"
| "native_ok (NIndexUpdate i) \<longleftrightarrow> list_all file_sendable (iuFiles i)"
| "native_ok (NRequest r) \<longleftrightarrow> req_fits r \<and> proper_path (rqName r) \<and> 0 < rqSize r \<and> rqSize r \<le> MaxRequestSize"
| "native_ok (NResponse r) \<longleftrightarrow> is_i32 (rsID r)"
| "native_ok (NDownloadProgress d) \<longleftrightarrow> list_all upd_fits (dpUpdates d)"
| "native_ok NPing \<longleftrightarrow> True"

lemma file_safe_received:
  assumes "file_sendable f"
  shows "file_safe (as_received f)"
proof -
  have "IsInvalid (as_received f) = IsInvalid f"
    using FileInfo_wire [of f] assms by (auto simp: file_sendable_def as_received_def)
  then show ?thesis using assms by (simp add: file_sendable_def file_safe_def as_received_def)
qed

lemma files_safe_received: "list_all file_sendable fs \<Longrightarrow> checkIndexConsistency (map as_received fs) = None"
  by (simp add: checkIndexConsistency_None list_all_iff file_safe_received)

lemma files_sendable_fit: "list_all file_sendable fs \<Longrightarrow> list_all (\<lambda>f. fi_fits f \<and> \<not> fTruncated f) fs"
  by (simp add: list_all_iff file_sendable_def)

lemma native_delivered:
  assumes "native_ok m"
  shows "\<exists>w. native_wire m = Ok w \<and> callsFor w = Ok (native_calls m) \<and> (\<forall>s. s = StateReady \<or> (\<exists>c. m = NClusterConfig c) \<longrightarrow> stateAfter s w = Ok StateReady)"
proof (cases m)
  case (NIndex i)
  then obtain w where "Index_toWire i = Ok w" "indexFromWire w = i\<lparr>ixFiles := map as_received (ixFiles i)\<rparr>"
    using index_wire [OF files_sendable_fit] assms by auto
  then show ?thesis using NIndex assms by (simp add: callsFor_def stateAfter_def files_safe_received)
next
  case (NIndexUpdate i)
  then obtain w where "IndexUpdate_toWire i = Ok w" "indexUpdateFromWire w = i\<lparr>iuFiles := map as_received (iuFiles i)\<rparr>"
    using indexUpdate_wire [OF files_sendable_fit] assms by auto
  then show ?thesis using NIndexUpdate assms by (simp add: callsFor_def stateAfter_def files_safe_received)
next
  case (NClusterConfig c)
  then show ?thesis using assms by (auto simp: callsFor_def stateAfter_def wire_simps) (metis conn_state.exhaust)
next
  case (NRequest r)
  then show ?thesis
    using assms checkFilename_None [of "rqName r"] request_wire [of r]
    by (simp add: callsFor_def stateAfter_def Request_toWire_def req_fits_def)
next
  case (NDownloadProgress d)
  have "downloadProgressFromWire (DownloadProgress_toWire d) = d"
    using assms NDownloadProgress
    by (cases d) (auto simp: downloadProgressFromWire_def DownloadProgress_toWire_def list_all_iff wire_simps intro!: map_idI)
  then show ?thesis using NDownloadProgress by (simp add: callsFor_def stateAfter_def)
qed (use assms in \<open>simp_all add: callsFor_def stateAfter_def wire_simps\<close>)

lemma makeCalls_None: "(\<And>p c. ans p c = None) \<Longrightarrow> makeCalls ans past cs = None"
  by (induction cs arbitrary: past) auto

lemma dispatch_native:
  assumes "\<And>p c. ans p c = None"
  shows "list_all native_ok ms \<Longrightarrow> traverse_result native_wire ms = Ok ws \<Longrightarrow>
    dispatcherLoop ans past StateReady ws = (concat (map native_calls ms), Err ConnClosed)"
proof (induction ms arbitrary: ws past)
  case (Cons m ms)
  then obtain w vs where "native_wire m = Ok w" "callsFor w = Ok (native_calls m)" "stateAfter StateReady w = Ok StateReady"
      "ws = w # vs" "traverse_result native_wire ms = Ok vs"
    using native_delivered [of m] by (auto simp: bind_result_Ok)
  then show ?case using Cons.IH [of vs] Cons.prems(1) by (simp add: makeCalls_None [OF assms])
qed simp

lemma traverse_native_wire: "list_all native_ok ms \<Longrightarrow> \<exists>ws. traverse_result native_wire ms = Ok ws"
proof (induction ms)
  case (Cons m ms)
  then show ?case using native_delivered [of m] by auto
qed simp

lemma traverse_result_map: "traverse_result f (map g xs) = traverse_result (\<lambda>x. f (g x)) xs"
  by (induction xs) auto

definition codec1 :: codec where
  "codec1 = codec0
     \<lparr>msgSize := (\<lambda>m. 0),
      msgMarshal := (\<lambda>m. if m = MsgPing \<or> m = MsgClusterConfig \<lparr>bcFolders = [], bcSecondary = True\<rparr> then Some [] else None),
      msgUnmarshal := (\<lambda>t bs. Some (if t = 6 then MsgPing else MsgClusterConfig \<lparr>bcFolders = [], bcSecondary = True\<rparr>))\<rparr>"

lemma codec1_ok: "codec_ok codec1"
  using codec0_ok unfolding codec_ok_def by (auto simp: codec1_def typeOf_def split: if_splits)

text \<open>
  Claim C4. What one device sends is what the model of the other gets. A session that starts with
  a cluster configuration and goes on with any sequence of indexes, updates, requests,
  responses, progress messages and pings is written, framed and compressed, read, decoded,
  checked and dispatched without error, and the calls to the model at the other end are exactly
  those messages, in order, the announced files as a peer sees them.
\<close>

theorem session_delivered:
  assumes "codec_ok cd" and "compr \<in> {CompressionNever, CompressionAlways, CompressionMetadata}"
    and "\<And>past c. ans past c = None"
    and "list_all native_ok (NClusterConfig cc # ms)"
    and "\<And>m w. m \<in> set (NClusterConfig cc # ms) \<Longrightarrow> native_wire m = Ok w \<Longrightarrow> sendable cd w"
  shows "\<exists>ws outs. traverse_result native_wire (NClusterConfig cc # ms) = Ok ws
    \<and> traverse_result (writeMessage cd compr) ws = Ok outs
    \<and> dispatcherLoop ans [] StateInitial (fst (readerLoop cd (concat outs)))
        = (CallClusterConfig cc # concat (map native_calls ms), Err ConnClosed)"
proof -
  let ?ms = "NClusterConfig cc # ms"
  obtain ws where ws: "traverse_result native_wire ?ms = Ok ws" using traverse_native_wire [OF assms(4)] by blast
  have "\<forall>w\<in>set ws. sendable cd w"
    using traverse_result_elem [OF ws] assms(5) by blast
  then have "\<forall>i\<in>set (map (Sent compr) ws). item_ok cd i" using assms(2) by auto
  from stream_read [OF assms(1) this] obtain outs where o: "traverse_result (writeMessage cd compr) ws = Ok outs"
      "fst (readerLoop cd (concat outs)) = received (map (Sent compr) ws)"
    by (auto simp: traverse_result_map)
  have r: "received (map (Sent compr) ws) = ws" by (induction ws) (auto simp: received_def)
  obtain w vs where w: "native_wire (NClusterConfig cc) = Ok w" "ws = w # vs" "traverse_result native_wire ms = Ok vs"
    using ws by (auto simp: bind_result_Ok)
  have "callsFor w = Ok [CallClusterConfig cc]" "stateAfter StateInitial w = Ok StateReady"
    using native_delivered [of "NClusterConfig cc"] assms(4) w(1) by auto
  then have "dispatcherLoop ans [] StateInitial ws = (CallClusterConfig cc # concat (map native_calls ms), Err ConnClosed)"
    using dispatch_native [OF assms(3) _ w(3)] assms(4) w(2) by (simp add: makeCalls_None [OF assms(3)])
  then show ?thesis using ws o r by auto
qed

theorem session_delivered_witness:
  "\<exists>outs. traverse_result (writeMessage codec1 CompressionNever) [MsgClusterConfig \<lparr>bcFolders = [], bcSecondary = True\<rparr>, MsgPing] = Ok outs
    \<and> fst (dispatcherLoop (\<lambda>past c. None) [] StateInitial (fst (readerLoop codec1 (concat outs))))
        = [CallClusterConfig \<lparr>ccFolders = [], ccSecondary = True\<rparr>]"
proof -
  have s: "sendable codec1 w" if "native_wire m = Ok w" "m \<in> set [NClusterConfig \<lparr>ccFolders = [], ccSecondary = True\<rparr>, NPing]" for m w
    using that by (auto simp: sendable_def codec1_def MaxMessageLen_def ClusterConfig_toWire_def)
  show ?thesis
    using session_delivered [OF codec1_ok, of CompressionNever "\<lambda>past c. None" "\<lparr>ccFolders = [], ccSecondary = True\<rparr>" "[NPing]"] s
    by (auto simp: ids_complete_def ClusterConfig_toWire_def)
qed

end
