(* ===== verification/Request_Table.thy ===== *)
theory Request_Table
  imports Protocol_Conn Transition "HOL-Library.AList"
begin

text \<open>
  Requests on a connection and the responses to them, \<open>lib/protocol/protocol.go\<close>: \<open>Request\<close>
  registers a channel under a fresh number, the dispatcher's \<open>handleResponse\<close> delivers to it,
  and \<open>internalClose\<close> closes the channels of all requests still waiting. Any number of
  requests run at the same time; their steps interleave with those of the writer, the
  dispatcher and the closing of the connection, each critical section of \<open>awaitingMut\<close> being
  one step.

  A channel made with \<open>make(chan asyncResult, 1)\<close> holds at most one value. Sending on a closed
  channel and closing a closed channel panic; sending on a full one blocks. The counter
  \<open>nextID\<close> is a 64-bit integer, which no connection lives long enough to exhaust; the number on
  the wire has 32 bits.
\<close>

section \<open>Channels and the table\<close>

record asyncResult =
  arVal :: "byte list"
  arErr :: "req_error option"

record rchan =
  chBuf :: "asyncResult option"
  chClosed :: bool

datatype chan_fault = Blocks

definition freshChan :: rchan where
  "freshChan = \<lparr>chBuf = None, chClosed = False\<rparr>"

definition chanSend :: "asyncResult \<Rightarrow> rchan \<Rightarrow> (chan_fault, rchan) result" where
  "chanSend a c = (if chClosed c then Panic else if chBuf c \<noteq> None then Err Blocks else Ok (c\<lparr>chBuf := Some a\<rparr>))"

definition chanClose :: "rchan \<Rightarrow> (chan_fault, rchan) result" where
  "chanClose c = (if chClosed c then Panic else Ok (c\<lparr>chClosed := True\<rparr>))"

record req_table =
  awaiting :: "(int \<times> nat) list"
  nextID :: int
  chans :: "nat \<Rightarrow> rchan"

definition registerRequest :: "nat \<Rightarrow> req_table \<Rightarrow> (chan_fault, int \<times> req_table) result" where
  "registerRequest k t =
     (let i = nextID t;
          t1 = t\<lparr>nextID := i + 1\<rparr>
      in if map_of (awaiting t1) i \<noteq> None then Panic
         else Ok (i, t1\<lparr>awaiting := AList.update i k (awaiting t1)\<rparr>))"

definition handleResponse :: "Response \<Rightarrow> req_table \<Rightarrow> (chan_fault, req_table) result" where
  "handleResponse resp t =
     (case map_of (awaiting t) (rsID resp) of
        None \<Rightarrow> Ok t
      | Some k \<Rightarrow>
          bind_result (chanSend \<lparr>arVal = rsData resp, arErr = codeToError (rsCode resp)\<rparr> (chans t k)) (\<lambda>c.
          bind_result (chanClose c) (\<lambda>c'.
            Ok (t\<lparr>awaiting := AList.delete (rsID resp) (awaiting t), chans := (chans t)(k := c')\<rparr>))))"

fun closeChans :: "(int \<times> nat) list \<Rightarrow> (nat \<Rightarrow> rchan) \<Rightarrow> (chan_fault, nat \<Rightarrow> rchan) result" where
  "closeChans [] h = Ok h"
| "closeChans ((i, k) # as) h = bind_result (chanClose (h k)) (\<lambda>c. closeChans as (h(k := c)))"

definition closeAwaiting :: "req_table \<Rightarrow> (chan_fault, req_table) result" where
  "closeAwaiting t = bind_result (closeChans (awaiting t) (chans t)) (\<lambda>h. Ok (t\<lparr>awaiting := [], chans := h\<rparr>))"

section \<open>The connection as a system of processes\<close>

datatype req_result = Answer asyncResult | ReqErrClosed | ReqContext

text \<open>Where a call of \<open>Request\<close> is; the channel of the \<open>k\<close>-th call has address \<open>k\<close>.\<close>

datatype req_pc =
    ReqStart Request
  | ReqChecked Request
  | ReqRegistered Request
  | ReqWaiting int
  | ReqDone "int option" req_result

record conn_sys =
  tbl :: req_table
  reqs :: "req_pc list"
  sentReqs :: "bep_Request list"
  handled :: "Response list"
  connClosed :: bool
  cleaned :: bool
  writerDone :: bool
  dispatcherDone :: bool

definition newConn :: conn_sys where
  "newConn = \<lparr>tbl = \<lparr>awaiting = [], nextID = 0, chans = (\<lambda>k. freshChan)\<rparr>, reqs = [], sentReqs = [], handled = [],
     connClosed = False, cleaned = False, writerDone = False, dispatcherDone = False\<rparr>"

text \<open>The steps other than the cancellation of a request by its context.\<close>

inductive conn_step :: "conn_sys \<Rightarrow> conn_sys \<Rightarrow> bool" where
  req_call: "conn_step s (s\<lparr>reqs := reqs s @ [ReqStart r], tbl := (tbl s)\<lparr>chans := (chans (tbl s))(length (reqs s) := freshChan)\<rparr>\<rparr>)"
| req_closed: "k < length (reqs s) \<Longrightarrow> reqs s ! k = ReqStart r \<Longrightarrow> connClosed s \<Longrightarrow>
    conn_step s (s\<lparr>reqs := (reqs s)[k := ReqDone None ReqErrClosed]\<rparr>)"
| req_open: "k < length (reqs s) \<Longrightarrow> reqs s ! k = ReqStart r \<Longrightarrow> \<not> connClosed s \<Longrightarrow>
    conn_step s (s\<lparr>reqs := (reqs s)[k := ReqChecked r]\<rparr>)"
| req_register: "k < length (reqs s) \<Longrightarrow> reqs s ! k = ReqChecked r \<Longrightarrow> registerRequest k (tbl s) = Ok (i, t) \<Longrightarrow>
    conn_step s (s\<lparr>tbl := t, reqs := (reqs s)[k := ReqRegistered (r\<lparr>rqID := i\<rparr>)]\<rparr>)"
| req_sent: "k < length (reqs s) \<Longrightarrow> reqs s ! k = ReqRegistered r \<Longrightarrow> \<not> writerDone s \<Longrightarrow>
    conn_step s (s\<lparr>sentReqs := sentReqs s @ [Request_toWire r], reqs := (reqs s)[k := ReqWaiting (rqID r)]\<rparr>)"
| req_unsent: "k < length (reqs s) \<Longrightarrow> reqs s ! k = ReqRegistered r \<Longrightarrow> connClosed s \<Longrightarrow>
    conn_step s (s\<lparr>reqs := (reqs s)[k := ReqDone (Some (rqID r)) ReqErrClosed]\<rparr>)"
| req_answer: "k < length (reqs s) \<Longrightarrow> reqs s ! k = ReqWaiting i \<Longrightarrow> chBuf (chans (tbl s) k) = Some a \<Longrightarrow>
    conn_step s (s\<lparr>tbl := (tbl s)\<lparr>chans := (chans (tbl s))(k := (chans (tbl s) k)\<lparr>chBuf := None\<rparr>)\<rparr>,
      reqs := (reqs s)[k := ReqDone (Some i) (Answer a)]\<rparr>)"
| req_chan_closed: "k < length (reqs s) \<Longrightarrow> reqs s ! k = ReqWaiting i \<Longrightarrow>
    chBuf (chans (tbl s) k) = None \<Longrightarrow> chClosed (chans (tbl s) k) \<Longrightarrow>
    conn_step s (s\<lparr>reqs := (reqs s)[k := ReqDone (Some i) ReqErrClosed]\<rparr>)"
| response: "\<not> dispatcherDone s \<Longrightarrow> handleResponse resp (tbl s) = Ok t \<Longrightarrow>
    conn_step s (s\<lparr>tbl := t, handled := handled s @ [resp]\<rparr>)"
| close_conn: "\<not> connClosed s \<Longrightarrow> conn_step s (s\<lparr>connClosed := True\<rparr>)"
| close_awaiting: "connClosed s \<Longrightarrow> \<not> cleaned s \<Longrightarrow> closeAwaiting (tbl s) = Ok t \<Longrightarrow>
    conn_step s (s\<lparr>tbl := t, cleaned := True\<rparr>)"
| writer_stops: "conn_step s (s\<lparr>writerDone := True\<rparr>)"
| dispatcher_stops: "connClosed s \<Longrightarrow> conn_step s (s\<lparr>dispatcherDone := True\<rparr>)"

text \<open>A request whose context is done returns, from wherever it waits.\<close>

inductive cancel_step :: "conn_sys \<Rightarrow> conn_sys \<Rightarrow> bool" where
  cancel_start: "k < length (reqs s) \<Longrightarrow> reqs s ! k = ReqStart r \<Longrightarrow>
    cancel_step s (s\<lparr>reqs := (reqs s)[k := ReqDone None ReqContext]\<rparr>)"
| cancel_send: "k < length (reqs s) \<Longrightarrow> reqs s ! k = ReqRegistered r \<Longrightarrow>
    cancel_step s (s\<lparr>reqs := (reqs s)[k := ReqDone (Some (rqID r)) ReqErrClosed]\<rparr>)"
| cancel_wait: "k < length (reqs s) \<Longrightarrow> reqs s ! k = ReqWaiting i \<Longrightarrow>
    cancel_step s (s\<lparr>reqs := (reqs s)[k := ReqDone (Some i) ReqContext]\<rparr>)"

definition any_step :: "conn_sys \<Rightarrow> conn_sys \<Rightarrow> bool" where
  "any_step s s' \<longleftrightarrow> conn_step s s' \<or> cancel_step s s'"

section \<open>The invariant\<close>

fun reqNumber :: "req_pc \<Rightarrow> int option" where
  "reqNumber (ReqRegistered r) = Some (rqID r)"
| "reqNumber (ReqWaiting i) = Some i"
| "reqNumber (ReqDone i res) = i"
| "reqNumber p = None"

definition answer_of :: "Response list \<Rightarrow> int \<Rightarrow> asyncResult \<Rightarrow> bool" where
  "answer_of rs i a \<longleftrightarrow> (\<exists>resp\<in>set rs. rsID resp = i \<and> a = \<lparr>arVal = rsData resp, arErr = codeToError (rsCode resp)\<rparr>)"

text \<open>
  Every entry of the table belongs to one request, whose channel is open and empty; numbers are
  not shared; what a request got or is about to get was a response with its number; and a
  request that waits without an entry has something in its channel or a closed channel.
\<close>

definition table_ok :: "conn_sys \<Rightarrow> bool" where
  "table_ok s \<longleftrightarrow> distinct (map fst (awaiting (tbl s))) \<and> 0 \<le> nextID (tbl s)
     \<and> (\<forall>i k. map_of (awaiting (tbl s)) i = Some k \<longrightarrow>
          k < length (reqs s) \<and> reqNumber (reqs s ! k) = Some i \<and> chans (tbl s) k = freshChan)"

definition numbers_ok :: "conn_sys \<Rightarrow> bool" where
  "numbers_ok s \<longleftrightarrow>
     (\<forall>k<length (reqs s). \<forall>i. reqNumber (reqs s ! k) = Some i \<longrightarrow>
        0 \<le> i \<and> i < nextID (tbl s) \<and> (\<forall>l<length (reqs s). reqNumber (reqs s ! l) = Some i \<longrightarrow> l = k))
     \<and> (\<forall>k<length (reqs s). reqNumber (reqs s ! k) = None \<longrightarrow> chans (tbl s) k = freshChan)"

definition answers_ok :: "conn_sys \<Rightarrow> bool" where
  "answers_ok s \<longleftrightarrow>
     (\<forall>k<length (reqs s). \<forall>a. chBuf (chans (tbl s) k) = Some a \<longrightarrow>
        (\<exists>i. reqNumber (reqs s ! k) = Some i \<and> answer_of (handled s) i a))
     \<and> (\<forall>k<length (reqs s). \<forall>i a. reqs s ! k = ReqDone (Some i) (Answer a) \<longrightarrow> answer_of (handled s) i a)
     \<and> (\<forall>k<length (reqs s). \<forall>a. reqs s ! k \<noteq> ReqDone None (Answer a))"

definition waiting_ok :: "conn_sys \<Rightarrow> bool" where
  "waiting_ok s \<longleftrightarrow>
     (\<forall>k<length (reqs s). \<forall>i. reqs s ! k = ReqWaiting i \<or> (\<exists>r. reqs s ! k = ReqRegistered r \<and> rqID r = i) \<longrightarrow>
        map_of (awaiting (tbl s)) i = Some k \<or> chClosed (chans (tbl s) k))"

definition conn_inv :: "conn_sys \<Rightarrow> bool" where
  "conn_inv s \<longleftrightarrow> table_ok s \<and> numbers_ok s \<and> answers_ok s \<and> waiting_ok s"

section \<open>The operations of the table do not fail\<close>

lemmas conn_inv_defs = table_ok_def numbers_ok_def answers_ok_def waiting_ok_def

definition delivered :: "Response \<Rightarrow> rchan" where
  "delivered resp = \<lparr>chBuf = Some \<lparr>arVal = rsData resp, arErr = codeToError (rsCode resp)\<rparr>, chClosed = True\<rparr>"

lemma handleResponse_Ok:
  assumes "conn_inv s"
  shows "handleResponse resp (tbl s) = Ok
    (case map_of (awaiting (tbl s)) (rsID resp) of
       None \<Rightarrow> tbl s
     | Some k \<Rightarrow> (tbl s)\<lparr>awaiting := AList.delete (rsID resp) (awaiting (tbl s)), chans := (chans (tbl s))(k := delivered resp)\<rparr>)"
  using assms
  by (auto simp: conn_inv_def table_ok_def handleResponse_def chanSend_def chanClose_def freshChan_def delivered_def split: option.splits)

lemma conn_inv_entry:
  assumes "conn_inv s" and "map_of (awaiting (tbl s)) i = Some k"
  shows "k < length (reqs s)" "reqNumber (reqs s ! k) = Some i" "chans (tbl s) k = freshChan"
  using assms unfolding conn_inv_def table_ok_def by blast+

lemma conn_inv_number:
  assumes "conn_inv s" and "k < length (reqs s)" and "reqNumber (reqs s ! k) = Some i"
  shows "0 \<le> i" "i < nextID (tbl s)" "l < length (reqs s) \<Longrightarrow> reqNumber (reqs s ! l) = Some i \<Longrightarrow> l = k"
  using assms unfolding conn_inv_def numbers_ok_def by blast+

lemma registerRequest_Ok:
  assumes "conn_inv s"
  shows "registerRequest k (tbl s) = Ok (nextID (tbl s),
    (tbl s)\<lparr>nextID := nextID (tbl s) + 1, awaiting := AList.update (nextID (tbl s)) k (awaiting (tbl s))\<rparr>)"
proof -
  have "map_of (awaiting (tbl s)) (nextID (tbl s)) = None"
    using conn_inv_entry [OF assms] conn_inv_number(2) [OF assms] by (metis less_irrefl not_None_eq)
  then show ?thesis by (simp add: registerRequest_def Let_def)
qed

lemma closeChans_Ok:
  "distinct (map snd as) \<Longrightarrow> (\<forall>k\<in>set (map snd as). h k = freshChan) \<Longrightarrow>
     closeChans as h = Ok (\<lambda>k. if k \<in> set (map snd as) then \<lparr>chBuf = None, chClosed = True\<rparr> else h k)"
proof (induction as arbitrary: h)
  case (Cons a as)
  obtain i k where a: "a = (i, k)" by fastforce
  have "closeChans as (h(k := \<lparr>chBuf = None, chClosed = True\<rparr>)) =
      Ok (\<lambda>l. if l \<in> set (map snd as) then \<lparr>chBuf = None, chClosed = True\<rparr> else (h(k := \<lparr>chBuf = None, chClosed = True\<rparr>)) l)"
    using Cons.prems a by (intro Cons.IH) auto
  then show ?case using Cons.prems a by (auto simp: chanClose_def freshChan_def)
qed simp

lemma closeAwaiting_Ok:
  assumes "conn_inv s"
  shows "closeAwaiting (tbl s) = Ok ((tbl s)\<lparr>awaiting := [],
    chans := (\<lambda>k. if k \<in> set (map snd (awaiting (tbl s))) then \<lparr>chBuf = None, chClosed = True\<rparr> else chans (tbl s) k)\<rparr>)"
proof -
  let ?a = "awaiting (tbl s)"
  have in_table: "map_of ?a i = Some k" if "(i, k) \<in> set ?a" for i k
    using that assms by (simp add: conn_inv_def table_ok_def)
  have "inj_on snd (set ?a)"
  proof (rule inj_onI)
    fix x y
    assume "x \<in> set ?a" "y \<in> set ?a" "snd x = snd y"
    then show "x = y"
      using conn_inv_entry(2) [OF assms in_table, of "fst x" "snd x"] conn_inv_entry(2) [OF assms in_table, of "fst y" "snd x"]
      by (cases x; cases y) auto
  qed
  moreover have "distinct ?a" using assms by (simp add: conn_inv_def table_ok_def distinct_map)
  ultimately have "distinct (map snd ?a)" by (simp add: distinct_map)
  moreover have "\<forall>k\<in>set (map snd ?a). chans (tbl s) k = freshChan"
    using conn_inv_entry(3) [OF assms in_table] by auto
  ultimately show ?thesis by (simp add: closeAwaiting_def closeChans_Ok)
qed

section \<open>Preservation\<close>

fun reqPending :: "req_pc \<Rightarrow> int option" where
  "reqPending (ReqRegistered r) = Some (rqID r)"
| "reqPending (ReqWaiting i) = Some i"
| "reqPending p = None"

lemma waiting_ok_alt:
  "waiting_ok s \<longleftrightarrow> (\<forall>k<length (reqs s). \<forall>i. reqPending (reqs s ! k) = Some i \<longrightarrow>
     map_of (awaiting (tbl s)) i = Some k \<or> chClosed (chans (tbl s) k))"
proof -
  have "reqPending p = Some i \<longleftrightarrow> p = ReqWaiting i \<or> (\<exists>r. p = ReqRegistered r \<and> rqID r = i)" for p i
    by (cases p) auto
  then show ?thesis by (simp add: waiting_ok_def)
qed

text \<open>A request moves on without touching the table.\<close>

lemma conn_inv_move:
  assumes "conn_inv s" and "k < length (reqs s)" and "reqNumber p = reqNumber (reqs s ! k)"
    and "\<forall>i. reqPending p = Some i \<longrightarrow> reqPending (reqs s ! k) = Some i"
    and "\<forall>j a. p \<noteq> ReqDone j (Answer a)"
  shows "conn_inv (s\<lparr>reqs := (reqs s)[k := p]\<rparr>)"
proof -
  have n: "reqNumber ((reqs s)[k := p] ! l) = reqNumber (reqs s ! l)" for l
    using assms(2,3) by (cases "l = k") auto
  have "reqPending ((reqs s)[k := p] ! l) = Some i \<Longrightarrow> reqPending (reqs s ! l) = Some i" for l i
    using assms(2,4) by (cases "l = k") auto
  then have "waiting_ok (s\<lparr>reqs := (reqs s)[k := p]\<rparr>)"
    using assms(1) by (auto simp: conn_inv_def waiting_ok_alt)
  moreover have "(reqs s)[k := p] ! l = ReqDone j (Answer a) \<Longrightarrow> reqs s ! l = ReqDone j (Answer a)" for l j a
    using assms(2,5) by (cases "l = k") auto
  then have "answers_ok (s\<lparr>reqs := (reqs s)[k := p]\<rparr>)"
    using assms(1) by (auto simp: conn_inv_def answers_ok_def n)
  ultimately show ?thesis
    using assms(1) by (auto simp: conn_inv_def table_ok_def numbers_ok_def n)
qed

lemma conn_inv_flags [simp]:
  "conn_inv (s\<lparr>connClosed := b\<rparr>) = conn_inv s" "conn_inv (s\<lparr>cleaned := b\<rparr>) = conn_inv s"
  "conn_inv (s\<lparr>writerDone := b\<rparr>) = conn_inv s" "conn_inv (s\<lparr>dispatcherDone := b\<rparr>) = conn_inv s"
  "conn_inv (s\<lparr>sentReqs := ws\<rparr>) = conn_inv s"
  by (simp_all add: conn_inv_def conn_inv_defs)

lemma conn_inv_call:
  assumes "conn_inv s"
  shows "conn_inv (s\<lparr>reqs := reqs s @ [ReqStart r], tbl := (tbl s)\<lparr>chans := (chans (tbl s))(length (reqs s) := freshChan)\<rparr>\<rparr>)"
proof -
  let ?s = "s\<lparr>reqs := reqs s @ [ReqStart r], tbl := (tbl s)\<lparr>chans := (chans (tbl s))(length (reqs s) := freshChan)\<rparr>\<rparr>"
  have nth: "reqs ?s ! l = (if l < length (reqs s) then reqs s ! l else ReqStart r)" if "l < length (reqs ?s)" for l
    using that by (simp add: nth_append)
  have old: "l < length (reqs s)" if "l < length (reqs ?s)" "reqs ?s ! l \<noteq> ReqStart r" for l
    using that nth [of l] by (simp split: if_splits)
  have num: "l < length (reqs s) \<and> reqNumber (reqs s ! l) = Some i" if "l < length (reqs ?s)" "reqNumber (reqs ?s ! l) = Some i" for l i
    using that nth [of l] by (simp split: if_splits)
  have pend: "l < length (reqs s) \<and> reqPending (reqs s ! l) = Some i" if "l < length (reqs ?s)" "reqPending (reqs ?s ! l) = Some i" for l i
    using that nth [of l] by (simp split: if_splits)
  show ?thesis
    unfolding conn_inv_def
  proof (intro conjI)
    show "table_ok ?s" using assms by (fastforce simp: conn_inv_def table_ok_def nth_append)
    show "numbers_ok ?s"
      unfolding numbers_ok_def
    proof (intro conjI allI impI)
      fix k i l
      assume k: "k < length (reqs ?s)" "reqNumber (reqs ?s ! k) = Some i"
      note n = num [OF k]
      show "0 \<le> i" "i < nextID (tbl ?s)" using conn_inv_number [OF assms] n by auto
      show "l = k" if "l < length (reqs ?s)" "reqNumber (reqs ?s ! l) = Some i"
        using num [OF that] conn_inv_number(3) [OF assms] n by blast
    next
      fix k
      assume "k < length (reqs ?s)" "reqNumber (reqs ?s ! k) = None"
      then show "chans (tbl ?s) k = freshChan"
        using assms nth [of k] by (cases "k = length (reqs s)") (auto simp: conn_inv_def numbers_ok_def)
    qed
    show "answers_ok ?s"
      using assms unfolding conn_inv_def answers_ok_def
      by (auto simp: nth_append less_Suc_eq freshChan_def)
    show "waiting_ok ?s"
      unfolding waiting_ok_alt
    proof (intro allI impI)
      fix k i
      assume "k < length (reqs ?s)" "reqPending (reqs ?s ! k) = Some i"
      from pend [OF this] show "map_of (awaiting (tbl ?s)) i = Some k \<or> chClosed (chans (tbl ?s) k)"
        using assms by (auto simp: conn_inv_def waiting_ok_alt)
    qed
  qed
qed

lemma conn_inv_register:
  assumes "conn_inv s" and "k < length (reqs s)" and "reqs s ! k = ReqChecked r" and "registerRequest k (tbl s) = Ok (i, t)"
  shows "conn_inv (s\<lparr>tbl := t, reqs := (reqs s)[k := ReqRegistered (r\<lparr>rqID := i\<rparr>)]\<rparr>)"
proof -
  have t: "i = nextID (tbl s)" "t = (tbl s)\<lparr>nextID := i + 1, awaiting := AList.update i k (awaiting (tbl s))\<rparr>"
    using assms(4) unfolding registerRequest_Ok [OF assms(1)] by auto
  let ?q = "(reqs s)[k := ReqRegistered (r\<lparr>rqID := i\<rparr>)]"
  have num: "reqNumber (?q ! l) = (if l = k then Some i else reqNumber (reqs s ! l))" if "l < length (reqs s)" for l
    using that by (cases "l = k") auto
  have pend: "reqPending (?q ! l) = (if l = k then Some i else reqPending (reqs s ! l))" if "l < length (reqs s)" for l
    using that by (cases "l = k") auto
  have fresh: "chans (tbl s) k = freshChan" using assms(1-3) by (simp add: conn_inv_def numbers_ok_def)
  have old: "j \<noteq> i" if "reqNumber (reqs s ! l) = Some j" "l < length (reqs s)" for l j
    using conn_inv_number(2) [OF assms(1) that(2,1)] t(1) by simp
  have tk: "map_of (awaiting (tbl s)) j \<noteq> Some k" for j
    using conn_inv_entry(2) [OF assms(1), of j k] assms(3) by auto
  show ?thesis
    unfolding conn_inv_def
  proof (intro conjI)
    show "table_ok (s\<lparr>tbl := t, reqs := ?q\<rparr>)"
      unfolding table_ok_def
    proof (intro conjI allI impI)
      show "distinct (map fst (awaiting (tbl (s\<lparr>tbl := t, reqs := ?q\<rparr>))))" "0 \<le> nextID (tbl (s\<lparr>tbl := t, reqs := ?q\<rparr>))"
        using assms(1) by (simp_all add: conn_inv_def table_ok_def t distinct_update)
      fix j l
      assume "map_of (awaiting (tbl (s\<lparr>tbl := t, reqs := ?q\<rparr>))) j = Some l"
      then consider "j = i" "l = k" | "j \<noteq> i" "map_of (awaiting (tbl s)) j = Some l"
        by (auto simp: t(2) update_conv' split: if_splits)
      then have "l < length (reqs s) \<and> reqNumber (?q ! l) = Some j \<and> chans t l = freshChan"
      proof cases
        case 2
        then show ?thesis using conn_inv_entry [OF assms(1) 2(2)] tk num [of l] by (auto simp: t(2))
      qed (use assms(2) fresh num [of k] in \<open>simp add: t(2)\<close>)
      then show "l < length (reqs (s\<lparr>tbl := t, reqs := ?q\<rparr>))" "reqNumber (reqs (s\<lparr>tbl := t, reqs := ?q\<rparr>) ! l) = Some j"
          "chans (tbl (s\<lparr>tbl := t, reqs := ?q\<rparr>)) l = freshChan" by simp_all
    qed
    show "numbers_ok (s\<lparr>tbl := t, reqs := ?q\<rparr>)"
      unfolding numbers_ok_def
    proof (intro conjI allI impI)
      fix l j m
      assume "l < length (reqs (s\<lparr>tbl := t, reqs := ?q\<rparr>))" "reqNumber (reqs (s\<lparr>tbl := t, reqs := ?q\<rparr>) ! l) = Some j"
      then have l: "l < length (reqs s)" "(if l = k then Some i else reqNumber (reqs s ! l)) = Some j" using num [of l] by simp_all
      have "0 \<le> nextID (tbl s)" using assms(1) by (simp add: conn_inv_def table_ok_def)
      then show "0 \<le> j" "j < nextID (tbl (s\<lparr>tbl := t, reqs := ?q\<rparr>))"
        using l conn_inv_number(1,2) [OF assms(1) l(1)] by (auto simp: t split: if_splits)
      assume "m < length (reqs (s\<lparr>tbl := t, reqs := ?q\<rparr>))" "reqNumber (reqs (s\<lparr>tbl := t, reqs := ?q\<rparr>) ! m) = Some j"
      then have m: "m < length (reqs s)" "(if m = k then Some i else reqNumber (reqs s ! m)) = Some j" using num [of m] by simp_all
      show "m = l"
        using l m old [of m j] old [of l j] conn_inv_number(3) [OF assms(1) l(1) _ m(1)] by (auto split: if_splits)
    next
      fix l
      assume "l < length (reqs (s\<lparr>tbl := t, reqs := ?q\<rparr>))" "reqNumber (reqs (s\<lparr>tbl := t, reqs := ?q\<rparr>) ! l) = None"
      then show "chans (tbl (s\<lparr>tbl := t, reqs := ?q\<rparr>)) l = freshChan"
        using assms(1) num [of l] by (auto simp: conn_inv_def numbers_ok_def t(2) split: if_splits)
    qed
    show "answers_ok (s\<lparr>tbl := t, reqs := ?q\<rparr>)"
      using assms(1,2) fresh by (auto simp: conn_inv_def answers_ok_def t(2) num nth_list_update freshChan_def)
    show "waiting_ok (s\<lparr>tbl := t, reqs := ?q\<rparr>)"
      using assms(1) old
      by (auto simp: conn_inv_def waiting_ok_alt t(2) pend update_conv' split: if_splits)
        (metis option.sel reqNumber.simps(1,2) reqPending.elims option.distinct(1))
  qed
qed

lemma conn_inv_answer:
  assumes "conn_inv s" and "k < length (reqs s)" and "reqs s ! k = ReqWaiting i" and "chBuf (chans (tbl s) k) = Some a"
  shows "conn_inv (s\<lparr>tbl := (tbl s)\<lparr>chans := (chans (tbl s))(k := (chans (tbl s) k)\<lparr>chBuf := None\<rparr>)\<rparr>,
      reqs := (reqs s)[k := ReqDone (Some i) (Answer a)]\<rparr>)" (is "conn_inv ?s")
proof -
  have num: "reqNumber (reqs ?s ! l) = reqNumber (reqs s ! l)" for l
    using assms(2,3) by (cases "l = k") auto
  have nk: "map_of (awaiting (tbl s)) j \<noteq> Some k" for j
    using conn_inv_entry(3) [OF assms(1), of j k] assms(4) by (auto simp: freshChan_def)
  have chan: "chans (tbl ?s) l = (if l = k then (chans (tbl s) k)\<lparr>chBuf := None\<rparr> else chans (tbl s) l)" for l by simp
  show ?thesis
    unfolding conn_inv_def
  proof (intro conjI)
    show "table_ok ?s" using assms(1) nk by (auto simp: conn_inv_def table_ok_def num)
    show "numbers_ok ?s" using assms(1,3) unfolding conn_inv_def numbers_ok_def num chan by auto
    show "answers_ok ?s"
      unfolding answers_ok_def num
    proof (intro conjI allI impI)
      fix l b
      assume "l < length (reqs ?s)" "chBuf (chans (tbl ?s) l) = Some b"
      then show "\<exists>j. reqNumber (reqs s ! l) = Some j \<and> answer_of (handled ?s) j b"
        using assms(1) by (auto simp: conn_inv_def answers_ok_def split: if_splits)
    next
      fix l j b
      assume "l < length (reqs ?s)" "reqs ?s ! l = ReqDone (Some j) (Answer b)"
      then show "answer_of (handled ?s) j b"
        using assms by (cases "l = k") (fastforce simp: conn_inv_def answers_ok_def)+
    next
      fix l b
      assume "l < length (reqs ?s)"
      then show "reqs ?s ! l \<noteq> ReqDone None (Answer b)"
        using assms(1) by (cases "l = k") (auto simp: conn_inv_def answers_ok_def)
    qed
    show "waiting_ok ?s"
      using assms(1,2) by (auto simp: conn_inv_def waiting_ok_alt nth_list_update)
  qed
qed

lemma answer_of_more: "answer_of rs i a \<Longrightarrow> answer_of (rs @ [resp]) i a"
  by (auto simp: answer_of_def)

lemma conn_inv_handled:
  assumes "conn_inv s"
  shows "conn_inv (s\<lparr>handled := handled s @ [resp]\<rparr>)"
proof -
  have "answers_ok (s\<lparr>handled := handled s @ [resp]\<rparr>)"
    using assms answer_of_more unfolding conn_inv_def answers_ok_def by (simp, blast)
  moreover have "table_ok (s\<lparr>handled := handled s @ [resp]\<rparr>) = table_ok s"
      "numbers_ok (s\<lparr>handled := handled s @ [resp]\<rparr>) = numbers_ok s" "waiting_ok (s\<lparr>handled := handled s @ [resp]\<rparr>) = waiting_ok s"
    by (simp_all add: table_ok_def numbers_ok_def waiting_ok_def)
  ultimately show ?thesis using assms by (simp add: conn_inv_def)
qed

lemma conn_inv_response:
  assumes "conn_inv s" and "handleResponse resp (tbl s) = Ok t"
  shows "conn_inv (s\<lparr>tbl := t, handled := handled s @ [resp]\<rparr>)" (is "conn_inv ?s")
proof (cases "map_of (awaiting (tbl s)) (rsID resp)")
  case None
  then have "t = tbl s" using assms(2) unfolding handleResponse_Ok [OF assms(1)] by simp
  then show ?thesis using conn_inv_handled [OF assms(1), of resp] by simp
next
  case (Some k)
  then have t: "t = (tbl s)\<lparr>awaiting := AList.delete (rsID resp) (awaiting (tbl s)), chans := (chans (tbl s))(k := delivered resp)\<rparr>"
    using assms(2) unfolding handleResponse_Ok [OF assms(1)] by simp
  note e = conn_inv_entry [OF assms(1) Some]
  have other: "l \<noteq> k" if "map_of (awaiting (tbl s)) j = Some l" "j \<noteq> rsID resp" for j l
    using conn_inv_entry(2) [OF assms(1) that(1)] e(2) that(2) by auto
  have inv': "conn_inv (s\<lparr>handled := handled s @ [resp]\<rparr>)" using assms(1) by (rule conn_inv_handled)
  show ?thesis
    unfolding conn_inv_def
  proof (intro conjI)
    show "table_ok ?s"
      using assms(1) other by (auto simp: conn_inv_def table_ok_def t delete_conv' distinct_delete split: if_splits)
    show "numbers_ok ?s" using assms(1) e(2) by (auto simp: conn_inv_def numbers_ok_def t)
    show "answers_ok ?s"
      unfolding answers_ok_def
    proof (intro conjI allI impI)
      fix l a
      assume l: "l < length (reqs ?s)" "chBuf (chans (tbl ?s) l) = Some a"
      show "\<exists>i. reqNumber (reqs ?s ! l) = Some i \<and> answer_of (handled ?s) i a"
      proof (cases "l = k")
        case True
        then show ?thesis using l(2) e(2) by (auto simp: t delivered_def answer_of_def)
      next
        case False
        then show ?thesis using l inv' by (simp add: conn_inv_def answers_ok_def t)
      qed
    qed (use inv' in \<open>simp_all add: conn_inv_def answers_ok_def\<close>)
    show "waiting_ok ?s"
      using assms(1) Some by (auto simp: conn_inv_def waiting_ok_alt t delete_conv' delivered_def)
  qed
qed

lemma conn_inv_close:
  assumes "conn_inv s" and "closeAwaiting (tbl s) = Ok t"
  shows "conn_inv (s\<lparr>tbl := t\<rparr>)"
proof -
  have t: "t = (tbl s)\<lparr>awaiting := [],
      chans := (\<lambda>k. if k \<in> set (map snd (awaiting (tbl s))) then \<lparr>chBuf = None, chClosed = True\<rparr> else chans (tbl s) k)\<rparr>"
    using assms(2) unfolding closeAwaiting_Ok [OF assms(1)] by simp
  have "reqNumber (reqs s ! k) \<noteq> None" if "k \<in> set (map snd (awaiting (tbl s)))" for k
    using conn_inv_entry(2) [OF assms(1)] that assms(1) by (auto simp: conn_inv_def table_ok_def)
  moreover have "k \<in> set (map snd (awaiting (tbl s)))" if "map_of (awaiting (tbl s)) i = Some k" for i k
    using map_of_SomeD [OF that] by force
  moreover have "numbers_ok (s\<lparr>tbl := t\<rparr>)"
    using assms(1) calculation(1) by (fastforce simp: conn_inv_def numbers_ok_def t)
  moreover have "waiting_ok (s\<lparr>tbl := t\<rparr>)"
    unfolding waiting_ok_alt
  proof (intro allI impI)
    fix k i
    assume "k < length (reqs (s\<lparr>tbl := t\<rparr>))" "reqPending (reqs (s\<lparr>tbl := t\<rparr>) ! k) = Some i"
    then have "map_of (awaiting (tbl s)) i = Some k \<or> chClosed (chans (tbl s) k)"
      using assms(1) by (simp add: conn_inv_def waiting_ok_alt)
    then show "map_of (awaiting (tbl (s\<lparr>tbl := t\<rparr>))) i = Some k \<or> chClosed (chans (tbl (s\<lparr>tbl := t\<rparr>)) k)"
      using calculation(2) [of i k] by (auto simp: t)
  qed
  ultimately have "table_ok (s\<lparr>tbl := t\<rparr>)" "numbers_ok (s\<lparr>tbl := t\<rparr>)" "answers_ok (s\<lparr>tbl := t\<rparr>)" "waiting_ok (s\<lparr>tbl := t\<rparr>)"
    using assms(1) unfolding conn_inv_def
    by (simp_all add: table_ok_def answers_ok_def t)
  then show ?thesis by (simp add: conn_inv_def)
qed

lemma conn_step_inv:
  assumes "conn_step s s'" and "conn_inv s"
  shows "conn_inv s'"
  using assms
proof (cases rule: conn_step.cases)
  case (req_sent k r)
  then show ?thesis
    using conn_inv_move [of "s\<lparr>sentReqs := sentReqs s @ [Request_toWire r]\<rparr>" k "ReqWaiting (rqID r)"] assms(2) by simp
qed (use assms(2) in \<open>simp_all add: conn_inv_call conn_inv_move conn_inv_register conn_inv_answer conn_inv_response conn_inv_close\<close>)

lemma cancel_step_inv: "cancel_step s s' \<Longrightarrow> conn_inv s \<Longrightarrow> conn_inv s'"
  by (erule cancel_step.cases) (simp_all add: conn_inv_move)

interpretation requests: invariant_system any_step "\<lambda>s. s = newConn" conn_inv
proof
  show "conn_inv s" if "s = newConn" for s
    using that by (simp add: newConn_def conn_inv_def conn_inv_defs)
  show "conn_inv t" if "any_step s t" "conn_inv s" for s t
    using that conn_step_inv cancel_step_inv by (auto simp: any_step_def)
qed

text \<open>
  Claim C8. On every connection, whatever the peer sends and however requests, responses,
  cancellations and the closing of the connection interleave: no operation on the table of
  requests panics or blocks (numbers are never taken twice, no channel is sent to or closed
  twice), and a request returns data only from a response that carried its own number, a number
  that no other request has.
\<close>

theorem requests_safe:
  assumes "any_step\<^sup>*\<^sup>* newConn s"
  shows "is_Ok (handleResponse resp (tbl s)) \<and> is_Ok (registerRequest k (tbl s)) \<and> is_Ok (closeAwaiting (tbl s))
    \<and> (\<forall>k<length (reqs s). \<forall>l<length (reqs s). \<forall>i a. reqs s ! k = ReqDone (Some i) (Answer a) \<longrightarrow>
         answer_of (handled s) i a \<and> (reqNumber (reqs s ! l) = Some i \<longrightarrow> l = k))"
proof -
  have inv: "conn_inv s" using requests.reachable_inv [OF refl assms] .
  have "answer_of (handled s) i a \<and> (reqNumber (reqs s ! l) = Some i \<longrightarrow> l = k)"
    if "k < length (reqs s)" "l < length (reqs s)" "reqs s ! k = ReqDone (Some i) (Answer a)" for k l i a
    using that inv conn_inv_number(3) [OF inv that(1), of i l] by (auto simp: conn_inv_def answers_ok_def)
  then show ?thesis
    by (simp add: handleResponse_Ok [OF inv] registerRequest_Ok [OF inv] closeAwaiting_Ok [OF inv])
qed

section \<open>Returning\<close>


text \<open>
  A request that passes the check for a closed connection and registers after the channels have
  been closed is not found by anybody: once it has been handed to the writer it waits until its
  context is done.
\<close>

definition stuck :: "nat \<Rightarrow> conn_sys \<Rightarrow> bool" where
  "stuck k s \<longleftrightarrow> (\<forall>s'. conn_step\<^sup>*\<^sup>* s s' \<longrightarrow> (\<exists>i. reqs s' ! k = ReqWaiting i))"

definition abandoned :: "nat \<Rightarrow> conn_sys \<Rightarrow> bool" where
  "abandoned k s \<longleftrightarrow> k < length (reqs s) \<and> (\<exists>i. reqs s ! k = ReqWaiting i) \<and> chans (tbl s) k = freshChan
     \<and> cleaned s \<and> dispatcherDone s"

lemma abandoned_step: "conn_step s s' \<Longrightarrow> abandoned k s \<Longrightarrow> abandoned k s'"
  by (erule conn_step.cases)
    (auto simp: abandoned_def nth_append nth_list_update freshChan_def registerRequest_def Let_def split: if_splits)

lemma abandoned_stuck: "abandoned k s \<Longrightarrow> stuck k s"
proof -
  assume a: "abandoned k s"
  have "abandoned k s'" if "conn_step\<^sup>*\<^sup>* s s'" for s'
    using that a by (induction rule: rtranclp_induct) (auto intro: abandoned_step)
  then show ?thesis by (auto simp: stuck_def abandoned_def)
qed

definition request0 :: Request where
  "request0 = \<lparr>rqID = 0, rqFolder = ''f'', rqName = ''a'', rqOffset = 0, rqSize = 1, rqHash = [], rqFromTemporary = False, rqBlockNo = 0\<rparr>"

text \<open>The unlucky run, one state after the other.\<close>

definition late :: "req_pc list \<Rightarrow> (int \<times> nat) list \<Rightarrow> int \<Rightarrow> bep_Request list \<Rightarrow> bool \<Rightarrow> bool \<Rightarrow> bool \<Rightarrow> conn_sys" where
  "late q aw n ws cl clean disp = \<lparr>tbl = \<lparr>awaiting = aw, nextID = n, chans = (\<lambda>k. freshChan)\<rparr>, reqs = q, sentReqs = ws, handled = [],
     connClosed = cl, cleaned = clean, writerDone = False, dispatcherDone = disp\<rparr>"

lemma late_steps:
  "conn_step newConn (late [ReqStart request0] [] 0 [] False False False)"
  "conn_step (late [ReqStart request0] [] 0 [] False False False) (late [ReqChecked request0] [] 0 [] False False False)"
  "conn_step (late [ReqChecked request0] [] 0 [] False False False) (late [ReqChecked request0] [] 0 [] True False False)"
  "conn_step (late [ReqChecked request0] [] 0 [] True False False) (late [ReqChecked request0] [] 0 [] True True False)"
  "conn_step (late [ReqChecked request0] [] 0 [] True True False) (late [ReqRegistered request0] [(0, 0)] 1 [] True True False)"
  "conn_step (late [ReqRegistered request0] [(0, 0)] 1 [] True True False)
     (late [ReqWaiting 0] [(0, 0)] 1 [Request_toWire request0] True True False)"
  "conn_step (late [ReqWaiting 0] [(0, 0)] 1 [Request_toWire request0] True True False)
     (late [ReqWaiting 0] [(0, 0)] 1 [Request_toWire request0] True True True)"
  using req_call [of newConn request0]
    req_open [of 0 "late [ReqStart request0] [] 0 [] False False False" request0]
    close_conn [of "late [ReqChecked request0] [] 0 [] False False False"]
    close_awaiting [of "late [ReqChecked request0] [] 0 [] True False False"]
    req_register [of 0 "late [ReqChecked request0] [] 0 [] True True False" request0 0]
    req_sent [of 0 "late [ReqRegistered request0] [(0, 0)] 1 [] True True False" request0]
    dispatcher_stops [of "late [ReqWaiting 0] [(0, 0)] 1 [Request_toWire request0] True True False"]
  by (simp_all add: late_def newConn_def closeAwaiting_def registerRequest_def request0_def fun_upd_idem)

text \<open>
  Claim C35. A request that races with the closing of the connection can be lost: there is a run
  of a connection after which the connection is closed and cleaned up, and a request waits that
  nothing but the end of its own context will ever wake up.
\<close>

theorem late_request_stuck:
  "\<exists>s. conn_step\<^sup>*\<^sup>* newConn s \<and> connClosed s \<and> cleaned s \<and> length (reqs s) = 1 \<and> stuck 0 s"
proof -
  let ?s = "late [ReqWaiting 0] [(0, 0)] 1 [Request_toWire request0] True True True"
  have "conn_step\<^sup>*\<^sup>* newConn ?s" 
    by (rule late_steps [THEN converse_rtranclp_into_rtranclp [of conn_step]] rtranclp.rtrancl_refl)+
  moreover have "abandoned 0 ?s" by (simp add: abandoned_def late_def)
  ultimately show ?thesis using abandoned_stuck by (intro exI [of _ ?s]) (simp add: late_def)
qed

section \<open>Numbers on the wire\<close>

text \<open>
  Claim C36. A peer answers with the number it has seen on the wire, which has 32 bits. For the
  first \<open>2 ^ 31\<close> requests of a connection this is the number of the request, and the response
  reaches it; for the next \<open>2 ^ 31\<close> ones it is negative, and the response is dropped.
\<close>

theorem response_numbers:
  assumes "any_step\<^sup>*\<^sup>* newConn s" and "map_of (awaiting (tbl s)) (rqID r) = Some k"
    and "rsID resp = bqId (Request_toWire r)" and "rqID r < 2 ^ 32"
  shows "\<exists>t. handleResponse resp (tbl s) = Ok t \<and>
    (if rqID r < 2 ^ 31
     then map_of (awaiting t) (rqID r) = None
       \<and> chBuf (chans t k) = Some \<lparr>arVal = rsData resp, arErr = codeToError (rsCode resp)\<rparr>
     else t = tbl s)"
proof -
  have inv: "conn_inv s" using requests.reachable_inv [OF refl assms(1)] .
  note e = conn_inv_entry [OF inv assms(2)]
  have r0: "0 \<le> rqID r" using conn_inv_number(1) [OF inv e(1,2)] .
  show ?thesis
  proof (cases "rqID r < 2 ^ 31")
    case True
    then have "rsID resp = rqID r" using assms(3) r0 by (simp add: Request_toWire_def is_i32_def)
    then show ?thesis using True assms(2) by (simp add: handleResponse_Ok [OF inv] delivered_def delete_conv')
  next
    case False
    then have "to_i32 (rqID r) = rqID r - 2 ^ 32"
      using assms(4) minus_mod_self2 [of "rqID r + 2 ^ 31" "2 ^ 32"] by (simp add: to_i32_def)
    then have "rsID resp < 0" using assms(3,4) by (simp add: Request_toWire_def)
    then have "map_of (awaiting (tbl s)) (rsID resp) = None"
      using conn_inv_entry(1,2) [OF inv] conn_inv_number(1) [OF inv] by (metis not_None_eq not_less)
    then show ?thesis using False by (simp add: handleResponse_Ok [OF inv])
  qed
qed

section \<open>Sample runs\<close>

definition answered0 :: conn_sys where
  "answered0 = (late [ReqWaiting 0] [(0, 0)] 1 [Request_toWire request0] False False False)"

lemma answered0_reachable: "any_step\<^sup>*\<^sup>* newConn answered0"
proof -
  have "conn_step (late [ReqChecked request0] [] 0 [] False False False) (late [ReqRegistered request0] [(0, 0)] 1 [] False False False)"
      "conn_step (late [ReqRegistered request0] [(0, 0)] 1 [] False False False) answered0"
    using req_register [of 0 "late [ReqChecked request0] [] 0 [] False False False" request0 0]
      req_sent [of 0 "late [ReqRegistered request0] [(0, 0)] 1 [] False False False" request0]
    by (simp_all add: late_def registerRequest_def request0_def answered0_def)
  note steps = late_steps(1,2) this
  have "conn_step\<^sup>*\<^sup>* newConn answered0"
    by (rule steps [THEN converse_rtranclp_into_rtranclp [of conn_step]] rtranclp.rtrancl_refl)+
  then show ?thesis by (rule rtranclp_mono [THEN predicate2D, rotated]) (auto simp: any_step_def)
qed

theorem requests_safe_witness:
  "is_Ok (handleResponse \<lparr>rsID = 0, rsData = [5], rsCode = ErrorCodeNoError\<rparr> (tbl answered0)) \<and> is_Ok (closeAwaiting (tbl answered0))"
  using requests_safe [OF answered0_reachable] by blast


theorem response_numbers_witness:
  "\<exists>t. handleResponse \<lparr>rsID = 0, rsData = [5], rsCode = ErrorCodeNoError\<rparr> (tbl answered0) = Ok t
     \<and> chBuf (chans t 0) = Some \<lparr>arVal = [5], arErr = None\<rparr>"
  using response_numbers [OF answered0_reachable, of request0 0 "\<lparr>rsID = 0, rsData = [5], rsCode = ErrorCodeNoError\<rparr>"]
  by (auto simp: answered0_def late_def request0_def Request_toWire_def is_i32_def codeToError_def)

end
