(* ===== verification/Index_Handler.thy ===== *)
theory Index_Handler
  imports Folder_Query Wire_Messages
begin

text \<open>
  The exchange of indexes, \<open>lib/model/indexhandler.go\<close> and \<open>lib/model/fileinfobatch.go\<close>: one
  handler per connection and folder sends the local files in the order of their sequence
  numbers, in batches, and stores what the peer sends. The sending side reads the folder
  database, the receiving side updates it; both are the databases of \<open>Folder_DB\<close>.

  Parameters are the size of a marshalled file info, the outcome of handing a message to the
  connection, and whether the context is done.
\<close>

section \<open>Batches\<close>

definition MaxBatchSizeBytes :: nat where "MaxBatchSizeBytes = 250 * 1024"
definition MaxBatchSizeFiles :: nat where "MaxBatchSizeFiles = 1000"

record 'e FileInfoBatch =
  fbInfos :: "FileInfo list"
  fbSize :: nat
  fbError :: "'e option"

definition NewFileInfoBatch :: "'e FileInfoBatch" where
  "NewFileInfoBatch = \<lparr>fbInfos = [], fbSize = 0, fbError = None\<rparr>"

definition batchAppend :: "(bep_FileInfo \<Rightarrow> nat) \<Rightarrow> FileInfo \<Rightarrow> 'e FileInfoBatch \<Rightarrow> (unit, 'e FileInfoBatch) result" where
  "batchAppend sz f b =
     (if fbError b \<noteq> None then Panic
      else bind_result (FileInfo_ToWire True f) (\<lambda>w. Ok (b\<lparr>fbInfos := fbInfos b @ [f], fbSize := fbSize b + sz w\<rparr>)))"

definition batchFull :: "'e FileInfoBatch \<Rightarrow> bool" where
  "batchFull b \<longleftrightarrow> length (fbInfos b) \<ge> MaxBatchSizeFiles \<or> fbSize b \<ge> MaxBatchSizeBytes"

definition batchReset :: "'e FileInfoBatch \<Rightarrow> 'e FileInfoBatch" where
  "batchReset b = b\<lparr>fbInfos := [], fbError := None, fbSize := 0\<rparr>"

text \<open>The flush function works on a state of its own.\<close>

definition batchFlush ::
  "(FileInfo list \<Rightarrow> 's \<Rightarrow> (unit, 'e option \<times> 's) result) \<Rightarrow> 'e FileInfoBatch \<Rightarrow> 's \<Rightarrow> (unit, 'e option \<times> 'e FileInfoBatch \<times> 's) result" where
  "batchFlush flushFn b s =
     (case fbError b of
        Some e \<Rightarrow> Ok (Some e, b, s)
      | None \<Rightarrow>
          if fbInfos b = [] then Ok (None, b, s)
          else bind_result (flushFn (fbInfos b) s) (\<lambda>(err, s').
                 case err of
                   Some e \<Rightarrow> Ok (Some e, b\<lparr>fbError := Some e\<rparr>, s')
                 | None \<Rightarrow> Ok (None, batchReset b, s')))"

definition batchFlushIfFull ::
  "(FileInfo list \<Rightarrow> 's \<Rightarrow> (unit, 'e option \<times> 's) result) \<Rightarrow> 'e FileInfoBatch \<Rightarrow> 's \<Rightarrow> (unit, 'e option \<times> 'e FileInfoBatch \<times> 's) result" where
  "batchFlushIfFull flushFn b s =
     (case fbError b of
        Some e \<Rightarrow> Ok (Some e, b, s)
      | None \<Rightarrow> if batchFull b then batchFlush flushFn b s else Ok (None, b, s))"

section \<open>Sending\<close>

datatype index_err = DatabaseError db_error | DatabaseMisbehaved | ContextDone | SendFailed | FolderPaused

datatype index_msg = SendIndex Index | SendUpdate IndexUpdate

record indexHandler =
  ihFolder :: string
  folderIsReceiveEncrypted :: bool
  localPrevSequence :: int
  sentPrevSequence :: int
  ihPaused :: bool

definition prepareFileInfoForIndex :: "FileInfo \<Rightarrow> FileInfo" where
  "prepareFileInfoForIndex f0 =
     (let f = (if IsReceiveOnlyChanged f0 then f0\<lparr>fVersion := []\<rparr> else f0)
      in f\<lparr>fSize := fSize f - fEncryptionTrailerSize f\<rparr>)"

text \<open>
  The iterator of \<open>itererr.Zip\<close> over a mapped query: the values up to the first that fails to
  map, and how it ends. \<open>AllLocalFilesBySequence\<close> collects it.
\<close>

fun iterate :: "('a \<Rightarrow> ('e, 'b) result) \<Rightarrow> 'a list \<Rightarrow> 'b list \<times> ('e, unit) result" where
  "iterate mapFn [] = ([], Ok ())"
| "iterate mapFn (v # vs) =
     (case mapFn v of
        Ok mapped \<Rightarrow> (let (bs, fin) = iterate mapFn vs in (mapped # bs, fin))
      | Err e \<Rightarrow> ([], Err e)
      | Panic \<Rightarrow> ([], Panic))"

definition iterLocalFilesBySequence ::
  "db_env \<Rightarrow> DeviceID \<Rightarrow> int \<Rightarrow> int \<Rightarrow> folderDB \<Rightarrow> FileInfo list \<times> (db_error, unit) result" where
  "iterLocalFilesBySequence env device startSeq limit db =
     (let rs = sort_key rSequence (filter (\<lambda>f. ownedBy db device f \<and> rSequence f \<ge> startSeq) (files db))
      in iterate (\<lambda>(fi, bl). indirectFI_FileInfo env fi bl)
           (List.map_filter (joinInfo db) (if limit > 0 then take (nat limit) rs else rs)))"

text \<open>
  The loop over the files of the database; \<open>lastSeq\<close> is the sequence number of the file before,
  zero at first.
\<close>

fun sendLoop ::
  "(bep_FileInfo \<Rightarrow> nat) \<Rightarrow> indexHandler \<Rightarrow> int \<Rightarrow> bool \<Rightarrow> index_err FileInfoBatch \<Rightarrow> FileInfo list
     \<Rightarrow> (db_error, unit) result \<Rightarrow> (unit, index_err option \<times> indexHandler \<times> index_err FileInfoBatch) result" where
  "sendLoop sz s lastSeq previousWasDelete batch [] fin =
     (case fin of
        Panic \<Rightarrow> Panic
      | Err e \<Rightarrow> Ok (Some (DatabaseError e), s, batch)
      | Ok x \<Rightarrow> Ok (None, s, batch))"
| "sendLoop sz s lastSeq previousWasDelete batch (fi # fis) fin =
     (if batchFull batch \<and> (\<not> fDeleted fi \<or> previousWasDelete) then Ok (None, s, batch)
      else if fSequence fi < localPrevSequence s + 1 then Ok (Some DatabaseMisbehaved, s, batch)
      else if lastSeq > 0 \<and> fSequence fi \<le> lastSeq then Ok (Some DatabaseMisbehaved, s, batch)
      else
        (let s1 = s\<lparr>localPrevSequence := fSequence fi\<rparr> in
         if folderIsReceiveEncrypted s \<and> IsReceiveOnlyChanged fi then
           sendLoop sz s1 (fSequence fi) previousWasDelete batch fis fin
         else
           (let f = prepareFileInfoForIndex fi in
            bind_result (batchAppend sz f batch) (\<lambda>batch1.
              sendLoop sz s1 (fSequence f) (fDeleted f) batch1 fis fin))))"

text \<open>The state that the flush function of \<open>sendIndexTo\<close> closes over.\<close>

record send_state =
  ssHandler :: indexHandler
  ssInitial :: bool
  ssBatchError :: "index_err option"
  ssSent :: "index_msg list"

definition indexMessage :: "bool \<Rightarrow> indexHandler \<Rightarrow> FileInfo list \<Rightarrow> index_msg" where
  "indexMessage initial s fs =
     (if initial then SendIndex \<lparr>ixFolder = ihFolder s, ixFiles = fs, ixLastSequence = fSequence (last fs)\<rparr>
      else SendUpdate \<lparr>iuFolder = ihFolder s, iuFiles = fs, iuLastSequence = fSequence (last fs),
                       iuPrevSequence = sentPrevSequence s\<rparr>)"

definition sendBatch ::
  "bool \<Rightarrow> (index_msg \<Rightarrow> index_err option) \<Rightarrow> FileInfo list \<Rightarrow> send_state \<Rightarrow> (unit, index_err option \<times> send_state) result" where
  "sendBatch ctxDone conn fs st =
     (if ctxDone then Ok (Some ContextDone, st)
      else if fs = [] then Panic
      else if ssBatchError st \<noteq> None then Panic
      else
        (let msg = indexMessage (ssInitial st) (ssHandler st) fs;
             st1 = st\<lparr>ssInitial := False\<rparr>
         in case conn msg of
              Some e \<Rightarrow> Ok (Some e, st1\<lparr>ssBatchError := Some e\<rparr>)
            | None \<Rightarrow> Ok (None, st1\<lparr>ssHandler := (ssHandler st)\<lparr>sentPrevSequence := fSequence (last fs)\<rparr>,
                                     ssSent := ssSent st @ [msg]\<rparr>)))"

definition sendIndexTo ::
  "db_env \<Rightarrow> (bep_FileInfo \<Rightarrow> nat) \<Rightarrow> bool \<Rightarrow> (index_msg \<Rightarrow> index_err option) \<Rightarrow> folderDB \<Rightarrow> indexHandler
     \<Rightarrow> (unit, index_err option \<times> indexHandler \<times> index_msg list) result" where
  "sendIndexTo env sz ctxDone conn db s =
     (let initial = (localPrevSequence s = 0);
          (fis, fin) = iterLocalFilesBySequence env LocalDeviceID (localPrevSequence s + 1) (int MaxBatchSizeFiles + 1) db
      in bind_result (sendLoop sz s 0 False NewFileInfoBatch fis fin) (\<lambda>(err, s1, batch).
           case err of
             Some e \<Rightarrow> Ok (Some e, s1, [])
           | None \<Rightarrow>
               bind_result
                 (batchFlush (sendBatch ctxDone conn) batch
                   \<lparr>ssHandler = s1, ssInitial = initial, ssBatchError = None, ssSent = []\<rparr>)
                 (\<lambda>(err, b, st). Ok (err, ssHandler st, ssSent st))))"

text \<open>
  \<open>Serve\<close>: a first round in any case, then one round after the other, on the database as it is at
  that moment, until a round fails; a round is skipped while the database has nothing newer.
\<close>

fun serveLoop ::
  "db_env \<Rightarrow> (bep_FileInfo \<Rightarrow> nat) \<Rightarrow> (index_msg \<Rightarrow> index_err option) \<Rightarrow> folderDB list \<Rightarrow> indexHandler
     \<Rightarrow> (unit, index_err option \<times> indexHandler \<times> index_msg list) result" where
  "serveLoop env sz conn [] s = Ok (None, s, [])"
| "serveLoop env sz conn (db # dbs) s =
     (if GetDeviceSequence LocalDeviceID db \<le> localPrevSequence s then serveLoop env sz conn dbs s
      else bind_result (sendIndexTo env sz False conn db s) (\<lambda>(err, s1, msgs).
        case err of
          Some e \<Rightarrow> Ok (Some e, s1, msgs)
        | None \<Rightarrow> bind_result (serveLoop env sz conn dbs s1) (\<lambda>(err2, s2, msgs2). Ok (err2, s2, msgs @ msgs2))))"

definition Serve ::
  "db_env \<Rightarrow> (bep_FileInfo \<Rightarrow> nat) \<Rightarrow> (index_msg \<Rightarrow> index_err option) \<Rightarrow> folderDB \<Rightarrow> folderDB list \<Rightarrow> indexHandler
     \<Rightarrow> (unit, index_err option \<times> indexHandler \<times> index_msg list) result" where
  "Serve env sz conn db0 dbs s =
     bind_result (sendIndexTo env sz False conn db0 s) (\<lambda>(err, s1, msgs).
       case err of
         Some e \<Rightarrow> Ok (Some e, s1, msgs)
       | None \<Rightarrow> bind_result (serveLoop env sz conn dbs s1) (\<lambda>(err2, s2, msgs2). Ok (err2, s2, msgs @ msgs2)))"

section \<open>Receiving\<close>

datatype anomaly =
    UnexpectedSequence
  | BeforePrevSequence nat
  | AfterLastSequence nat
  | NonIncreasing nat
  | UnexpectedLastSequence
  | UnexpectedAfterUpdate

definition makeForgetUpdate :: "FileInfo list \<Rightarrow> FileDownloadProgressUpdate list" where
  "makeForgetUpdate fs =
     map (\<lambda>f. \<lparr>uType = UpdateForget, uName = fName f, uVersion = fVersion f, uBlockIndexes = [], uBlockSize = 0\<rparr>)
       (filter (\<lambda>f. \<not> (IsSymlink f \<or> IsDirectory f \<or> fDeleted f)) fs)"

fun checkEach :: "int \<Rightarrow> int \<Rightarrow> nat \<Rightarrow> int option \<Rightarrow> FileInfo list \<Rightarrow> anomaly list" where
  "checkEach prevSequence lastSequence i preceding [] = []"
| "checkEach prevSequence lastSequence i preceding (f # fs) =
     (if fSequence f < prevSequence then [BeforePrevSequence i] else [])
     @ (if lastSequence > 0 \<and> fSequence f > lastSequence then [AfterLastSequence i] else [])
     @ (case preceding of
          None \<Rightarrow> []
        | Some p \<Rightarrow> if fSequence f \<le> p then [NonIncreasing i] else [])
     @ checkEach prevSequence lastSequence (Suc i) (Some (fSequence f)) fs"

definition checkSequences :: "int \<Rightarrow> int \<Rightarrow> int \<Rightarrow> FileInfo list \<Rightarrow> anomaly list" where
  "checkSequences expected prevSequence lastSequence fs =
     (if prevSequence > 0 \<and> prevSequence \<noteq> expected then [UnexpectedSequence] else [])
     @ checkEach prevSequence lastSequence 0 None fs
     @ (if lastSequence > 0 \<and> length fs > 0 \<and> lastSequence \<noteq> fSequence (last fs) then [UnexpectedLastSequence] else [])"

text \<open>
  \<open>receive\<close> on the operations of a database: the error returned, the anomalies logged and the
  database after it.
\<close>

definition receiveWith ::
  "(FileInfo list \<Rightarrow> 'db \<Rightarrow> (db_error, unit) result \<times> 'db) \<Rightarrow> ('db \<Rightarrow> (db_error, unit) result \<times> 'db) \<Rightarrow> ('db \<Rightarrow> int)
     \<Rightarrow> bool \<Rightarrow> FileInfo list \<Rightarrow> bool \<Rightarrow> int \<Rightarrow> int \<Rightarrow> 'db \<Rightarrow> (unit, index_err option \<times> anomaly list \<times> 'db) result" where
  "receiveWith upd dropAll sq isPaused fs update prevSequence lastSequence db =
     (if isPaused then Ok (Some FolderPaused, [], db)
      else
        (let (r1, db1) = (if update then (Ok (), db) else dropAll db) in
         case r1 of
           Err e \<Rightarrow> Ok (Some (DatabaseError e), [], db1)
         | Panic \<Rightarrow> Panic
         | Ok x \<Rightarrow>
             (let as1 = checkSequences (sq db1) prevSequence lastSequence fs;
                  (r2, db2) = upd fs db1
              in case r2 of
                   Err e \<Rightarrow> Ok (Some (DatabaseError e), as1, db2)
                 | Panic \<Rightarrow> Panic
                 | Ok y \<Rightarrow>
                     Ok (None, as1 @ (if lastSequence > 0 \<and> length fs > 0 \<and> sq db2 \<noteq> lastSequence then [UnexpectedAfterUpdate] else []),
                         db2))))"

text \<open>For a peer \<open>d\<close>, with the state of its downloads and whether a pull is scheduled.\<close>

definition receive ::
  "db_env \<Rightarrow> DeviceID \<Rightarrow> indexHandler \<Rightarrow> FileInfo list \<Rightarrow> bool \<Rightarrow> int \<Rightarrow> int \<Rightarrow> deviceDownloadState option \<times> folderDB
     \<Rightarrow> (unit, index_err option \<times> anomaly list \<times> bool \<times> deviceDownloadState option \<times> folderDB) result" where
  "receive env d s fs update prevSequence lastSequence = (\<lambda>(downloads, db).
     bind_result
       (receiveWith (\<lambda>fs db. db_Update env d fs False db) (DropAllFiles env d) (GetDeviceSequence d)
          (ihPaused s) fs update prevSequence lastSequence db)
       (\<lambda>(err, as, db'). Ok (err, as, \<not> ihPaused s,
          if ihPaused s then downloads else ddUpdate (ihFolder s) (makeForgetUpdate fs) downloads, db')))"

section \<open>Starting\<close>

text \<open>What the peer's cluster configuration says of our index and of its own.\<close>

record index_start_info =
  siLocalIndexID :: IndexID
  siLocalMaxSequence :: int
  siRemoteIndexID :: IndexID

datatype start_err = StartID id_error | StartDB db_error

definition startSequence :: "IndexID \<Rightarrow> int \<Rightarrow> index_start_info \<Rightarrow> int" where
  "startSequence myIndexID mySequence si =
     (if siLocalIndexID si = myIndexID then
        (if siLocalMaxSequence si > mySequence then 0 else siLocalMaxSequence si)
      else 0)"

definition newIndexHandler ::
  "db_env \<Rightarrow> IndexID \<Rightarrow> DeviceID \<Rightarrow> string \<Rightarrow> bool \<Rightarrow> index_start_info \<Rightarrow> folderDB \<Rightarrow> (start_err, indexHandler) result \<times> folderDB" where
  "newIndexHandler env fresh d folder recvEnc si db =
     (let (r1, db1) = GetIndexID fresh LocalDeviceID db in
      case r1 of
        Err e \<Rightarrow> (Err (StartID e), db1)
      | Panic \<Rightarrow> (Panic, db1)
      | Ok myIndexID \<Rightarrow>
          (let start = startSequence myIndexID (GetDeviceSequence LocalDeviceID db1) si;
               (r2, db2) = GetIndexID fresh d db1;
               theirIndexID = (case r2 of Ok i \<Rightarrow> i | _ \<Rightarrow> 0);
               (r3, db3) = (if siRemoteIndexID si = 0 then DropAllFiles env d db2
                            else if siRemoteIndexID si \<noteq> theirIndexID then
                              (let (r, dbx) = DropAllFiles env d db2 in
                               case r of Ok x \<Rightarrow> (Ok (), SetIndexID d (siRemoteIndexID si) dbx) | _ \<Rightarrow> (r, dbx))
                            else (Ok (), db2))
           in case r3 of
                Err e \<Rightarrow> (Err (StartDB e), db3)
              | Panic \<Rightarrow> (Panic, db3)
              | Ok x \<Rightarrow>
                  (Ok \<lparr>ihFolder = folder, folderIsReceiveEncrypted = recvEnc, localPrevSequence = start,
                       sentPrevSequence = start, ihPaused = False\<rparr>, db3)))"

section \<open>What a handler sends\<close>

text \<open>
  A chain of messages: each has complete files in strictly increasing order of their sequence
  numbers, above that of the message before, which an update names as its predecessor.
\<close>

fun chain :: "int \<Rightarrow> index_msg list \<Rightarrow> int \<Rightarrow> bool" where
  "chain p [] q \<longleftrightarrow> p = q"
| "chain p (SendIndex i # ms) q \<longleftrightarrow> p = 0 \<and> ixFiles i \<noteq> [] \<and> sorted_wrt (<) (map fSequence (ixFiles i))
     \<and> (\<forall>f\<in>set (ixFiles i). p < fSequence f \<and> \<not> fTruncated f) \<and> ixLastSequence i = fSequence (last (ixFiles i))
     \<and> chain (ixLastSequence i) ms q"
| "chain p (SendUpdate u # ms) q \<longleftrightarrow> iuPrevSequence u = p \<and> iuFiles u \<noteq> [] \<and> sorted_wrt (<) (map fSequence (iuFiles u))
     \<and> (\<forall>f\<in>set (iuFiles u). p < fSequence f \<and> \<not> fTruncated f) \<and> iuLastSequence u = fSequence (last (iuFiles u))
     \<and> chain (iuLastSequence u) ms q"

lemma chain_append: "chain p ms q \<Longrightarrow> chain q ms' r \<Longrightarrow> chain p (ms @ ms') r"
  by (induction p ms q rule: chain.induct) auto

lemma prepare_simps [simp]: "fSequence (prepareFileInfoForIndex f) = fSequence f" "fDeleted (prepareFileInfoForIndex f) = fDeleted f"
  "fTruncated (prepareFileInfoForIndex f) = fTruncated f"
  by (simp_all add: prepareFileInfoForIndex_def Let_def)

lemma sendLoop_files:
  "sendLoop sz s lastSeq pd batch fis fin = Ok (None, s', batch') \<Longrightarrow>
     localPrevSequence s \<le> localPrevSequence s' \<and> s' = s\<lparr>localPrevSequence := localPrevSequence s'\<rparr> \<and> fbError batch' = fbError batch
     \<and> (\<exists>gs. fbInfos batch' = fbInfos batch @ gs \<and> sorted_wrt (<) (map fSequence gs)
          \<and> (\<forall>g\<in>set gs. localPrevSequence s < fSequence g \<and> fSequence g \<le> localPrevSequence s' \<and> g \<in> prepareFileInfoForIndex ` set fis))"
proof (induction fis arbitrary: s lastSeq pd batch)
  case (Cons fi fis)
  let ?s1 = "s\<lparr>localPrevSequence := fSequence fi\<rparr>"
  consider (stop) "batchFull batch \<and> (\<not> fDeleted fi \<or> pd)"
    | (skip) "localPrevSequence s < fSequence fi" "sendLoop sz ?s1 (fSequence fi) pd batch fis fin = Ok (None, s', batch')"
    | (add) w where "localPrevSequence s < fSequence fi"
        "sendLoop sz ?s1 (fSequence fi) (fDeleted fi)
           (batch\<lparr>fbInfos := fbInfos batch @ [prepareFileInfoForIndex fi], fbSize := fbSize batch + sz w\<rparr>) fis fin = Ok (None, s', batch')"
    using Cons.prems by (auto simp: Let_def batchAppend_def bind_result_Ok split: if_splits)
  then show ?case
  proof cases
    case stop
    then show ?thesis using Cons.prems by (auto intro: exI [of _ "[]"])
  next
    case skip
    then show ?thesis using Cons.IH [OF skip(2)] by (auto intro: less_trans)
  next
    case add
    from Cons.IH [OF add(2)] obtain gs where "fbInfos batch' = (fbInfos batch @ [prepareFileInfoForIndex fi]) @ gs"
        "sorted_wrt (<) (map fSequence gs)" "\<forall>g\<in>set gs. fSequence fi < fSequence g \<and> fSequence g \<le> localPrevSequence s' \<and> g \<in> prepareFileInfoForIndex ` set fis"
        "fSequence fi \<le> localPrevSequence s'" "s' = ?s1\<lparr>localPrevSequence := localPrevSequence s'\<rparr>" "fbError batch' = fbError batch"
      by auto
    then show ?thesis using add(1) by (auto intro!: exI [of _ "prepareFileInfoForIndex fi # gs"])
  qed
qed (auto intro: exI [of _ "[]"] split: result.splits)

lemma iterate_ok: "f \<in> set (fst (iterate g vs)) \<Longrightarrow> \<exists>v\<in>set vs. g v = Ok f"
  by (induction g vs rule: iterate.induct) (auto split: result.splits prod.splits)

lemma indirectFI_whole: "indirectFI_FileInfo env fi bl = Ok f \<Longrightarrow> \<not> fTruncated f"
  by (auto simp: indirectFI_FileInfo_def bind_result_Ok FileInfoFromDB_def FileInfoFromWire_def fileInfoFromWireWithBlocks_def
      split: option.splits if_splits)

lemma iterLocal_whole:
  assumes "iterLocalFilesBySequence env d q n db = (fis, fin)" and "f \<in> set fis"
  shows "\<not> fTruncated f"
proof -
  have "f \<in> set (fst (iterLocalFilesBySequence env d q n db))" using assms by simp
  then obtain fi bl where "indirectFI_FileInfo env fi bl = Ok f"
    unfolding iterLocalFilesBySequence_def Let_def by (auto dest!: iterate_ok)
  then show ?thesis by (rule indirectFI_whole)
qed

definition handler_ok :: "indexHandler \<Rightarrow> bool" where
  "handler_ok s \<longleftrightarrow> 0 \<le> sentPrevSequence s \<and> sentPrevSequence s \<le> localPrevSequence s"

lemma sendIndexTo_chain:
  assumes "sendIndexTo env sz cd conn db s = Ok (err, s', msgs)" and "handler_ok s"
  shows "handler_ok s' \<and> chain (sentPrevSequence s) msgs (sentPrevSequence s')
    \<or> (\<exists>e. err = Some e \<and> msgs = [])"
proof -
  obtain fis fin where f: "iterLocalFilesBySequence env LocalDeviceID (localPrevSequence s + 1) (int MaxBatchSizeFiles + 1) db = (fis, fin)"
    by fastforce
  show ?thesis
  proof (cases "\<exists>e. err = Some e \<and> msgs = []")
    case False
    obtain le s1 batch where l: "sendLoop sz s 0 False NewFileInfoBatch fis fin = Ok (le, s1, batch)"
      using assms(1) by (auto simp: sendIndexTo_def f bind_result_Ok)
    have le: "le = None" using assms(1) False by (cases le) (auto simp: sendIndexTo_def f l)
    from sendLoop_files [OF l [unfolded le]]
    obtain gs where g: "localPrevSequence s \<le> localPrevSequence s1" "s1 = s\<lparr>localPrevSequence := localPrevSequence s1\<rparr>"
        "fbError batch = None" "fbInfos batch = gs" "sorted_wrt (<) (map fSequence gs)"
        "\<forall>g\<in>set gs. localPrevSequence s < fSequence g \<and> fSequence g \<le> localPrevSequence s1 \<and> g \<in> prepareFileInfoForIndex ` set fis"
      by (auto simp: NewFileInfoBatch_def)
    have sp: "sentPrevSequence s1 = sentPrevSequence s" "ihFolder s1 = ihFolder s" by (subst g(2), simp)+
    show ?thesis
    proof (cases "gs = []")
      case True
      then have "s' = s1" "msgs = []" using assms(1) by (auto simp: sendIndexTo_def f l le batchFlush_def g(3,4))
      then show ?thesis using assms(2) g(1) sp by (simp add: handler_ok_def)
    next
      case ne: False
      then have m: "s' = s1\<lparr>sentPrevSequence := fSequence (last gs)\<rparr>" "msgs = [indexMessage (localPrevSequence s = 0) s1 gs]"
        using assms(1) False
        by (auto simp: sendIndexTo_def f l le batchFlush_def g(3,4) sendBatch_def Let_def bind_result_Ok split: if_splits option.splits)
      have "localPrevSequence s < fSequence (last gs)" "fSequence (last gs) \<le> localPrevSequence s1"
        using g(6) ne last_in_set by blast+
      moreover have "sentPrevSequence s < fSequence f" if "f \<in> set gs" for f
        using g(6) that assms(2) by (fastforce simp: handler_ok_def)
      moreover have "\<not> fTruncated f" if "f \<in> set gs" for f
        using g(6) that iterLocal_whole [OF f] by fastforce
      ultimately show ?thesis
        using assms(2) ne g(5) by (auto simp: m handler_ok_def indexMessage_def sp)
    qed
  qed simp
qed

lemma serveLoop_chain:
  "serveLoop env sz conn dbs s = Ok (err, s', msgs) \<Longrightarrow> handler_ok s \<Longrightarrow>
     \<exists>q. chain (sentPrevSequence s) msgs q \<and> (err = None \<longrightarrow> handler_ok s' \<and> q = sentPrevSequence s')"
proof (induction dbs arbitrary: s msgs)
  case (Cons db dbs)
  show ?case
  proof (cases "GetDeviceSequence LocalDeviceID db \<le> localPrevSequence s")
    case False
    then obtain e1 s1 m1 where 1: "sendIndexTo env sz False conn db s = Ok (e1, s1, m1)"
      using Cons.prems(1) by (auto simp: bind_result_Ok)
    show ?thesis
    proof (cases e1)
      case None
      then obtain m2 where m2: "serveLoop env sz conn dbs s1 = Ok (err, s', m2)" "msgs = m1 @ m2"
        using Cons.prems(1) False 1 by (auto simp: bind_result_Ok)
      have c: "handler_ok s1" "chain (sentPrevSequence s) m1 (sentPrevSequence s1)"
        using sendIndexTo_chain [OF 1 Cons.prems(2)] None by auto
      then show ?thesis using Cons.IH [OF m2(1) c(1)] m2(2) chain_append by blast
    next
      case (Some e)
      then have "err = Some e" "msgs = m1" using Cons.prems(1) False 1 by auto
      then show ?thesis using Some sendIndexTo_chain [OF 1 Cons.prems(2)] by fastforce
    qed
  qed (use Cons in auto)
qed simp

lemma Serve_chain:
  assumes "Serve env sz conn db0 dbs s = Ok (err, s', msgs)" and "handler_ok s"
  shows "\<exists>q. chain (sentPrevSequence s) msgs q \<and> (err = None \<longrightarrow> handler_ok s' \<and> q = sentPrevSequence s')"
proof -
  obtain e1 s1 m1 where 1: "sendIndexTo env sz False conn db0 s = Ok (e1, s1, m1)"
    using assms(1) by (auto simp: Serve_def bind_result_Ok)
  show ?thesis
  proof (cases e1)
    case None
    then obtain m2 where m2: "serveLoop env sz conn dbs s1 = Ok (err, s', m2)" "msgs = m1 @ m2"
      using assms(1) 1 by (auto simp: Serve_def bind_result_Ok)
    have c: "handler_ok s1" "chain (sentPrevSequence s) m1 (sentPrevSequence s1)"
      using sendIndexTo_chain [OF 1 assms(2)] None by auto
    then show ?thesis using serveLoop_chain [OF m2(1) c(1)] m2(2) chain_append by blast
  next
    case (Some e)
    then have "err = Some e" "msgs = m1" using assms(1) 1 by (auto simp: Serve_def)
    then show ?thesis using Some sendIndexTo_chain [OF 1 assms(2)] by fastforce
  qed
qed

section \<open>What a handler makes of it\<close>

text \<open>The messages of one side, as they arrive at the other, one after the other until one is refused.\<close>

fun receiveMsgs ::
  "(FileInfo list \<Rightarrow> 'db \<Rightarrow> (db_error, unit) result \<times> 'db) \<Rightarrow> ('db \<Rightarrow> (db_error, unit) result \<times> 'db) \<Rightarrow> ('db \<Rightarrow> int)
     \<Rightarrow> index_msg list \<Rightarrow> 'db \<Rightarrow> (unit, index_err option \<times> anomaly list \<times> 'db) result" where
  "receiveMsgs upd dropAll sq [] db = Ok (None, [], db)"
| "receiveMsgs upd dropAll sq (m # ms) db =
     bind_result
       (case m of
          SendIndex i \<Rightarrow> receiveWith upd dropAll sq False (map as_received (ixFiles i)) False 0 (ixLastSequence i) db
        | SendUpdate u \<Rightarrow> receiveWith upd dropAll sq False (map as_received (iuFiles u)) True (iuPrevSequence u) (iuLastSequence u) db)
       (\<lambda>(err, as, db1).
          case err of
            Some e \<Rightarrow> Ok (Some e, as, db1)
          | None \<Rightarrow> bind_result (receiveMsgs upd dropAll sq ms db1) (\<lambda>(err2, as2, db2). Ok (err2, as @ as2, db2)))"

fun msgFiles :: "index_msg \<Rightarrow> FileInfo list" where
  "msgFiles (SendIndex i) = ixFiles i"
| "msgFiles (SendUpdate u) = iuFiles u"

lemma checkEach_ok:
  assumes "sorted_wrt (<) (map fSequence fs)" and "\<forall>f\<in>set fs. p \<le> fSequence f \<and> fSequence f \<le> q"
    and "case pre of None \<Rightarrow> True | Some x \<Rightarrow> \<forall>f\<in>set fs. x < fSequence f"
  shows "checkEach p q i pre fs = []"
  using assms
proof (induction fs arbitrary: i pre)
  case (Cons f fs)
  then show ?case by (auto split: option.splits)
qed simp

lemma sorted_last:
  assumes "sorted_wrt (<) (map k fs)" and "f \<in> set fs"
  shows "(k f :: int) \<le> k (last fs)"
  using assms by (induction fs) (auto dest: last_in_set split: if_splits intro: less_imp_le)

lemma checkSequences_ok:
  assumes "fs \<noteq> []" and "sorted_wrt (<) (map fSequence fs)" and "\<forall>f\<in>set fs. p < fSequence f" and "q = fSequence (last fs)"
    and "p > 0 \<Longrightarrow> e = p"
  shows "checkSequences e p q fs = []"
proof -
  have "checkEach p q 0 None fs = []"
    by (rule checkEach_ok) (use assms sorted_last [OF assms(2)] in \<open>auto intro: less_imp_le\<close>)
  then show ?thesis using assms by (auto simp: checkSequences_def)
qed

text \<open>What the handler needs of a database: updating stores the files and records the last sequence number.\<close>

locale index_sink =
  fixes upd :: "FileInfo list \<Rightarrow> 'db \<Rightarrow> (db_error, unit) result \<times> 'db"
    and dropAll :: "'db \<Rightarrow> (db_error, unit) result \<times> 'db"
    and sq :: "'db \<Rightarrow> int" and seqs :: "'db \<Rightarrow> int set" and inv :: "'db \<Rightarrow> bool"
  assumes upd_law: "\<lbrakk>inv db; fs \<noteq> []; sorted_wrt (<) (map fSequence fs); \<forall>f\<in>set fs. \<not> fTruncated f;
      \<forall>x\<in>seqs db. \<forall>f\<in>set fs. x < fSequence f\<rbrakk>
      \<Longrightarrow> \<exists>db'. upd fs db = (Ok (), db') \<and> inv db' \<and> sq db' = fSequence (last fs) \<and> seqs db' \<subseteq> seqs db \<union> fSequence ` set fs"
    and drop_law: "inv db \<Longrightarrow> \<exists>db'. dropAll db = (Ok (), db') \<and> inv db' \<and> seqs db' = {}"
begin

lemma receive_one:
  assumes "inv db" and "fs \<noteq> []" and "sorted_wrt (<) (map fSequence fs)" and "\<forall>f\<in>set fs. \<not> fTruncated f"
    and "\<forall>f\<in>set fs. p < fSequence f" and "update \<Longrightarrow> \<forall>x\<in>seqs db. x \<le> p" and "0 < p \<Longrightarrow> update \<and> sq db = p"
    and "q = fSequence (last fs)"
  shows "\<exists>db'. receiveWith upd dropAll sq False (map as_received fs) update p q db = Ok (None, [], db')
    \<and> inv db' \<and> sq db' = q \<and> (\<forall>x\<in>seqs db'. x \<le> q)"
proof -
  obtain db1 where d: "(if update then (Ok (), db) else dropAll db) = (Ok (), db1)" "inv db1" "\<forall>x\<in>seqs db1. x \<le> p"
      "0 < p \<Longrightarrow> sq db1 = p"
    using drop_law [OF assms(1)] assms(1,6,7) by (cases update) auto
  let ?fs = "map as_received fs"
  have seq: "map fSequence ?fs = map fSequence fs" by (simp add: as_received_def)
  have last: "fSequence (last ?fs) = q" using assms(2,8) by (simp add: last_map as_received_def)
  have fs: "?fs \<noteq> []" "sorted_wrt (<) (map fSequence ?fs)" "\<forall>f\<in>set ?fs. \<not> fTruncated f" "\<forall>f\<in>set ?fs. p < fSequence f"
    unfolding seq using assms(2-5) by (auto simp: as_received_def)
  have "\<forall>x\<in>seqs db1. \<forall>f\<in>set ?fs. x < fSequence f" using d(3) fs(4) by force
  from upd_law [OF d(2) fs(1,2,3) this] obtain db2 where u: "upd ?fs db1 = (Ok (), db2)" "inv db2" "sq db2 = q"
      "seqs db2 \<subseteq> seqs db1 \<union> fSequence ` set ?fs"
    unfolding last by blast
  have c: "checkSequences (sq db1) p q ?fs = []"
    by (rule checkSequences_ok) (use fs last d(4) in auto)
  have "x \<le> q" if "x \<in> seqs db2" for x
    using that u(4) d(3) fs(4) sorted_last [OF fs(2)] last assms(2) by (fastforce dest: last_in_set)
  then show ?thesis using u c by (simp add: receiveWith_def d(1))
qed

lemma receive_chain:
  assumes "chain p msgs q" and "inv db" and "\<forall>x\<in>seqs db. x \<le> p" and "0 < p \<Longrightarrow> sq db = p" and "0 \<le> p"
  shows "\<exists>db'. receiveMsgs upd dropAll sq msgs db = Ok (None, [], db') \<and> inv db' \<and> (\<forall>x\<in>seqs db'. x \<le> q)
    \<and> (msgs \<noteq> [] \<longrightarrow> sq db' = q)"
  using assms
proof (induction p msgs q arbitrary: db rule: chain.induct)
  case (2 p i ms q)
  then obtain db1 where 1: "receiveWith upd dropAll sq False (map as_received (ixFiles i)) False 0 (ixLastSequence i) db = Ok (None, [], db1)"
      "inv db1" "sq db1 = ixLastSequence i" "\<forall>x\<in>seqs db1. x \<le> ixLastSequence i"
    using receive_one [of db "ixFiles i" 0 False "ixLastSequence i"] by auto
  have "0 < fSequence (last (ixFiles i))" using 2(2) last_in_set [of "ixFiles i"] by auto
  then have "0 \<le> ixLastSequence i" using 2(2) by simp
  then obtain db2 where "receiveMsgs upd dropAll sq ms db1 = Ok (None, [], db2)" "inv db2" "\<forall>x\<in>seqs db2. x \<le> q" "ms \<noteq> [] \<longrightarrow> sq db2 = q"
    using 2(1) [OF _ 1(2,4)] 2(2) 1(3) by auto
  then show ?case using 1 2(2) by (cases ms) auto
next
  case (3 p u ms q)
  then obtain db1 where 1: "receiveWith upd dropAll sq False (map as_received (iuFiles u)) True p (iuLastSequence u) db = Ok (None, [], db1)"
      "inv db1" "sq db1 = iuLastSequence u" "\<forall>x\<in>seqs db1. x \<le> iuLastSequence u"
    using receive_one [of db "iuFiles u" p True "iuLastSequence u"] by auto
  have "p < fSequence (last (iuFiles u))" using 3(2) last_in_set [of "iuFiles u"] by auto
  moreover have "iuLastSequence u = fSequence (last (iuFiles u))" using 3(2) by simp
  ultimately have "0 \<le> iuLastSequence u" using 3(6) by linarith
  then obtain db2 where "receiveMsgs upd dropAll sq ms db1 = Ok (None, [], db2)" "inv db2" "\<forall>x\<in>seqs db2. x \<le> q" "ms \<noteq> [] \<longrightarrow> sq db2 = q"
    using 3(1) [OF _ 1(2,4)] 3(2) 1(3) by auto
  then show ?case using 1 3(2) by (cases ms) auto
qed simp

end

section \<open>The folder database as such a database\<close>

definition remoteSeqs :: "DeviceID \<Rightarrow> folderDB \<Rightarrow> int set" where
  "remoteSeqs d db = {q. \<exists>r\<in>set (files db). ownedBy db d r \<and> rRemoteSeq r = Some q}"

lemma owned_idx:
  assumes "devices_ok db" and "(i, d) \<in> set (devices db)"
  shows "ownedBy db d r \<longleftrightarrow> rDevice r = i"
  using assms distinct_pair_key [of "devices db" i d] distinct_pair_eq [of "devices db"]
  by (auto simp: ownedBy_def devices_ok_def dest: map_of_SomeD)

lemma deviceIdx_sees:
  assumes "db_inv db" and "deviceIdxLocked d db = (i, db1)"
  shows "db_inv db1" "(i, d) \<in> set (devices db1)" "files db1 = files db" "remoteSeqs d db1 = remoteSeqs d db"
proof -
  show inv: "db_inv db1" by (rule db_inv_device [OF assms])
  show i: "(i, d) \<in> set (devices db1)" and f: "files db1 = files db"
    using deviceIdxLocked_spec [OF _ assms(2)] assms(1) by (auto simp: db_inv_def)
  have dev: "rDevice r \<in> fst ` set (devices db)" if "r \<in> set (files db)" for r
    using assms(1) that by (auto simp: db_inv_def base_ok_def devices_ok_def)
  have "ownedBy db1 d r = ownedBy db d r" if "r \<in> set (files db)" for r
    using assms(2) dev [OF that] by (auto simp: deviceIdxLocked_def ownedBy_def map_of_append image_iff split: option.splits)
      (auto simp: map_add_def dest: map_of_SomeD weak_map_of_SomeI split: option.splits)
  then show "remoteSeqs d db1 = remoteSeqs d db" by (auto simp: remoteSeqs_def f)
qed

lemma updateFile_indexids:
  assumes "updateFile env d i sk f (prev, db) = Ok (prev', db')" and "d \<noteq> LocalDeviceID"
    and "row_sort (sortRows env)" and "db_inv db" and "i \<in> fst ` set (devices db)" and "seq_unused env d i f (files db)"
  shows "\<exists>x. indexids db' i = Some (x, fSequence f)"
proof -
  let ?f = "prepareFile env f"
  obtain w where rc: "recalcGlobalForFile env (NormalizedFilename env (fName f)) (storeFile env d i sk ?f w db) = Ok db'"
    using updateFile_cases [OF assms(1)] by blast
  have u: "d = LocalDeviceID \<or> (\<forall>r\<in>set (files db). rDevice r = i \<and> rRemoteSeq r = Some (fSequence ?f) \<longrightarrow> rName r = fName ?f)"
    using assms(6) by (simp add: seq_unused_def)
  have "base_ok (storeFile env d i sk ?f w db)" using storeFile_inv(1) [OF assms(4,5) u] .
  from recalc_inv [OF assms(3) this, of "NormalizedFilename env (fName f)"] rc
  obtain fs cs where "db' = (storeFile env d i sk ?f w db)\<lparr>files := fs, counts := cs\<rparr>" by auto
  then have "indexids db' = indexids (storeFile env d i sk ?f w db)" by simp
  then show ?thesis
    using assms(2)
    by (auto simp: storeFile_def insertFile_def Let_def storeBlocks_frame trig_indexids_seq_def fileDBRow_def split: option.splits)
qed

lemma foldM_update_last:
  assumes srt: "row_sort (sortRows env)" and rem: "d \<noteq> LocalDeviceID"
  shows "\<lbrakk>db_inv db; i \<in> fst ` set (devices db); fs \<noteq> []; sorted_wrt (<) (map fSequence fs); \<forall>f\<in>set fs. \<not> fTruncated f;
      \<forall>r\<in>set (files db). \<forall>x. rDevice r = i \<and> rRemoteSeq r = Some x \<longrightarrow> (\<forall>f\<in>set fs. x < fSequence f);
      \<forall>f\<in>set fs. prev \<noteq> Some (fSequence f)\<rbrakk>
    \<Longrightarrow> \<exists>prev' db'. foldM (updateFile env d i sk) fs (prev, db) = Ok (prev', db') \<and> db_inv db' \<and> devices db' = devices db
      \<and> (\<exists>x. indexids db' i = Some (x, fSequence (last fs)))
      \<and> (\<forall>r\<in>set (files db'). \<forall>x. rDevice r = i \<and> rRemoteSeq r = Some x \<longrightarrow>
            x \<in> fSequence ` set fs \<or> (\<exists>r'\<in>set (files db). rDevice r' = i \<and> rRemoteSeq r' = Some x))"
proof (induction fs arbitrary: prev db)
  case (Cons f fs)
  let ?f = "prepareFile env f"
  have su: "seq_unused env d i f (files db)" using Cons.prems(6) by (auto simp: seq_unused_def)
  then have u: "d = LocalDeviceID \<or> (\<forall>r\<in>set (files db). rDevice r = i \<and> rRemoteSeq r = Some (fSequence ?f) \<longrightarrow> rName r = fName ?f)"
    by (simp add: seq_unused_def)
  obtain w where w: "FileInfo_ToWire True (?f\<lparr>fBlocks := [], fSequence := (if d = LocalDeviceID then nextSeq db else fSequence f)\<rparr>) = Ok w"
    using FileInfo_ToWire_cases [of "?f\<lparr>fBlocks := [], fSequence := (if d = LocalDeviceID then nextSeq db else fSequence f)\<rparr>" True]
      Cons.prems(5) by (auto simp: prepareFile_frame)
  obtain p1 db1 where 1: "updateFile env d i sk f (prev, db) = Ok (p1, db1)"
    using updateFile_returns [OF srt storeFile_inv(1) [OF Cons.prems(1,2) u, where env = env and sk = sk and w = w] w, of prev]
      Cons.prems(7) by auto
  have p1: "p1 = Some (fSequence f)" using updateFile_cases [OF 1] rem by auto
  note s = updateFile_inv [OF srt Cons.prems(1,2) su 1]
  have ids: "x = fSequence f \<or> (\<exists>r'\<in>set (files db). rDevice r' = i \<and> rRemoteSeq r' = Some x)"
    if "r \<in> set (files db1)" "rDevice r = i" "rRemoteSeq r = Some x" for r x
  proof -
    have "row_id r \<in> insert (i, Some (fSequence f), NormalizedFilename env (fName f)) (row_id ` set (files db))"
      using s that(1) rem by auto
    then show ?thesis using that(2,3) by (auto simp: row_id_def)
  qed
  have ix: "\<exists>x. indexids db1 i = Some (x, fSequence f)"
    using updateFile_indexids [OF 1 rem srt Cons.prems(1,2) su] .
  show ?case
  proof (cases "fs = []")
    case True
    then show ?thesis using 1 s ix ids by auto
  next
    case False
    have below: "\<forall>r\<in>set (files db1). \<forall>x. rDevice r = i \<and> rRemoteSeq r = Some x \<longrightarrow> (\<forall>g\<in>set fs. x < fSequence g)"
    proof (intro ballI allI impI)
      fix r x g assume r: "r \<in> set (files db1)" "rDevice r = i \<and> rRemoteSeq r = Some x" and g: "g \<in> set fs"
      from ids [OF r(1)] r(2) consider "x = fSequence f" | r' where "r' \<in> set (files db)" "rDevice r' = i" "rRemoteSeq r' = Some x"
        by blast
      then show "x < fSequence g" using Cons.prems(4,6) g by cases auto
    qed
    have pn: "\<forall>g\<in>set fs. p1 \<noteq> Some (fSequence g)" using p1 Cons.prems(4) by auto
    obtain prev' db' where 2: "foldM (updateFile env d i sk) fs (p1, db1) = Ok (prev', db')" "db_inv db'" "devices db' = devices db1"
        "\<exists>x. indexids db' i = Some (x, fSequence (last fs))"
        "\<forall>r\<in>set (files db'). \<forall>x. rDevice r = i \<and> rRemoteSeq r = Some x \<longrightarrow>
            x \<in> fSequence ` set fs \<or> (\<exists>r'\<in>set (files db1). rDevice r' = i \<and> rRemoteSeq r' = Some x)"
      using Cons.IH [OF _ _ False _ _ below pn] s Cons.prems(2,4,5) by auto
    have "x \<in> fSequence ` set (f # fs) \<or> (\<exists>r'\<in>set (files db). rDevice r' = i \<and> rRemoteSeq r' = Some x)"
      if "r \<in> set (files db')" "rDevice r = i" "rRemoteSeq r = Some x" for r x
      using 2(5) that ids by fastforce
    then show ?thesis using 1 2 s False by simp
  qed
qed simp

lemma recalcs_frame:
  assumes srt: "row_sort (sortRows env)"
  shows "\<lbrakk>base_ok db; foldM (recalcGlobalForFile env) ns db = Ok db'\<rbrakk>
    \<Longrightarrow> row_id ` set (files db') = row_id ` set (files db) \<and> devices db' = devices db"
proof (induction ns arbitrary: db)
  case (Cons n ns)
  obtain db1 f where 1: "recalcGlobalForFile env n db = Ok db1" "base_ok db1" "files db1 = map f (files db)"
      "\<And>r. \<exists>fl. f r = r\<lparr>rFlags := fl\<rparr>" "db1 = db\<lparr>files := files db1, counts := counts db1\<rparr>"
    using recalc_inv [OF srt Cons.prems(1), of n] by blast
  have "row_id (f r) = row_id r" for r using 1(4) [of r] by (auto simp: row_id_def)
  then have "row_id ` set (files db1) = row_id ` set (files db)" by (auto simp: 1(3) image_iff)
  moreover have "devices db1 = devices db" by (subst 1(5)) simp
  moreover have "foldM (recalcGlobalForFile env) ns db1 = Ok db'" using Cons.prems(2) 1(1) by simp
  ultimately show ?case using Cons.IH [OF 1(2)] by simp
qed simp

lemma remoteSeqs_idx:
  assumes "devices_ok db" and "(i, d) \<in> set (devices db)"
  shows "remoteSeqs d db = {q. \<exists>n. (i, Some q, n) \<in> row_id ` set (files db)}"
  using owned_idx [OF assms] by (fastforce simp: remoteSeqs_def row_id_def image_iff)

lemma drop_clears:
  assumes srt: "row_sort (sortRows env)" and inv: "db_inv db"
  shows "\<exists>db'. DropAllFiles env d db = (Ok (), db') \<and> db_inv db' \<and> remoteSeqs d db' = {}"
proof -
  obtain i db1 where d: "deviceIdxLocked d db = (i, db1)" by fastforce
  note s = deviceIdx_sees [OF inv d]
  let ?P = "\<lambda>r. rDevice r = i"
  let ?db2 = "deleteFiles ?P db1"
  note di = DropAllFiles_inv [OF srt inv, of d]
  then obtain db' where db': "DropAllFiles env d db = (Ok (), db')" "db_inv db'"
    by (cases "DropAllFiles env d db") auto
  have "row_id ` set (files db') = row_id ` set (files ?db2) \<and> devices db' = devices ?db2"
  proof (cases "filter ?P (files db1) = []")
    case True
    then show ?thesis using db'(1) by (simp add: DropAllFiles_def d)
  next
    case False
    have "foldM (recalcGlobalForFile env) (noGlobalNames ?db2) ?db2 = Ok db'"
      using db'(1) False
      by (cases "recalcGlobalForFolder env ?db2")
        (simp_all add: DropAllFiles_def d commit_def recalcGlobalForFolder_def Let_def)
    moreover have "base_ok ?db2" using s(1) by (simp add: db_inv_def base_ok_deleteFiles)
    ultimately show ?thesis using recalcs_frame [OF srt] by blast
  qed
  moreover have "(i, d) \<in> set (devices ?db2)" using s(2) by (simp add: deleteFiles_def Let_def)
  moreover have "\<not> (\<exists>q n. (i, Some q, n) \<in> row_id ` set (files ?db2))" by (auto simp: deleteFiles_def Let_def row_id_def)
  ultimately have "remoteSeqs d db' = {}"
    using remoteSeqs_idx [of db' i d] db'(2) by (simp add: db_inv_def base_ok_def)
  with db' show ?thesis by blast
qed

lemma update_records:
  assumes srt: "row_sort (sortRows env)" and rem: "d \<noteq> LocalDeviceID" and inv: "db_inv db" and "fs \<noteq> []"
    and "sorted_wrt (<) (map fSequence fs)" and "\<forall>f\<in>set fs. \<not> fTruncated f"
    and above: "\<forall>x\<in>remoteSeqs d db. \<forall>f\<in>set fs. x < fSequence f"
  shows "\<exists>db'. db_Update env d fs False db = (Ok (), db') \<and> db_inv db' \<and> GetDeviceSequence d db' = fSequence (last fs)
    \<and> remoteSeqs d db' \<subseteq> remoteSeqs d db \<union> fSequence ` set fs"
proof -
  obtain i db1 where d: "deviceIdxLocked d db = (i, db1)" by fastforce
  note s = deviceIdx_sees [OF inv d]
  have dev: "devices_ok db1" using s(1) by (simp add: db_inv_def base_ok_def)
  have i: "i \<in> fst ` set (devices db1)" using s(2) by force
  have "\<forall>r\<in>set (files db1). \<forall>x. rDevice r = i \<and> rRemoteSeq r = Some x \<longrightarrow> (\<forall>f\<in>set fs. x < fSequence f)"
    using above [folded s(4)] owned_idx [OF dev s(2)] by (auto simp: remoteSeqs_def)
  from foldM_update_last [OF srt rem s(1) i assms(4-6) this, of None False]
  obtain prev' db' where u: "foldM (updateFile env d i False) fs (None, db1) = Ok (prev', db')" "db_inv db'" "devices db' = devices db1"
      "\<exists>x. indexids db' i = Some (x, fSequence (last fs))"
      "\<forall>r\<in>set (files db'). \<forall>x. rDevice r = i \<and> rRemoteSeq r = Some x \<longrightarrow>
            x \<in> fSequence ` set fs \<or> (\<exists>r'\<in>set (files db1). rDevice r' = i \<and> rRemoteSeq r' = Some x)"
    by auto
  have dev': "devices_ok db'" using u(2) by (simp add: db_inv_def base_ok_def)
  have id': "(i, d) \<in> set (devices db')" using s(2) u(3) by simp
  have "(d, i) \<in> set (map (\<lambda>(i, d). (d, i)) (devices db'))" using id' by force
  then have "deviceIdxOf d db' = Some i"
    using dev' by (simp add: deviceIdxOf_def devices_ok_def o_def split_beta distinct_pair_key)
  then have "GetDeviceSequence d db' = fSequence (last fs)" using u(4) by (auto simp: GetDeviceSequence_def)
  moreover have "remoteSeqs d db' \<subseteq> remoteSeqs d db1 \<union> fSequence ` set fs"
    using u(5) owned_idx [OF dev' id'] owned_idx [OF dev s(2)] by (fastforce simp: remoteSeqs_def)
  ultimately show ?thesis using u(1,2) s(4) by (auto simp: db_Update_def d commit_def)
qed

definition sink_inv :: "db_env \<Rightarrow> DeviceID \<Rightarrow> folderDB \<Rightarrow> bool" where
  "sink_inv env d db \<longleftrightarrow> db_inv db \<and> row_sort (sortRows env) \<and> d \<noteq> LocalDeviceID"

interpretation sink: index_sink "\<lambda>fs db. db_Update env d fs False db" "DropAllFiles env d" "GetDeviceSequence d"
  "remoteSeqs d" "sink_inv env d" for env d
  by unfold_locales (use update_records drop_clears in \<open>simp_all add: sink_inv_def\<close>)

text \<open>
  Claim C7. Whatever files a device stores over time and however its index handler batches them,
  the messages it sends are what the other side's handler expects: starting from a database that
  knows the sender up to where it starts, the receiver stores them all without an error and
  without logging a sequence anomaly, keeps its database consistent, and ends knowing the
  sender up to the last sequence number sent.
\<close>

theorem index_exchange_clean:
  assumes "Serve env sz conn db0 dbs s = Ok (err, s', msgs)" and "handler_ok s" and "sink_inv env2 d db"
    and "\<forall>x\<in>remoteSeqs d db. x \<le> sentPrevSequence s"
    and "0 < sentPrevSequence s \<Longrightarrow> GetDeviceSequence d db = sentPrevSequence s"
  shows "\<exists>db'. receiveMsgs (\<lambda>fs db. db_Update env2 d fs False db) (DropAllFiles env2 d) (GetDeviceSequence d) msgs db = Ok (None, [], db')
    \<and> sink_inv env2 d db' \<and> (msgs \<noteq> [] \<and> err = None \<longrightarrow> GetDeviceSequence d db' = sentPrevSequence s')"
proof -
  obtain q where q: "chain (sentPrevSequence s) msgs q" "err = None \<longrightarrow> q = sentPrevSequence s'"
    using Serve_chain [OF assms(1,2)] by blast
  have "0 \<le> sentPrevSequence s" using assms(2) by (simp add: handler_ok_def)
  from sink.receive_chain [OF q(1) assms(3,4,5) this] q(2) show ?thesis by auto
qed

section \<open>Everything is sent\<close>

text \<open>The files a handler still has to look at, those it may send, and what a query finds.\<close>

definition rest :: "FileInfo list \<Rightarrow> indexHandler \<Rightarrow> FileInfo list" where
  "rest all s = filter (\<lambda>f. localPrevSequence s < fSequence f) all"

definition sendable :: "indexHandler \<Rightarrow> FileInfo list \<Rightarrow> FileInfo list" where
  "sendable s fs = map prepareFileInfoForIndex (filter (\<lambda>f. \<not> (folderIsReceiveEncrypted s \<and> IsReceiveOnlyChanged f)) fs)"

lemma sendLoop_complete:
  assumes "sorted_wrt (<) (map fSequence fis)" and "\<forall>f\<in>set fis. localPrevSequence s < fSequence f \<and> (lastSeq \<le> 0 \<or> lastSeq < fSequence f)"
    and "\<forall>f\<in>set fis. \<not> fTruncated f" and "fbError batch = None"
  shows "\<exists>k batch'. sendLoop sz s lastSeq pd batch fis (Ok ()) =
      Ok (None, s\<lparr>localPrevSequence := (if k = 0 then localPrevSequence s else fSequence (fis ! (k - 1)))\<rparr>, batch')
    \<and> k \<le> length fis \<and> fbInfos batch' = fbInfos batch @ sendable s (take k fis) \<and> fbError batch' = None
    \<and> (fis \<noteq> [] \<and> \<not> batchFull batch \<longrightarrow> 0 < k)"
  using assms
proof (induction fis arbitrary: s lastSeq pd batch)
  case Nil
  then show ?case by (auto simp: sendable_def intro!: exI [of _ 0])
next
  case (Cons fi fis)
  show ?case
  proof (cases "batchFull batch \<and> (\<not> fDeleted fi \<or> pd)")
    case True
    then show ?thesis using Cons.prems(4) by (auto simp: sendable_def intro!: exI [of _ 0])
  next
    case False
    let ?s = "s\<lparr>localPrevSequence := fSequence fi\<rparr>"
    let ?skip = "folderIsReceiveEncrypted s \<and> IsReceiveOnlyChanged fi"
    obtain w where w: "FileInfo_ToWire True (prepareFileInfoForIndex fi) = Ok w"
      using FileInfo_ToWire_cases [of "prepareFileInfoForIndex fi" True] Cons.prems(3) by auto
    let ?b = "if ?skip then batch
      else batch\<lparr>fbInfos := fbInfos batch @ [prepareFileInfoForIndex fi], fbSize := fbSize batch + sz w\<rparr>"
    let ?pd = "if ?skip then pd else fDeleted fi"
    have step: "sendLoop sz s lastSeq pd batch (fi # fis) (Ok ()) = sendLoop sz ?s (fSequence fi) ?pd ?b fis (Ok ())"
      using False Cons.prems(2,4) w unfolding sendLoop.simps(2) by (auto simp: Let_def batchAppend_def simp del: not_less)
    have pre: "\<forall>f\<in>set fis. localPrevSequence ?s < fSequence f \<and> (fSequence fi \<le> 0 \<or> fSequence fi < fSequence f)"
      "sorted_wrt (<) (map fSequence fis)" "\<forall>f\<in>set fis. \<not> fTruncated f" "fbError ?b = None"
      using Cons.prems by auto
    obtain k batch' where k: "sendLoop sz ?s (fSequence fi) ?pd ?b fis (Ok ()) =
        Ok (None, ?s\<lparr>localPrevSequence := (if k = 0 then localPrevSequence ?s else fSequence (fis ! (k - 1)))\<rparr>, batch')"
      "k \<le> length fis" "fbInfos batch' = fbInfos ?b @ sendable ?s (take k fis)" "fbError batch' = None"
      using Cons.IH [OF pre(2,1,3,4), of ?pd] by blast
    have "?s\<lparr>localPrevSequence := (if k = 0 then localPrevSequence ?s else fSequence (fis ! (k - 1)))\<rparr>
        = s\<lparr>localPrevSequence := (if Suc k = 0 then localPrevSequence s else fSequence ((fi # fis) ! (Suc k - 1)))\<rparr>"
      by (cases k) simp_all
    moreover have "fbInfos ?b @ sendable ?s (take k fis) = fbInfos batch @ sendable s (take (Suc k) (fi # fis))"
      by (simp add: sendable_def)
    ultimately show ?thesis using k step by (intro exI [of _ "Suc k"] exI [of _ batch']) simp
  qed
qed

lemma filter_above_nth:
  assumes "sorted_wrt (<) (map k xs)" and "i < length xs"
  shows "filter (\<lambda>x. (k (xs ! i) :: int) < k x) xs = drop (Suc i) xs"
  using assms
proof (induction xs arbitrary: i)
  case (Cons x xs)
  show ?case
  proof (cases i)
    case 0
    have "filter (\<lambda>y. k x < k y) xs = xs" using Cons.prems(1) by (auto simp: filter_id_conv)
    then show ?thesis using 0 by simp
  next
    case (Suc j)
    have "k x < k (xs ! j)" using Suc Cons.prems by simp
    then have "\<not> k (xs ! j) < k x" by simp
    then show ?thesis using Suc Cons by simp
  qed
qed simp

lemma rest_sorted: "sorted_wrt (<) (map fSequence all) \<Longrightarrow> sorted_wrt (<) (map fSequence (rest all s))"
  by (simp add: rest_def sorted_wrt_map sorted_wrt_filter)

lemma rest_drop:
  assumes "sorted_wrt (<) (map fSequence all)" and "k \<le> length (rest all s)"
  shows "rest all (s\<lparr>localPrevSequence := (if k = 0 then localPrevSequence s else fSequence (rest all s ! (k - 1)))\<rparr>) = drop k (rest all s)"
proof (cases k)
  case (Suc j)
  let ?q = "fSequence (rest all s ! j)"
  have j: "j < length (rest all s)" using Suc assms by simp
  then have "rest all s ! j \<in> set (rest all s)" by (rule nth_mem)
  then have "localPrevSequence s < ?q" by (simp add: rest_def)
  then have "filter (\<lambda>f. ?q < fSequence f) all = filter (\<lambda>f. ?q < fSequence f) (rest all s)"
    by (auto simp: rest_def intro!: filter_cong)
  also have "\<dots> = drop (Suc j) (rest all s)" by (rule filter_above_nth [OF rest_sorted [OF assms(1)] j])
  finally show ?thesis using Suc by (simp add: rest_def)
qed (simp add: rest_def)

text \<open>
  What a round relies on: the database returns the files after \<open>p\<close> in pages, in the order
  of their sequence numbers, none above the sequence number of the local device.
\<close>

definition local_index :: "db_env \<Rightarrow> folderDB \<Rightarrow> FileInfo list \<Rightarrow> bool" where
  "local_index env db all \<longleftrightarrow> sorted_wrt (<) (map fSequence all)
     \<and> (\<forall>f\<in>set all. fSequence f \<le> GetDeviceSequence LocalDeviceID db \<and> \<not> fTruncated f)
     \<and> (\<forall>p n. 0 < n \<longrightarrow> iterLocalFilesBySequence env LocalDeviceID (p + 1) n db
          = (take (nat n) (filter (\<lambda>f. p < fSequence f) all), Ok ()))"

lemma sendIndexTo_round:
  assumes loc: "local_index env db all" and conn: "\<forall>m. conn m = None"
  shows "\<exists>s' msgs k. sendIndexTo env sz False conn db s = Ok (None, s', msgs) \<and> rest all s' = drop k (rest all s)
    \<and> folderIsReceiveEncrypted s' = folderIsReceiveEncrypted s
    \<and> concat (map msgFiles msgs) = sendable s (take k (rest all s)) \<and> (rest all s \<noteq> [] \<longrightarrow> 0 < k)"
proof -
  define N where "N = Suc MaxBatchSizeFiles"
  define fis where "fis = take N (rest all s)"
  have srt: "sorted_wrt (<) (map fSequence all)" using loc by (simp add: local_index_def)
  have "nat (int MaxBatchSizeFiles + 1) = N" by (simp add: N_def)
  then have it: "iterLocalFilesBySequence env LocalDeviceID (localPrevSequence s + 1) (int MaxBatchSizeFiles + 1) db = (fis, Ok ())"
    using loc by (simp add: local_index_def rest_def fis_def)
  have mem: "f \<in> set (rest all s)" if "f \<in> set fis" for f using that unfolding fis_def by (rule in_set_takeD)
  have 1: "sorted_wrt (<) (map fSequence fis)"
    using sorted_wrt_take [OF rest_sorted [OF srt, of s], of N] by (simp add: fis_def take_map)
  have 2: "\<forall>f\<in>set fis. localPrevSequence s < fSequence f \<and> ((0::int) \<le> 0 \<or> 0 < fSequence f)"
    using mem by (auto simp: rest_def)
  have 3: "\<forall>f\<in>set fis. \<not> fTruncated f" using mem loc by (auto simp: rest_def local_index_def)
  have new: "fbError (NewFileInfoBatch :: index_err FileInfoBatch) = None" "fbInfos (NewFileInfoBatch :: index_err FileInfoBatch) = []"
      "\<not> batchFull (NewFileInfoBatch :: index_err FileInfoBatch)"
    by (simp_all add: NewFileInfoBatch_def batchFull_def MaxBatchSizeFiles_def MaxBatchSizeBytes_def)
  obtain k batch' where k: "sendLoop sz s 0 False NewFileInfoBatch fis (Ok ()) =
      Ok (None, s\<lparr>localPrevSequence := (if k = 0 then localPrevSequence s else fSequence (fis ! (k - 1)))\<rparr>, batch')"
    "k \<le> length fis" "fbInfos batch' = sendable s (take k fis)" "fbError batch' = None" "fis \<noteq> [] \<longrightarrow> 0 < k"
    using sendLoop_complete [OF 1 2 3 new(1), of sz False] new(2,3) by auto
  define s1 where "s1 = s\<lparr>localPrevSequence := (if k = 0 then localPrevSequence s else fSequence (fis ! (k - 1)))\<rparr>"
  have kN: "k \<le> N" "k \<le> length (rest all s)" using k(2) by (auto simp: fis_def)
  then have "take k fis = take k (rest all s)" by (simp add: fis_def min_absorb1)
  moreover have "s1 = s\<lparr>localPrevSequence := (if k = 0 then localPrevSequence s else fSequence (rest all s ! (k - 1)))\<rparr>"
    using kN by (simp add: s1_def fis_def)
  then have "rest all s1 = drop k (rest all s)" using rest_drop [OF srt kN(2)] by simp
  moreover have "folderIsReceiveEncrypted s1 = folderIsReceiveEncrypted s" by (simp add: s1_def)
  moreover have "rest all s \<noteq> [] \<longrightarrow> 0 < k" using k(5) by (auto simp: fis_def N_def)
  moreover have "\<exists>s' msgs. sendIndexTo env sz False conn db s = Ok (None, s', msgs) \<and> s'\<lparr>sentPrevSequence := 0\<rparr> = s1\<lparr>sentPrevSequence := 0\<rparr>
      \<and> concat (map msgFiles msgs) = sendable s (take k fis)"
  proof (cases "fbInfos batch' = []")
    case True
    then show ?thesis using k(1,3,4) by (simp add: sendIndexTo_def it s1_def batchFlush_def)
  next
    case False
    then show ?thesis using k(1,3,4) conn
      by (simp add: sendIndexTo_def it s1_def batchFlush_def sendBatch_def indexMessage_def Let_def)
  qed
  moreover have "rest all s' = rest all s1 \<and> folderIsReceiveEncrypted s' = folderIsReceiveEncrypted s1"
    if "s'\<lparr>sentPrevSequence := 0\<rparr> = s1\<lparr>sentPrevSequence := 0\<rparr>" for s'
    using that by (cases s', cases s1) (simp add: rest_def)
  ultimately show ?thesis by metis
qed

lemma sendable_append: "sendable s (xs @ ys) = sendable s xs @ sendable s ys"
  by (simp add: sendable_def)

lemma serveLoop_complete:
  assumes loc: "local_index env db all" and conn: "\<forall>m. conn m = None"
  shows "length (rest all s) \<le> n \<Longrightarrow> \<exists>s' msgs. serveLoop env sz conn (replicate n db) s = Ok (None, s', msgs)
    \<and> rest all s' = [] \<and> concat (map msgFiles msgs) = sendable s (rest all s)"
proof (induction n arbitrary: s)
  case (Suc n)
  show ?case
  proof (cases "GetDeviceSequence LocalDeviceID db \<le> localPrevSequence s")
    case True
    then have "rest all s = []" using loc by (fastforce simp: rest_def local_index_def filter_empty_conv)
    then show ?thesis using Suc.IH [of s] True by simp
  next
    case False
    obtain s1 m1 k where 1: "sendIndexTo env sz False conn db s = Ok (None, s1, m1)" "rest all s1 = drop k (rest all s)"
        "folderIsReceiveEncrypted s1 = folderIsReceiveEncrypted s"
        "concat (map msgFiles m1) = sendable s (take k (rest all s))" "rest all s \<noteq> [] \<longrightarrow> 0 < k"
      using sendIndexTo_round [OF assms] by blast
    have "length (rest all s1) \<le> n" using 1(2,5) Suc.prems by (cases "rest all s") auto
    from Suc.IH [OF this] obtain s2 m2 where 2: "serveLoop env sz conn (replicate n db) s1 = Ok (None, s2, m2)" "rest all s2 = []"
        "concat (map msgFiles m2) = sendable s1 (rest all s1)"
      by blast
    have "sendable s1 = sendable s" using 1(3) by (simp add: sendable_def fun_eq_iff)
    then have "concat (map msgFiles (m1 @ m2)) = sendable s (rest all s)"
      using 1(2,4) 2(3) by (simp flip: sendable_append)
    then show ?thesis using False 1(1) 2(1,2) by auto
  qed
qed (simp add: sendable_def)

text \<open>
  The rows of the local device with what they decode to: each row has its file info, which
  carries the sequence number of the row, and the device's sequence number is not behind.
\<close>

definition localRows :: "folderDB \<Rightarrow> db_row list" where
  "localRows db = sort_key rSequence (filter (ownedBy db LocalDeviceID) (files db))"

definition index_ok :: "db_env \<Rightarrow> folderDB \<Rightarrow> FileInfo list \<Rightarrow> bool" where
  "index_ok env db all \<longleftrightarrow> queryInfos env db (localRows db) = Ok all \<and> map fSequence all = map rSequence (localRows db)
     \<and> (\<forall>r\<in>set (localRows db). rSequence r \<le> GetDeviceSequence LocalDeviceID db)"

lemma map_filter_total: "\<forall>x\<in>set xs. f x \<noteq> None \<Longrightarrow> List.map_filter f xs = map (\<lambda>x. the (f x)) xs"
  by (induction xs) (auto simp: List.map_filter_simps)

lemma iterate_map_ok: "\<forall>x\<in>set xs. g (h x) = Ok (k x) \<Longrightarrow> iterate g (map h xs) = (map k xs, Ok ())"
  by (induction xs) auto

lemma index_ok_local:
  assumes inv: "db_inv db" and ok: "index_ok env db all"
  shows "local_index env db all"
proof -
  let ?rs = "localRows db" and ?g = "\<lambda>(fi, bl). indirectFI_FileInfo env fi bl"
  have join: "joinInfo db r \<noteq> None" if "r \<in> set (files db)" for r
    using inv that by (force simp: db_inv_def base_ok_def infos_ok_def joinInfo_def split: option.splits)
  have mem: "r \<in> set (files db)" if "r \<in> set ?rs" for r using that by (simp add: localRows_def)
  have "traverse_result ?g (map (\<lambda>r. the (joinInfo db r)) ?rs) = Ok all"
    using ok map_filter_total [of ?rs "joinInfo db"] join mem by (simp add: index_ok_def queryInfos_def)
  then have l2: "list_all2 (\<lambda>r f. ?g (the (joinInfo db r)) = Ok f) ?rs all"
    by (simp add: traverse_result_Ok_iff list_all2_map1)
  define dec where "dec r = (case ?g (the (joinInfo db r)) of Ok f \<Rightarrow> f)" for r
  have all: "all = map dec ?rs" using l2
    by (auto simp: list_all2_conv_all_nth dec_def intro!: nth_equalityI)
  have dec: "?g (the (joinInfo db r)) = Ok (dec r)" "fSequence (dec r) = rSequence r" if "r \<in> set ?rs" for r
    using l2 ok that unfolding all index_ok_def by (auto simp: list_all2_map2 list_all2_same o_def)
  have "distinct (map rSequence ?rs)"
    using inv by (auto simp: localRows_def db_inv_def base_ok_def keys_ok_def distinct_map inj_on_def)
  then have "sorted_wrt (<) (map rSequence ?rs)"
    by (auto simp: strict_sorted_iff localRows_def)
  then have 1: "sorted_wrt (<) (map fSequence all)" using ok by (simp add: index_ok_def)
  have 2: "iterLocalFilesBySequence env LocalDeviceID (p + 1) n db = (take (nat n) (filter (\<lambda>f. p < fSequence f) all), Ok ())"
    if "0 < n" for p n
  proof -
    have "sort_key rSequence (filter (\<lambda>f. ownedBy db LocalDeviceID f \<and> p + 1 \<le> rSequence f) (files db))
        = filter (\<lambda>r. p < rSequence r) ?rs"
      unfolding localRows_def filter_sort by (rule arg_cong [of _ _ "sort_key rSequence"]) (auto intro: filter_cong)
    moreover have "filter (\<lambda>f. p < fSequence f) all = map dec (filter (\<lambda>r. p < rSequence r) ?rs)"
      unfolding all filter_map o_def using dec(2) by (intro arg_cong [of _ _ "map dec"] filter_cong) simp_all
    moreover define t where "t = take (nat n) (filter (\<lambda>r. p < rSequence r) ?rs)"
    have tm: "r \<in> set ?rs" if "r \<in> set t" for r using in_set_takeD [OF that [unfolded t_def]] by simp
    have "List.map_filter (joinInfo db) t = map (\<lambda>r. the (joinInfo db r)) t"
      by (rule map_filter_total) (use tm join mem in blast)
    moreover have "iterate ?g (map (\<lambda>r. the (joinInfo db r)) t) = (map dec t, Ok ())"
      by (rule iterate_map_ok) (use dec(1) tm in blast)
    ultimately show ?thesis using that by (simp add: iterLocalFilesBySequence_def take_map t_def)
  qed
  have 3: "fSequence f \<le> GetDeviceSequence LocalDeviceID db" if "f \<in> set all" for f
    using that dec(2) ok by (auto simp: all index_ok_def)
  have "\<not> fTruncated f" if "f \<in> set all" for f
  proof -
    from that obtain r where "r \<in> set ?rs" "f = dec r" unfolding all by auto
    with dec(1) have "indirectFI_FileInfo env (fst (the (joinInfo db r))) (snd (the (joinInfo db r))) = Ok f" by (simp add: split_beta)
    then show ?thesis by (rule indirectFI_whole)
  qed
  with 1 2 3 show ?thesis by (simp add: local_index_def)
qed

text \<open>
  Claim C12. Index exchange makes progress: as long as the connection accepts messages, a handler
  serving a database that no longer changes has, after at most as many rounds as there are files
  left, sent every local file after its start exactly once and in order, except those a
  receive-encrypted folder must keep to itself.
\<close>

theorem index_complete:
  assumes "db_inv db" and "index_ok env db all" and "\<forall>m. conn m = None" and "length (rest all s) \<le> n"
  shows "\<exists>s' msgs. Serve env sz conn db (replicate n db) s = Ok (None, s', msgs)
    \<and> concat (map msgFiles msgs) = sendable s (rest all s) \<and> rest all s' = []"
proof -
  note loc = index_ok_local [OF assms(1,2)]
  obtain s1 m1 k where 1: "sendIndexTo env sz False conn db s = Ok (None, s1, m1)" "rest all s1 = drop k (rest all s)"
      "folderIsReceiveEncrypted s1 = folderIsReceiveEncrypted s" "concat (map msgFiles m1) = sendable s (take k (rest all s))"
    using sendIndexTo_round [OF loc assms(3)] by blast
  have "length (rest all s1) \<le> n" using 1(2) assms(4) by simp
  from serveLoop_complete [OF loc assms(3) this] obtain s2 m2 where 2: "serveLoop env sz conn (replicate n db) s1 = Ok (None, s2, m2)"
      "rest all s2 = []" "concat (map msgFiles m2) = sendable s1 (rest all s1)"
    by blast
  have "sendable s1 = sendable s" using 1(3) by (simp add: sendable_def fun_eq_iff)
  then have "concat (map msgFiles (m1 @ m2)) = sendable s (rest all s)"
    using 1(2,4) 2(3) by (simp flip: sendable_append)
  then show ?thesis using 1(1) 2(1,2) by (auto simp: Serve_def)
qed

section \<open>The full index of a receive-encrypted folder\<close>

lemma sendIndexTo_update:
  assumes "sendIndexTo env sz cd conn db s = Ok (err, s', msgs)" and "0 < localPrevSequence s"
  shows "(\<forall>m\<in>set msgs. \<exists>u. m = SendUpdate u) \<and> (err = None \<longrightarrow> 0 < localPrevSequence s')"
proof -
  obtain fis fin where f: "iterLocalFilesBySequence env LocalDeviceID (localPrevSequence s + 1) (int MaxBatchSizeFiles + 1) db = (fis, fin)"
    by fastforce
  obtain le s1 batch where l: "sendLoop sz s 0 False NewFileInfoBatch fis fin = Ok (le, s1, batch)"
    using assms(1) by (auto simp: sendIndexTo_def f bind_result_Ok)
  show ?thesis
  proof (cases le)
    case None
    then have "0 < localPrevSequence s1" using sendLoop_files [OF l [unfolded None]] assms(2) by linarith
    then show ?thesis using assms
      by (auto simp: sendIndexTo_def f l None batchFlush_def sendBatch_def indexMessage_def Let_def bind_result_Ok
          split: if_splits option.splits)
  qed (use assms(1) in \<open>auto simp: sendIndexTo_def f l\<close>)
qed

lemma serveLoop_update:
  "serveLoop env sz conn dbs s = Ok (err, s', msgs) \<Longrightarrow> 0 < localPrevSequence s \<Longrightarrow> \<forall>m\<in>set msgs. \<exists>u. m = SendUpdate u"
proof (induction dbs arbitrary: s msgs)
  case (Cons db dbs)
  show ?case
  proof (cases "GetDeviceSequence LocalDeviceID db \<le> localPrevSequence s")
    case False
    then obtain e1 s1 m1 where 1: "sendIndexTo env sz False conn db s = Ok (e1, s1, m1)"
      using Cons.prems(1) by (auto simp: bind_result_Ok)
    note u = sendIndexTo_update [OF 1 Cons.prems(2)]
    show ?thesis
    proof (cases e1)
      case None
      then obtain m2 where m2: "serveLoop env sz conn dbs s1 = Ok (err, s', m2)" "msgs = m1 @ m2"
        using Cons.prems(1) False 1 by (auto simp: bind_result_Ok)
      then show ?thesis using u None Cons.IH [OF m2(1)] by auto
    qed (use Cons.prems(1) False 1 u in auto)
  qed (use Cons in auto)
qed simp

lemma chain_empty: "chain p msgs q \<Longrightarrow> concat (map msgFiles msgs) = [] \<Longrightarrow> msgs = []"
  by (cases msgs; cases "hd msgs") auto


section \<open>A sample exchange\<close>

definition sent_file :: "FlagLocal \<Rightarrow> FileInfo" where
  "sent_file fl = fi_sample\<lparr>fSequence := 1, fLocalFlags := fl\<rparr>"

definition sent_wire :: "FlagLocal \<Rightarrow> bep_FileInfo" where
  "sent_wire fl = (case FileInfo_ToWire True (sent_file fl) of Ok w \<Rightarrow> w)"

definition send_db :: folderDB where
  "send_db = reuse_db\<lparr>indexids := [1 \<mapsto> (''5'', 1)]\<rparr>"

definition start_handler :: indexHandler where
  "start_handler = \<lparr>ihFolder = ''f'', folderIsReceiveEncrypted = True, localPrevSequence = 0, sentPrevSequence = 0, ihPaused = False\<rparr>"

lemma send_db_inv: "db_inv send_db"
  using db_inv_reuse
  by (simp add: send_db_def db_inv_def base_ok_def keys_ok_def versions_ok_def devices_ok_def infos_ok_def counts_ok_def
      name_ok_def rowsOf_def)

lemma sent_back: "FileInfoFromDB ((sent_wire fl)\<lparr>wName := wName (sent_wire fl)\<rparr>) = sent_file fl"
  by (simp add: sent_wire_def sent_file_def fi_sample_def fi_blank_def FileInfo_ToWire_def Let_def FileInfoFromDB_def
      FileInfoFromWire_def fileInfoFromWireWithBlocks_def emptyPlatformData_def wire_simps is_i32_def)

lemma local_rows_sample: "localRows send_db = [sample_row 1 1 None [mkCounter 1 1]]"
  "GetDeviceSequence LocalDeviceID send_db = 1"
proof -
  have "remote_sample \<noteq> LocalDeviceID"
    by (simp add: remote_sample_def LocalDeviceID_def repeatedDeviceID_def DeviceIDLength_def)
  then show "localRows send_db = [sample_row 1 1 None [mkCounter 1 1]]" "GetDeviceSequence LocalDeviceID send_db = 1"
    by (simp_all add: localRows_def send_db_def reuse_db_def sample_db_def ownedBy_def sample_row_def GetDeviceSequence_def deviceIdxOf_def)
qed

lemma index_ok_sample: "index_ok (stored_env (sent_wire fl)) send_db [sent_file fl]"
proof -
  have "joinInfo send_db (sample_row 1 1 None [mkCounter 1 1]) = Some ([], [])"
    by (simp add: joinInfo_def send_db_def reuse_db_def sample_db_def sample_row_def)
  moreover have "indirectFI_FileInfo (stored_env (sent_wire fl)) [] [] = Ok (sent_file fl)"
    using sent_back [of fl] by (simp add: indirectFI_FileInfo_def stored_env_def plain_env_def)
  moreover have "rSequence (sample_row 1 1 None [mkCounter 1 1]) = 1" "fSequence (sent_file fl) = 1"
    by (simp_all add: sample_row_def sent_file_def)
  ultimately show ?thesis
    by (simp add: index_ok_def local_rows_sample queryInfos_def List.map_filter_simps)
qed

lemma rest_sample: "rest [sent_file fl] start_handler = [sent_file fl]"
  by (simp add: rest_def start_handler_def sent_file_def)

theorem index_complete_witness:
  "\<exists>s' msgs. Serve (stored_env (sent_wire 0)) (\<lambda>_. 0) (\<lambda>_. None) send_db (replicate 1 send_db) start_handler = Ok (None, s', msgs)
    \<and> concat (map msgFiles msgs) = [sent_file 0] \<and> rest [sent_file 0] s' = []"
proof -
  have "sendable start_handler (rest [sent_file 0] start_handler) = [sent_file 0]"
    unfolding rest_sample by (simp add: sendable_def IsReceiveOnlyChanged_def prepareFileInfoForIndex_def Let_def sent_file_def fi_sample_def fi_blank_def)
  with index_complete [OF send_db_inv index_ok_sample [of 0], of "\<lambda>_. None" start_handler 1 "\<lambda>_. 0"] show ?thesis
    by (simp add: rest_sample)
qed


theorem index_exchange_clean_witness:
  "\<exists>msgs db'. concat (map msgFiles msgs) = [sent_file 0]
    \<and> receiveMsgs (\<lambda>fs db. db_Update plain_env remote_sample fs False db) (DropAllFiles plain_env remote_sample)
        (GetDeviceSequence remote_sample) msgs (openFolderDB emptyDB) = Ok (None, [], db')"
proof -
  have rem: "remote_sample \<noteq> LocalDeviceID"
    by (simp add: remote_sample_def LocalDeviceID_def repeatedDeviceID_def DeviceIDLength_def)
  obtain s1 m1 k where r: "sendIndexTo (stored_env (sent_wire 0)) (\<lambda>_. 0) False (\<lambda>_. None) send_db start_handler = Ok (None, s1, m1)"
      "concat (map msgFiles m1) = sendable start_handler (take k [sent_file 0])" "0 < k"
    using sendIndexTo_round [OF index_ok_local [OF send_db_inv index_ok_sample [of 0]], where conn = "\<lambda>_. None" and s = start_handler]
    unfolding rest_sample by blast
  then have "concat (map msgFiles m1) = [sent_file 0]"
    by (cases k) (simp_all add: sendable_def IsReceiveOnlyChanged_def prepareFileInfoForIndex_def Let_def sent_file_def fi_sample_def fi_blank_def)
  moreover have "Serve (stored_env (sent_wire 0)) (\<lambda>_. 0) (\<lambda>_. None) send_db [] start_handler = Ok (None, s1, m1)"
    using r(1) by (simp add: Serve_def)
  moreover have "handler_ok start_handler" "sentPrevSequence start_handler = 0" by (simp_all add: handler_ok_def start_handler_def)
  moreover have "sink_inv plain_env remote_sample (openFolderDB emptyDB)"
    using plain_env_sort db_inv_open rem by (simp add: sink_inv_def)
  moreover have "remoteSeqs remote_sample (openFolderDB emptyDB) = {}" by (simp add: remoteSeqs_def files_open)
  ultimately show ?thesis using index_exchange_clean [of "stored_env (sent_wire 0)"] by (metis empty_iff less_irrefl)
qed

end
