(* ===== verification/Index_Registry.thy ===== *)
theory Index_Registry
  imports Index_Handler
begin

text \<open>
  Which folders exchange indexes on a connection: \<open>indexHandlerRegistry\<close> of
  \<open>lib/model/indexhandler.go\<close>, and \<open>Index\<close>, \<open>IndexUpdate\<close> and \<open>handleIndex\<close> of \<open>model.go\<close>. A handler
  runs once the peer has announced the folder and the folder runs here; whichever comes first
  is kept. The map of services is a map; the runner of a folder, which only gets a pull
  scheduled, is the list of folders so notified.
\<close>

section \<open>The registry\<close>

record FolderConfiguration =
  cfID :: string
  cfDevices :: "DeviceID list"
  cfPaused :: bool
  cfReceiveEncrypted :: bool

definition SharedWith :: "DeviceID \<Rightarrow> FolderConfiguration \<Rightarrow> bool" where
  "SharedWith d c \<longleftrightarrow> d \<in> set (cfDevices c)"

record indexHandlerRegistry =
  indexHandlers :: "string \<rightharpoonup> indexHandler"
  startInfos :: "string \<rightharpoonup> index_start_info"
  folderStates :: "string \<rightharpoonup> FolderConfiguration"
  rgDBs :: "string \<Rightarrow> folderDB"
  rgPulls :: "string list"

definition newIndexHandlerRegistry :: "(string \<Rightarrow> folderDB) \<Rightarrow> indexHandlerRegistry" where
  "newIndexHandlerRegistry dbs =
     \<lparr>indexHandlers = Map.empty, startInfos = Map.empty, folderStates = Map.empty, rgDBs = dbs, rgPulls = []\<rparr>"

definition RemoveAndWait :: "string \<Rightarrow> indexHandlerRegistry \<Rightarrow> indexHandlerRegistry" where
  "RemoveAndWait f r = r\<lparr>indexHandlers := (indexHandlers r)(f := None)\<rparr>"

definition resume :: "indexHandler \<Rightarrow> indexHandler" where
  "resume h = h\<lparr>ihPaused := False\<rparr>"

definition pause :: "indexHandler \<Rightarrow> indexHandler" where
  "pause h = h\<lparr>ihPaused := True\<rparr>"

text \<open>The error of \<open>newIndexHandler\<close> is returned; the callers drop it.\<close>

definition startLocked ::
  "db_env \<Rightarrow> IndexID \<Rightarrow> DeviceID \<Rightarrow> FolderConfiguration \<Rightarrow> index_start_info \<Rightarrow> indexHandlerRegistry
     \<Rightarrow> (unit, start_err option \<times> indexHandlerRegistry) result" where
  "startLocked env fresh d folder startInfo r =
     (let f = cfID folder;
          r1 = (RemoveAndWait f r)\<lparr>startInfos := (startInfos r)(f := None)\<rparr>;
          (res, db') = newIndexHandler env fresh d f (cfReceiveEncrypted folder) startInfo (rgDBs r1 f);
          r2 = r1\<lparr>rgDBs := (rgDBs r1)(f := db')\<rparr>
      in case res of
           Panic \<Rightarrow> Panic
         | Err e \<Rightarrow> Ok (Some e, r2)
         | Ok is \<Rightarrow> Ok (None, r2\<lparr>indexHandlers := (indexHandlers r2)(f \<mapsto> is), rgPulls := rgPulls r2 @ [f]\<rparr>))"

definition AddIndexInfo ::
  "db_env \<Rightarrow> IndexID \<Rightarrow> DeviceID \<Rightarrow> string \<Rightarrow> index_start_info \<Rightarrow> indexHandlerRegistry \<Rightarrow> (unit, indexHandlerRegistry) result" where
  "AddIndexInfo env fresh d folder startInfo r =
     (let r1 = RemoveAndWait folder r in
      case folderStates r1 folder of
        None \<Rightarrow> Ok (r1\<lparr>startInfos := (startInfos r1)(folder \<mapsto> startInfo)\<rparr>)
      | Some cfg \<Rightarrow> bind_result (startLocked env fresh d cfg startInfo r1) (\<lambda>(err, r2). Ok r2))"

definition Remove :: "string \<Rightarrow> indexHandlerRegistry \<Rightarrow> indexHandlerRegistry" where
  "Remove folder r = (RemoveAndWait folder r)\<lparr>startInfos := (startInfos r)(folder := None)\<rparr>"

definition RemoveAllExcept :: "string set \<Rightarrow> indexHandlerRegistry \<Rightarrow> indexHandlerRegistry" where
  "RemoveAllExcept except r =
     r\<lparr>indexHandlers := indexHandlers r |` except, startInfos := startInfos r |` except\<rparr>"

definition folderPausedLocked :: "string \<Rightarrow> indexHandlerRegistry \<Rightarrow> indexHandlerRegistry" where
  "folderPausedLocked folder r =
     (let r1 = r\<lparr>folderStates := (folderStates r)(folder := None)\<rparr> in
      case indexHandlers r1 folder of
        Some is \<Rightarrow> r1\<lparr>indexHandlers := (indexHandlers r1)(folder \<mapsto> pause is)\<rparr>
      | None \<Rightarrow> r1)"

definition folderRunningLocked ::
  "db_env \<Rightarrow> IndexID \<Rightarrow> DeviceID \<Rightarrow> FolderConfiguration \<Rightarrow> indexHandlerRegistry \<Rightarrow> (unit, indexHandlerRegistry) result" where
  "folderRunningLocked env fresh d folder r =
     (let f = cfID folder;
          r1 = r\<lparr>folderStates := (folderStates r)(f \<mapsto> folder)\<rparr>
      in case startInfos r1 f of
           Some info \<Rightarrow>
             (let r2 = (if indexHandlers r1 f \<noteq> None then RemoveAndWait f r1 else r1) in
              bind_result (startLocked env fresh d folder info r2) (\<lambda>(err, r3).
                Ok (r3\<lparr>startInfos := (startInfos r3)(f := None)\<rparr>)))
         | None \<Rightarrow>
             (case indexHandlers r1 f of
                Some is \<Rightarrow> Ok (r1\<lparr>indexHandlers := (indexHandlers r1)(f \<mapsto> resume is)\<rparr>)
              | None \<Rightarrow> Ok r1))"

definition RegisterFolderState ::
  "db_env \<Rightarrow> IndexID \<Rightarrow> DeviceID \<Rightarrow> FolderConfiguration \<Rightarrow> indexHandlerRegistry \<Rightarrow> (unit, indexHandlerRegistry) result" where
  "RegisterFolderState env fresh d folder r =
     (if \<not> SharedWith d folder then Ok (Remove (cfID folder) r)
      else if cfPaused folder then Ok (folderPausedLocked (cfID folder) r)
      else folderRunningLocked env fresh d folder r)"

datatype receive_err = HandlerError index_err | FolderMissing | FolderIsPaused | FolderNotRunning

definition ReceiveIndex ::
  "db_env \<Rightarrow> DeviceID \<Rightarrow> string \<Rightarrow> FileInfo list \<Rightarrow> bool \<Rightarrow> int \<Rightarrow> int \<Rightarrow> deviceDownloadState option \<times> indexHandlerRegistry
     \<Rightarrow> (unit, receive_err option \<times> deviceDownloadState option \<times> indexHandlerRegistry) result" where
  "ReceiveIndex env d folder fs update prevSequence lastSequence = (\<lambda>(downloads, r).
     case indexHandlers r folder of
       None \<Rightarrow> Ok (Some FolderMissing, downloads, r)
     | Some is \<Rightarrow>
         bind_result (receive env d is fs update prevSequence lastSequence (downloads, rgDBs r folder))
           (\<lambda>(err, as, sched, downloads', db').
              Ok (map_option HandlerError err, downloads',
                  r\<lparr>rgDBs := (rgDBs r)(folder := db'), rgPulls := rgPulls r @ (if sched then [folder] else [])\<rparr>)))"

section \<open>Indexes arriving at the model\<close>

text \<open>The registry is \<open>None\<close> when there is none for this connection of the device.\<close>

definition handleIndex ::
  "db_env \<Rightarrow> (string \<rightharpoonup> FolderConfiguration) \<Rightarrow> DeviceID \<Rightarrow> string \<Rightarrow> FileInfo list \<Rightarrow> bool \<Rightarrow> int \<Rightarrow> int
     \<Rightarrow> deviceDownloadState option \<times> indexHandlerRegistry option
     \<Rightarrow> (unit, receive_err option \<times> deviceDownloadState option \<times> indexHandlerRegistry option) result" where
  "handleIndex env cfg d folder fs update prevSequence lastSequence = (\<lambda>(downloads, reg).
     case cfg folder of
       None \<Rightarrow> Ok (Some FolderMissing, downloads, reg)
     | Some c \<Rightarrow>
         if \<not> SharedWith d c then Ok (Some FolderMissing, downloads, reg)
         else if cfPaused c then Ok (Some FolderIsPaused, downloads, reg)
         else (case reg of
             None \<Rightarrow> Ok (Some FolderNotRunning, downloads, reg)
           | Some r \<Rightarrow>
               bind_result (ReceiveIndex env d folder fs update prevSequence lastSequence (downloads, r))
                 (\<lambda>(err, downloads', r'). Ok (err, downloads', Some r'))))"

definition model_Index ::
  "db_env \<Rightarrow> (string \<rightharpoonup> FolderConfiguration) \<Rightarrow> DeviceID \<Rightarrow> Index \<Rightarrow> deviceDownloadState option \<times> indexHandlerRegistry option
     \<Rightarrow> (unit, receive_err option \<times> deviceDownloadState option \<times> indexHandlerRegistry option) result" where
  "model_Index env cfg d idx = handleIndex env cfg d (ixFolder idx) (ixFiles idx) False 0 (ixLastSequence idx)"

definition model_IndexUpdate ::
  "db_env \<Rightarrow> (string \<rightharpoonup> FolderConfiguration) \<Rightarrow> DeviceID \<Rightarrow> IndexUpdate \<Rightarrow> deviceDownloadState option \<times> indexHandlerRegistry option
     \<Rightarrow> (unit, receive_err option \<times> deviceDownloadState option \<times> indexHandlerRegistry option) result" where
  "model_IndexUpdate env cfg d idxUp =
     handleIndex env cfg d (iuFolder idxUp) (iuFiles idxUp) True (iuPrevSequence idxUp) (iuLastSequence idxUp)"

section \<open>Handlers and folder states\<close>

text \<open>
  A folder has a handler or a pending announcement, not both; a handler is paused exactly
  while the folder is not registered as running, and an announcement is pending only then.
\<close>

definition folder_ok :: "string \<Rightarrow> index_start_info option \<Rightarrow> indexHandler option \<Rightarrow> FolderConfiguration option \<Rightarrow> bool" where
  "folder_ok f si h c \<longleftrightarrow>
     (si \<noteq> None \<longrightarrow> h = None \<and> c = None) \<and> (\<forall>is. h = Some is \<longrightarrow> (ihPaused is \<longleftrightarrow> c = None))
     \<and> (\<forall>x. c = Some x \<longrightarrow> cfID x = f)"

definition registry_inv :: "indexHandlerRegistry \<Rightarrow> bool" where
  "registry_inv r \<longleftrightarrow> (\<forall>f. folder_ok f (startInfos r f) (indexHandlers r f) (folderStates r f))"

lemma registry_invI:
  assumes "registry_inv r" and "folder_ok f (startInfos r' f) (indexHandlers r' f) (folderStates r' f)"
    and "\<And>g. g \<noteq> f \<Longrightarrow> startInfos r' g = startInfos r g \<and> indexHandlers r' g = indexHandlers r g \<and> folderStates r' g = folderStates r g"
  shows "registry_inv r'"
  unfolding registry_inv_def
proof
  fix g show "folder_ok g (startInfos r' g) (indexHandlers r' g) (folderStates r' g)"
    using assms(1,2) assms(3) [of g] by (cases "g = f") (auto simp: registry_inv_def)
qed

lemma registry_invD: "registry_inv r \<Longrightarrow> folder_ok f (startInfos r f) (indexHandlers r f) (folderStates r f)"
  by (simp add: registry_inv_def)

lemma newIndexHandler_running:
  "fst (newIndexHandler env fresh d f e si db) = Ok h \<Longrightarrow> \<not> ihPaused h"
  by (auto simp: newIndexHandler_def Let_def split: result.splits prod.splits if_splits)

lemma startLocked_frame:
  assumes "startLocked env fresh d cfg si r = Ok (err, r')"
  shows "startInfos r' = (startInfos r)(cfID cfg := None)" "folderStates r' = folderStates r"
    "\<forall>f. f \<noteq> cfID cfg \<longrightarrow> indexHandlers r' f = indexHandlers r f"
    "\<forall>h. indexHandlers r' (cfID cfg) = Some h \<longrightarrow> \<not> ihPaused h"
  using assms newIndexHandler_running [of env fresh d "cfID cfg" "cfReceiveEncrypted cfg" si "rgDBs r (cfID cfg)"]
  by (auto simp: startLocked_def RemoveAndWait_def Let_def split: result.splits prod.splits)

inductive registry_reachable :: "db_env \<Rightarrow> DeviceID \<Rightarrow> indexHandlerRegistry \<Rightarrow> bool" for env d where
  rr_new: "registry_reachable env d (newIndexHandlerRegistry dbs)"
| rr_add: "registry_reachable env d r \<Longrightarrow> AddIndexInfo env fresh d f si r = Ok r' \<Longrightarrow> registry_reachable env d r'"
| rr_register: "registry_reachable env d r \<Longrightarrow> RegisterFolderState env fresh d c r = Ok r' \<Longrightarrow> registry_reachable env d r'"
| rr_remove: "registry_reachable env d r \<Longrightarrow> registry_reachable env d (Remove f r)"
| rr_except: "registry_reachable env d r \<Longrightarrow> registry_reachable env d (RemoveAllExcept fs r)"
| rr_receive: "registry_reachable env d r \<Longrightarrow> ReceiveIndex env d f is u p q (dl, r) = Ok (err, dl', r')
    \<Longrightarrow> registry_reachable env d r'"

lemma AddIndexInfo_inv:
  assumes "registry_inv r" and "AddIndexInfo env fresh d f si r = Ok r'"
  shows "registry_inv r'"
proof (cases "folderStates r f")
  case None
  then show ?thesis using assms(2) registry_invD [OF assms(1), of f]
    by (intro registry_invI [OF assms(1), of f]) (auto simp: AddIndexInfo_def RemoveAndWait_def folder_ok_def)
next
  case (Some cfg)
  then have id: "cfID cfg = f" using registry_invD [OF assms(1), of f] by (simp add: folder_ok_def)
  obtain err where "startLocked env fresh d cfg si (RemoveAndWait f r) = Ok (err, r')"
    using assms(2) Some by (auto simp: AddIndexInfo_def RemoveAndWait_def bind_result_Ok)
  note s = startLocked_frame [OF this, unfolded id]
  show ?thesis
    by (rule registry_invI [OF assms(1), of f]) (use s Some id in \<open>auto simp: RemoveAndWait_def folder_ok_def\<close>)
qed

lemma folderRunning_inv:
  assumes "registry_inv r" and "folderRunningLocked env fresh d c r = Ok r'"
  shows "registry_inv r'"
proof -
  let ?f = "cfID c" and ?r1 = "r\<lparr>folderStates := (folderStates r)(cfID c \<mapsto> c)\<rparr>"
  show ?thesis
  proof (cases "startInfos r ?f")
    case None
    then have r': "r' = ?r1\<lparr>indexHandlers := (indexHandlers r)(?f := map_option resume (indexHandlers r ?f))\<rparr>"
      using assms(2) by (cases "indexHandlers r ?f") (auto simp: folderRunningLocked_def Let_def fun_upd_idem)
    have "folder_ok ?f None (map_option resume (indexHandlers r ?f)) (Some c)" by (auto simp: folder_ok_def resume_def)
    then show ?thesis by (intro registry_invI [OF assms(1), of ?f]) (simp_all add: r' None)
  next
    case (Some si)
    obtain err r3 where 3: "startLocked env fresh d c si (if indexHandlers ?r1 ?f \<noteq> None then RemoveAndWait ?f ?r1 else ?r1) = Ok (err, r3)"
        "r' = r3\<lparr>startInfos := (startInfos r3)(?f := None)\<rparr>"
      using assms(2) Some by (auto simp: folderRunningLocked_def Let_def bind_result_Ok)
    note s = startLocked_frame [OF 3(1)]
    show ?thesis
      by (rule registry_invI [OF assms(1), of ?f]) (use s 3(2) in \<open>auto simp: RemoveAndWait_def folder_ok_def\<close>)
  qed
qed

lemma Remove_inv: "registry_inv r \<Longrightarrow> registry_inv (Remove f r)"
  using registry_invD [of r f]
  by (rule_tac registry_invI [of r f]) (auto simp: Remove_def RemoveAndWait_def folder_ok_def)

lemma folderPaused_inv:
  assumes "registry_inv r"
  shows "registry_inv (folderPausedLocked f r)"
proof -
  have r': "folderPausedLocked f r = r\<lparr>folderStates := (folderStates r)(f := None),
      indexHandlers := (indexHandlers r)(f := map_option pause (indexHandlers r f))\<rparr>"
    by (cases "indexHandlers r f") (auto simp: folderPausedLocked_def Let_def fun_upd_idem)
  have "folder_ok f (startInfos r f) (map_option pause (indexHandlers r f)) None"
    using registry_invD [OF assms, of f] by (auto simp: folder_ok_def pause_def)
  then show ?thesis by (intro registry_invI [OF assms, of f]) (simp_all add: r')
qed

lemma RegisterFolderState_inv:
  assumes "registry_inv r" and "RegisterFolderState env fresh d c r = Ok r'"
  shows "registry_inv r'"
  using assms folderRunning_inv folderPaused_inv Remove_inv by (auto simp: RegisterFolderState_def split: if_splits)

lemma ReceiveIndex_frame:
  assumes "ReceiveIndex env d f fs u p q (dl, r) = Ok (err, dl', r')"
  shows "startInfos r' = startInfos r" "indexHandlers r' = indexHandlers r" "folderStates r' = folderStates r"
    "\<forall>g. g \<noteq> f \<longrightarrow> rgDBs r' g = rgDBs r g" "err \<noteq> None \<and> indexHandlers r f = None \<longrightarrow> r' = r"
  using assms by (auto simp: ReceiveIndex_def bind_result_Ok split: option.splits)

lemma registry_inv_reachable: "registry_reachable env d r \<Longrightarrow> registry_inv r"
proof (induction rule: registry_reachable.induct)
  case (rr_new dbs)
  then show ?case by (simp add: registry_inv_def newIndexHandlerRegistry_def folder_ok_def)
next
  case (rr_except r fs)
  then show ?case by (auto simp: registry_inv_def RemoveAllExcept_def folder_ok_def restrict_map_def)
next
  case (rr_receive r f fs u p q dl err dl' r')
  then show ?case using ReceiveIndex_frame [OF rr_receive.hyps(2)] by (simp add: registry_inv_def)
qed (auto intro: AddIndexInfo_inv RegisterFolderState_inv Remove_inv)


text \<open>What a peer sends touches only a folder that is shared with it, not paused, and has a running handler.\<close>

lemma handleIndex_guarded:
  assumes "handleIndex env cfg d f fs u p q (dl, Some r) = Ok (err, dl', Some r')"
  shows "(\<exists>c h. cfg f = Some c \<and> SharedWith d c \<and> \<not> cfPaused c \<and> indexHandlers r f = Some h \<and> \<not> ihPaused h
      \<and> (\<forall>g. g \<noteq> f \<longrightarrow> rgDBs r' g = rgDBs r g))
    \<or> err \<noteq> None \<and> dl' = dl \<and> rgDBs r' = rgDBs r"
proof (cases "indexHandlers r f")
  case None
  then show ?thesis using assms by (auto simp: handleIndex_def ReceiveIndex_def split: option.splits if_splits)
next
  case (Some h)
  then show ?thesis using assms
    by (cases "ihPaused h")
      (auto simp: handleIndex_def ReceiveIndex_def receive_def receiveWith_def bind_result_Ok split: option.splits if_splits)
qed

lemma register_running_state:
  assumes "RegisterFolderState env fresh d c r = Ok r'" and "SharedWith d c" and "\<not> cfPaused c"
  shows "folderStates r' (cfID c) = Some c"
proof (cases "startInfos r (cfID c)")
  case None
  then show ?thesis using assms
    by (auto simp: RegisterFolderState_def folderRunningLocked_def Let_def split: option.splits)
next
  case (Some si)
  then obtain err r3 where "startLocked env fresh d c si
      (if indexHandlers r (cfID c) \<noteq> None then RemoveAndWait (cfID c) (r\<lparr>folderStates := (folderStates r)(cfID c \<mapsto> c)\<rparr>)
       else r\<lparr>folderStates := (folderStates r)(cfID c \<mapsto> c)\<rparr>) = Ok (err, r3)" "folderStates r' = folderStates r3"
    using assms by (auto simp: RegisterFolderState_def folderRunningLocked_def Let_def bind_result_Ok)
  with startLocked_frame(2) [OF this(1)] show ?thesis by (auto simp: RemoveAndWait_def split: if_splits)
qed

text \<open>
  Claim C24. A folder that runs and is then no longer shared with the device loses its handler,
  but the registry keeps it as running: when the device announces the folder again on the same
  connection, as a folder that is not shared with it, the handler is started again with the
  old configuration and sends the device the index of the folder.
\<close>

theorem unshared_index_started:
  assumes "RegisterFolderState env fresh d c r = Ok r1" and "SharedWith d c" and "\<not> cfPaused c"
    and "RegisterFolderState env fresh d c' r1 = Ok r2" and "cfID c' = cfID c" and "\<not> SharedWith d c'"
    and h: "fst (newIndexHandler env fresh d (cfID c) (cfReceiveEncrypted c) si (rgDBs r1 (cfID c))) = Ok h"
  shows "indexHandlers r2 (cfID c) = None
    \<and> (\<exists>r3. AddIndexInfo env fresh d (cfID c) si (Remove (cfID c) r2) = Ok r3 \<and> indexHandlers r3 (cfID c) = Some h \<and> \<not> ihPaused h)"
proof -
  have st: "folderStates r1 (cfID c) = Some c" by (rule register_running_state [OF assms(1-3)])
  have r2: "r2 = Remove (cfID c) r1" using assms(4-6) by (simp add: RegisterFolderState_def)
  obtain db' where "newIndexHandler env fresh d (cfID c) (cfReceiveEncrypted c) si (rgDBs r1 (cfID c)) = (Ok h, db')"
    using h by (cases "newIndexHandler env fresh d (cfID c) (cfReceiveEncrypted c) si (rgDBs r1 (cfID c))") auto
  with st newIndexHandler_running [OF h] show ?thesis
    unfolding r2 by (simp add: AddIndexInfo_def Remove_def RemoveAndWait_def startLocked_def Let_def)
qed

definition shared_cfg :: FolderConfiguration where
  "shared_cfg = \<lparr>cfID = ''f'', cfDevices = [remote_sample], cfPaused = False, cfReceiveEncrypted = False\<rparr>"

definition start_sample :: index_start_info where
  "start_sample = \<lparr>siLocalIndexID = 0, siLocalMaxSequence = 0, siRemoteIndexID = 0\<rparr>"

lemma sample_registered:
  "RegisterFolderState plain_env 5 remote_sample shared_cfg (newIndexHandlerRegistry (\<lambda>_. openFolderDB emptyDB))
    = Ok ((newIndexHandlerRegistry (\<lambda>_. openFolderDB emptyDB))\<lparr>folderStates := [''f'' \<mapsto> shared_cfg]\<rparr>)"
  by (simp add: RegisterFolderState_def SharedWith_def shared_cfg_def folderRunningLocked_def newIndexHandlerRegistry_def Let_def)


theorem unshared_index_started_witness:
  "\<exists>r3 h. AddIndexInfo plain_env 5 remote_sample ''f'' start_sample
      (Remove ''f'' (Remove ''f'' ((newIndexHandlerRegistry (\<lambda>_. openFolderDB emptyDB))\<lparr>folderStates := [''f'' \<mapsto> shared_cfg]\<rparr>))) = Ok r3
    \<and> indexHandlers r3 ''f'' = Some h"
proof -
  let ?r1 = "(newIndexHandlerRegistry (\<lambda>_. openFolderDB emptyDB))\<lparr>folderStates := [''f'' \<mapsto> shared_cfg]\<rparr>"
  let ?c' = "shared_cfg\<lparr>cfDevices := []\<rparr>"
  have un: "RegisterFolderState plain_env 5 remote_sample ?c' ?r1 = Ok (Remove ''f'' ?r1)"
    by (simp add: RegisterFolderState_def SharedWith_def shared_cfg_def)
  have "\<exists>h. fst (newIndexHandler plain_env 5 remote_sample ''f'' False start_sample (openFolderDB emptyDB)) = Ok h"
    by (simp add: newIndexHandler_def GetIndexID_def openFolderDB_def emptyDB_def deviceIdxLocked_def deviceIdxOf_def Let_def
        start_sample_def DropAllFiles_def)
  then show ?thesis
    using unshared_index_started [OF sample_registered _ _ un, of start_sample]
    by (auto simp: shared_cfg_def SharedWith_def newIndexHandlerRegistry_def)
qed

end
