(* ===== verification/File_Content.thy ===== *)
theory File_Content
  imports Pull_Pipeline
begin

text \<open>
  What is in the temporary file. The calls that the puller made of the file system
  (\<open>lib/model/sharedpullerstate.go\<close>, \<open>folder_sendrecv.go\<close>) are played back on the content that the
  temporary file had before; a file reported as finished has the content its blocks
  describe. Hash collisions are excluded by hypothesis, for the blocks of the file.
\<close>

section \<open>Playing back calls\<close>

fun applyCall :: "fs_call \<Rightarrow> byte list \<Rightarrow> byte list" where
  "applyCall (FdWriteAt buf off) C = take (nat off) (C @ replicate (nat off - length C) 0) @ buf @ drop (nat off + length buf) C"
| "applyCall (FdTruncate n) C = take (nat n) (C @ replicate (nat n - length C) 0)"
| "applyCall (FsOpen name create mode) C = (if create then [] else C)"
| "applyCall c C = C"

definition perform :: "pull_env \<Rightarrow> fs_call list \<Rightarrow> fs_call \<Rightarrow> byte list \<Rightarrow> byte list" where
  "perform env log c C = (if fsErr env log c = None then applyCall c C else C)"

fun playFrom :: "pull_env \<Rightarrow> fs_call list \<Rightarrow> byte list \<Rightarrow> fs_call list \<Rightarrow> byte list" where
  "playFrom env log C [] = C"
| "playFrom env log C (c # cs) = playFrom env (log @ [c]) (perform env log c C) cs"

text \<open>The content after the calls made since the first \<open>n\<close>.\<close>

definition contentOf :: "pull_env \<Rightarrow> nat \<Rightarrow> byte list \<Rightarrow> sharedPullerState \<Rightarrow> byte list" where
  "contentOf env n C0 s = playFrom env (take n (fsLog s)) C0 (drop n (fsLog s))"

lemma playFrom_snoc: "playFrom env log C (cs @ [c]) = perform env (log @ cs) c (playFrom env log C cs)"
  by (induction cs arbitrary: log C) simp_all

lemma contentOf_call:
  assumes "fsCall env c s = (e, s')" and "n \<le> length (fsLog s)"
  shows "contentOf env n C0 s' = (if e = None then applyCall c (contentOf env n C0 s) else contentOf env n C0 s)"
    "n \<le> length (fsLog s')" "e = fsErr env (fsLog s) c"
  using assms by (auto simp: contentOf_def fsCall_def playFrom_snoc perform_def)

lemma contentOf_frame: "fsLog s' = fsLog s \<Longrightarrow> contentOf env n C0 s' = contentOf env n C0 s"
  by (simp add: contentOf_def)

definition at :: "byte list \<Rightarrow> nat \<Rightarrow> byte option" where
  "at C p = (if p < length C then Some (C ! p) else None)"

lemma at_write:
  "at (applyCall (FdWriteAt buf off) C) p =
     (if nat off \<le> p \<and> p < nat off + length buf then Some (buf ! (p - nat off))
      else if p < length C then Some (C ! p) else if p < nat off then Some 0 else None)"
proof -
  have l: "length (take (nat off) (C @ replicate (nat off - length C) 0)) = nat off" by simp
  consider "p < nat off" | "nat off \<le> p" "p < nat off + length buf" | "nat off + length buf \<le> p" by linarith
  then show ?thesis
  proof cases
    case 1
    then show ?thesis using l by (auto simp: at_def nth_append)
  next
    case 2
    then show ?thesis using l by (auto simp: at_def nth_append)
  next
    case 3
    then have "(length (applyCall (FdWriteAt buf off) C) > p) = (p < length C)" using l by (auto simp: min_def)
    moreover have "\<not> p - nat off < length buf" using 3 by linarith
    ultimately show ?thesis using 3 l by (simp add: at_def nth_append)
  qed
qed

section \<open>Opening the temporary file\<close>

text \<open>The content that opening gives: empty or the old one, sized when holes are allowed.\<close>

definition opened :: "nat \<Rightarrow> bool \<Rightarrow> nat \<Rightarrow> byte list \<Rightarrow> byte list" where
  "opened reusd spars sz C =
     (let C1 = (if reusd = 0 then [] else C)
      in if spars then applyCall (FdTruncate (int sz)) C1 else C1)"

definition truncates :: "pull_env \<Rightarrow> bool" where
  "truncates env \<longleftrightarrow> (\<forall>log n. fsErr env log (FdTruncate n) = None)"

text \<open>A plain file of the given sz, not encrypted.\<close>

definition plain_file :: "nat \<Rightarrow> FileInfo \<Rightarrow> bool" where
  "plain_file sz f \<longleftrightarrow> fSize f = int sz \<and> fEncrypted f = [] \<and> \<not> IsSymlink f"

lemma truncateTemp_content:
  assumes "truncateTemp env s = Ok (e, s')" and "truncates env" and "plain_file sz (sFile s)" and "n \<le> length (fsLog s)"
  shows "e = None \<and> n \<le> length (fsLog s') \<and> contentOf env n C0 s' =
    (if sparse s then applyCall (FdTruncate (int sz)) (contentOf env n C0 s) else contentOf env n C0 s)"
proof (cases "sparse s")
  case True
  obtain te s1 where t: "fsCall env (FdTruncate (int sz)) s = (te, s1)" by fastforce
  have "te = None" using contentOf_call(3) [OF t assms(4)] assms(2) by (simp add: truncates_def)
  then have "e = None" "s' = s1" using assms(1,3) True t by (auto simp: truncateTemp_def plain_file_def)
  then show ?thesis using contentOf_call [OF t assms(4)] \<open>te = None\<close> True by simp
next
  case False
  then show ?thesis using assms(1,4) by (auto simp: truncateTemp_def)
qed

lemma tempFileInWritableDir_content:
  assumes "tempFileInWritableDir env s = Ok (e, s')" and "truncates env" and "plain_file sz (sFile s)" and "n \<le> length (fsLog s)"
  shows "n \<le> length (fsLog s') \<and> contentOf env n C0 s' =
    (if e = None then opened (reused s) (sparse s) sz (contentOf env n C0 s) else contentOf env n C0 s)
    \<and> (e \<noteq> None \<longrightarrow> writer s' = writer s)"
proof -
  define mode where "mode = (if ignorePerms s then 438 else fPermissions (sFile s) OR 384)"
  obtain ce s1 where 1: "(if reused s \<noteq> 0 \<and> \<not> ignorePerms s then fsCall env (FsChmod (tempName s) mode) s else (None, s)) = (ce, s1)"
    by fastforce
  have k1: "contentOf env n C0 s1 = contentOf env n C0 s" "n \<le> length (fsLog s1)" "reused s1 = reused s" "sparse s1 = sparse s" "sFile s1 = sFile s"
      "writer s1 = writer s"
  proof -
    have "s1 = s \<or> fsCall env (FsChmod (tempName s) mode) s = (ce, s1)" using 1 by (auto split: if_splits)
    then show "contentOf env n C0 s1 = contentOf env n C0 s" "n \<le> length (fsLog s1)" "reused s1 = reused s" "sparse s1 = sparse s"
      "sFile s1 = sFile s" "writer s1 = writer s"
      using contentOf_call(1,2) [of env "FsChmod (tempName s) mode" s ce s1] assms(4) by (auto simp: fsCall_def)
  qed
  note r = assms(1) [unfolded tempFileInWritableDir_def Let_def, folded mode_def, unfolded 1 prod.case]
  show ?thesis
  proof (cases ce)
    case (Some x)
    then have "e \<noteq> None" "s' = s1" using r by auto
    then show ?thesis using k1 by auto
  next
    case None
    obtain oe s2 where 2: "fsCall env (FsOpen (tempName s) (reused s = 0) mode) s1 = (oe, s2)" by fastforce
    note k2 = contentOf_call [OF 2 k1(2)]
    have f2: "reused s2 = reused s" "sparse s2 = sparse s" "sFile s2 = sFile s" "writer s2 = writer s" using 2 k1 by (auto simp: fsCall_def)
    show ?thesis
    proof (cases oe)
      case (Some x)
      then have "e \<noteq> None" "s' = s2" using r 2 None by auto
      then show ?thesis using k1 k2 f2 Some by auto
    next
      case oe: None
      obtain he s3 where 3: "fsCall env (FsHide (tempName s)) s2 = (he, s3)" by fastforce
      note k3 = contentOf_call [OF 3 k2(2)]
      have f3: "sparse s3 = sparse s" "sFile s3 = sFile s" using 3 f2 by (auto simp: fsCall_def)
      obtain te s4 where 4: "truncateTemp env s3 = Ok (te, s4)" "(case te of Some x \<Rightarrow> Ok (Some x, s4) | None \<Rightarrow> Ok (None, s4\<lparr>writer := True\<rparr>)) = (Ok (e, s') :: (unit, perr option \<times> sharedPullerState) result)"
        using r 2 3 None oe by (auto simp: bind_result_Ok)
      have k4: "te = None \<and> n \<le> length (fsLog s4) \<and> contentOf env n C0 s4 =
          (if sparse s3 then applyCall (FdTruncate (int sz)) (contentOf env n C0 s3) else contentOf env n C0 s3)"
        using truncateTemp_content [OF 4(1) assms(2) _ k3(2)] assms(3) f3 by simp
      then have "e = None" "s' = s4\<lparr>writer := True\<rparr>" using 4(2) by auto
      moreover have "contentOf env n C0 s3 = (if reused s = 0 then [] else contentOf env n C0 s)"
        using k3 k2 k1 oe by simp
      ultimately show ?thesis using k4 f3 contentOf_frame [of "s4\<lparr>writer := True\<rparr>" s4] by (simp add: opened_def Let_def)
    qed
  qed
qed

lemma addWriterLocked_content:
  assumes "addWriterLocked env s = Ok (e, s')" and "truncates env" and "plain_file sz (sFile s)" and "n \<le> length (fsLog s)"
  shows "n \<le> length (fsLog s') \<and> contentOf env n C0 s' =
    (if e = None then opened (reused s) (sparse s) sz (contentOf env n C0 s) else contentOf env n C0 s)
    \<and> (e \<noteq> None \<longrightarrow> writer s' = writer s)"
proof -
  define dir where "dir = path_Dir (tempName s)"
  obtain se s1 where 1: "fsCall env (FsStat dir) s = (se, s1)" by fastforce
  obtain isDir md where st: "statMode env (fsLog s) dir = (isDir, md)" by fastforce
  define mode where "mode = md AND permBits"
  note r = assms(1) [unfolded addWriterLocked_def inWritableDir_def Let_def, folded dir_def, unfolded 1 st prod.case, folded mode_def]
  have k1: "contentOf env n C0 s1 = contentOf env n C0 s" "n \<le> length (fsLog s1)" using contentOf_call [OF 1 assms(4)] by auto
  have f1: "reused s1 = reused s" "sparse s1 = sparse s" "sFile s1 = sFile s" "tempName s1 = tempName s" "writer s1 = writer s" using 1 by (auto simp: fsCall_def)
  show ?thesis
  proof (cases "se = None \<and> isDir")
    case False
    then have "e \<noteq> None" "s' = s1"
      using r by (auto split: option.splits)
    then show ?thesis using k1 f1 by auto
  next
    case True
    show ?thesis
    proof (cases "mode AND 128 = 0")
      case False
      then have "tempFileInWritableDir env s1 = Ok (e, s')"
        using r True by simp
      from tempFileInWritableDir_content [OF this assms(2) _ k1(2)] show ?thesis using assms(3) f1 k1 by simp
    next
      case ro: True
      obtain pe s2 where 2: "fsCall env (FsChmod dir (mode OR 448)) s1 = (pe, s2)" by fastforce
      have k2: "contentOf env n C0 s2 = contentOf env n C0 s" "n \<le> length (fsLog s2)" using contentOf_call [OF 2 k1(2)] k1 by auto
      have f2: "reused s2 = reused s" "sparse s2 = sparse s" "sFile s2 = sFile s" "writer s2 = writer s" using 2 f1 by (auto simp: fsCall_def)
      obtain fe s3 where 3: "tempFileInWritableDir env s2 = Ok (fe, s3)"
        and r': "(case pe of Some p \<Rightarrow> Ok (case fe of Some e \<Rightarrow> if isPermission env e then Some (AfterParent e) else Some e | None \<Rightarrow> None, s3)
          | None \<Rightarrow> (case fsCall env (FsChmod dir mode) s3 of (_, s4) \<Rightarrow> Ok (fe, s4))) = (Ok (e, s') :: (unit, perr option \<times> sharedPullerState) result)"
        using r True ro 2 by (auto simp: bind_result_Ok Let_def)
      have k3: "n \<le> length (fsLog s3)" "contentOf env n C0 s3 =
          (if fe = None then opened (reused s) (sparse s) sz (contentOf env n C0 s) else contentOf env n C0 s)"
          "fe \<noteq> None \<longrightarrow> writer s3 = writer s"
        using tempFileInWritableDir_content [OF 3 assms(2) _ k2(2)] assms(3) f2 k2 by auto
      show ?thesis
      proof (cases pe)
        case None
        obtain xe s4 where 4: "fsCall env (FsChmod dir mode) s3 = (xe, s4)" by fastforce
        then have "e = fe" "s' = s4" using r' None by auto
        then show ?thesis using contentOf_call [OF 4 k3(1)] k3 4 by (auto simp: fsCall_def)
      next
        case (Some p)
        then have "s' = s3" "e = None \<longleftrightarrow> fe = None" using r' Some by (auto split: option.splits if_splits)
        then show ?thesis using k3 by simp
      qed
    qed
  qed
qed

section \<open>Verified writes\<close>

text \<open>A block lies in the data, and data of its size with its hash is the data at its place.\<close>

definition region :: "BlockInfo \<Rightarrow> nat set" where
  "region b = {nat (bOffset b) ..< nat (bOffset b) + nat (bSize b)}"

definition blockData :: "byte list \<Rightarrow> BlockInfo \<Rightarrow> byte list" where
  "blockData data b = take (nat (bSize b)) (drop (nat (bOffset b)) data)"

definition identifies :: "(byte list \<Rightarrow> byte list) \<Rightarrow> byte list \<Rightarrow> BlockInfo \<Rightarrow> bool" where
  "identifies sha data b \<longleftrightarrow> 0 \<le> bOffset b \<and> 0 \<le> bSize b \<and> nat (bOffset b) + nat (bSize b) \<le> length data
     \<and> (\<forall>buf. int (length buf) = bSize b \<and> sha buf = bHash b \<longrightarrow> buf = blockData data b)"

lemma blockData_nth:
  assumes "identifies sha data b" and "p \<in> region b"
  shows "blockData data b ! (p - nat (bOffset b)) = data ! p"
proof -
  have "p - nat (bOffset b) < nat (bSize b)" "nat (bOffset b) \<le> p" using assms(2) by (auto simp: region_def)
  then show ?thesis using assms(1) by (simp add: blockData_def identifies_def)
qed

text \<open>
  Every position holds the data, or, outside \<open>D\<close>, what it held at first, where nothing
  counts as a hole.
\<close>

definition pos_ok :: "byte list \<Rightarrow> byte list \<Rightarrow> nat set \<Rightarrow> byte list \<Rightarrow> bool" where
  "pos_ok data ini D V \<longleftrightarrow> length V \<le> length data \<and>
     (\<forall>p<length data. at V p = Some (data ! p) \<or> (p \<notin> D \<and> (at V p = at ini p \<or> at ini p = None \<and> at V p = Some 0)))"

lemma pos_ok_mono: "pos_ok data ini D V \<Longrightarrow> D' \<subseteq> D \<Longrightarrow> pos_ok data ini D' V"
  unfolding pos_ok_def by blast

lemma pos_ok_all:
  assumes "pos_ok data ini D V" and "\<forall>p<length data. p \<in> D"
  shows "V = data"
proof -
  have a: "at V p = Some (data ! p)" if "p < length data" for p using assms that by (auto simp: pos_ok_def)
  then have l: "p < length V \<and> V ! p = data ! p" if "p < length data" for p
    using a [OF that] by (auto simp: at_def split: if_splits)
  then have "length data \<le> length V" by (metis not_le order_less_irrefl)
  then have "length V = length data" using assms(1) by (simp add: pos_ok_def)
  then show ?thesis using l by (intro nth_equalityI) auto
qed

lemma pos_ok_write:
  assumes ok: "pos_ok data ini D V" and b: "identifies sha data b" and v: "verifyBuffer sha buf b = None"
  shows "pos_ok data ini (D \<union> region b) (applyCall (FdWriteAt buf (bOffset b)) V)"
proof -
  have len: "int (length buf) = bSize b" "sha buf = bHash b" using v by (auto simp: verifyBuffer_None)
  then have buf: "buf = blockData data b" using b by (simp add: identifies_def)
  have fit: "nat (bOffset b) + length buf \<le> length data" using b len by (auto simp: identifies_def)
  have hit: "at (applyCall (FdWriteAt buf (bOffset b)) V) p = Some (data ! p)" if "p \<in> region b" for p
  proof -
    have "nat (bOffset b) \<le> p" "p < nat (bOffset b) + length buf" using that len by (auto simp: region_def)
    moreover have "buf ! (p - nat (bOffset b)) = data ! p"
      using blockData_nth [OF b that] by (simp add: buf)
    ultimately show ?thesis unfolding at_write by simp
  qed
  have miss: "at (applyCall (FdWriteAt buf (bOffset b)) V) p = at V p
      \<or> at V p = None \<and> at (applyCall (FdWriteAt buf (bOffset b)) V) p = Some 0" if "p \<notin> region b" for p
    unfolding at_write using that len by (auto simp: at_def region_def)
  have "length (applyCall (FdWriteAt buf (bOffset b)) V) \<le> length data" using ok fit by (auto simp: pos_ok_def)
  moreover have "at (applyCall (FdWriteAt buf (bOffset b)) V) p = Some (data ! p)
      \<or> (p \<notin> D \<union> region b \<and> (at (applyCall (FdWriteAt buf (bOffset b)) V) p = at ini p
          \<or> at ini p = None \<and> at (applyCall (FdWriteAt buf (bOffset b)) V) p = Some 0))" if "p < length data" for p
  proof (cases "p \<in> region b")
    case False
    then show ?thesis using miss [OF False] ok that by (auto simp: pos_ok_def)
  qed (use hit in blast)
  ultimately show ?thesis unfolding pos_ok_def by blast
qed

text \<open>A block of zeros needs no write where the file has a hole.\<close>

definition zeros_known :: "(byte list \<Rightarrow> byte list) \<Rightarrow> bool" where
  "zeros_known sha \<longleftrightarrow> (\<forall>b. BlockInfo_IsEmpty b \<longrightarrow> sha (replicate (nat (bSize b)) 0) = bHash b)"

lemma pos_ok_sparse:
  assumes ok: "pos_ok data (replicate (length data) 0) D V" and b: "identifies sha data b" and z: "zeros_known sha" "BlockInfo_IsEmpty b"
  shows "pos_ok data (replicate (length data) 0) (D \<union> region b) V"
proof -
  have "sha (replicate (nat (bSize b)) 0) = bHash b" using z by (simp add: zeros_known_def)
  moreover have "int (length (replicate (nat (bSize b)) (0 :: byte))) = bSize b" using b by (simp add: identifies_def)
  ultimately have sl: "blockData data b = replicate (nat (bSize b)) 0" using b unfolding identifies_def by metis
  have "data ! p = 0" if "p \<in> region b" for p
  proof -
    have "blockData data b ! (p - nat (bOffset b)) = data ! p" by (rule blockData_nth [OF b that])
    moreover have "blockData data b ! (p - nat (bOffset b)) = 0" using that unfolding sl by (auto simp: region_def)
    ultimately show ?thesis by simp
  qed
  moreover have "at (replicate (length data) 0) p = Some 0" if "p < length data" for p using that by (simp add: at_def)
  ultimately show ?thesis using ok unfolding pos_ok_def by (metis Un_iff)
qed

section \<open>The content while a file is fetched\<close>

text \<open>Blocks whose data is not yet in the file.\<close>

fun copier_todo :: "copier_pc \<Rightarrow> BlockInfo set" where
  "copier_todo (AtLoop bs) = set bs"
| "copier_todo (Writing b bs) = insert b (set bs)"
| "copier_todo (CopyOk b bs) = set bs"
| "copier_todo (CopyFailed b bs) = insert b (set bs)"
| "copier_todo (StartPull b bs) = insert b (set bs)"
| "copier_todo (SendPull b bs) = insert b (set bs)"
| "copier_todo _ = {}"

fun puller_todo :: "pull_pc \<Rightarrow> BlockInfo set" where
  "puller_todo (PullQueued b) = {b}"
| "puller_todo (PullRequest b) = {b}"
| "puller_todo _ = {}"

definition todo :: "pull_sys \<Rightarrow> BlockInfo set" where
  "todo x = copier_todo (copier x) \<union> \<Union> (puller_todo ` set (pulls x))"

definition covered :: "BlockInfo set \<Rightarrow> nat set" where
  "covered T = - \<Union> (region ` T)"

definition writing :: "pull_sys \<Rightarrow> bool" where
  "writing x \<longleftrightarrow> (\<exists>b bs. copier x = Writing b bs) \<or> (\<exists>b. PullRequest b \<in> set (pulls x))"

text \<open>The content as it is, or as it will be once the file is opened.\<close>

definition virtual :: "pull_env \<Rightarrow> nat \<Rightarrow> byte list \<Rightarrow> nat \<Rightarrow> sharedPullerState \<Rightarrow> byte list" where
  "virtual env n C0 sz s =
     (if writer s then contentOf env n C0 s else opened (reused s) (sparse s) sz (contentOf env n C0 s))"

text \<open>What stays fixed while a file is fetched.\<close>

definition fetch_frame :: "nat \<Rightarrow> nat \<Rightarrow> nat \<Rightarrow> bool \<Rightarrow> sharedPullerState \<Rightarrow> bool" where
  "fetch_frame n sz r sp s \<longleftrightarrow> n \<le> length (fsLog s) \<and> plain_file sz (sFile s) \<and> reused s = r \<and> sparse s = sp"

lemma virtual_frame:
  "fsLog s' = fsLog s \<Longrightarrow> writer s' = writer s \<Longrightarrow> reused s' = reused s \<Longrightarrow> sparse s' = sparse s \<Longrightarrow>
     virtual env n C0 sz s' = virtual env n C0 sz s"
  by (simp add: virtual_def contentOf_def)

lemma virtual_tempFile:
  assumes "tempFile env s = Ok (None, s')" and "truncates env" and "fetch_frame n sz r sp s"
  shows "virtual env n C0 sz s' = virtual env n C0 sz s \<and> fetch_frame n sz r sp s' \<and> writer s' \<and> sErr s = None \<and> closed s' = closed s"
proof -
  have e: "sErr s = None" using assms(1) by (auto simp: tempFile_def split: option.splits)
  show ?thesis
  proof (cases "writer s")
    case True
    then show ?thesis using assms e by (simp add: tempFile_def)
  next
    case False
    then have a: "addWriterLocked env s = Ok (None, s')" using assms(1) e by (auto simp: tempFile_def bind_result_Ok split: option.splits)
    have q: "log_only s s'" "writer s'" using addWriterLocked_quiet [OF a] by (auto simp: quiet_def)
    have "n \<le> length (fsLog s')" "contentOf env n C0 s' = opened (reused s) (sparse s) sz (contentOf env n C0 s)"
      using addWriterLocked_content [OF a assms(2), of sz n] assms(3) by (auto simp: fetch_frame_def)
    then show ?thesis using q False e assms(3) by (auto simp: virtual_def fetch_frame_def log_only_def)
  qed
qed

lemma virtual_write:
  assumes "fsCall env (FdWriteAt buf off) s = (None, s')" and "fetch_frame n sz r sp s" and "writer s"
  shows "virtual env n C0 sz s' = applyCall (FdWriteAt buf off) (virtual env n C0 sz s) \<and> fetch_frame n sz r sp s' \<and> writer s'"
proof -
  have "n \<le> length (fsLog s)" using assms(2) by (simp add: fetch_frame_def)
  note c = contentOf_call [OF assms(1) this]
  have "writer s'" "reused s' = reused s" "sparse s' = sparse s" "sFile s' = sFile s" using assms(1,3) by (auto simp: fsCall_def)
  then show ?thesis using c assms(2,3) by (simp add: virtual_def fetch_frame_def)
qed

definition same :: "sharedPullerState \<Rightarrow> sharedPullerState \<Rightarrow> bool" where
  "same s s' \<longleftrightarrow> fsLog s' = fsLog s \<and> writer s' = writer s \<and> reused s' = reused s \<and> sparse s' = sparse s
     \<and> sFile s' = sFile s \<and> closed s' = closed s \<and> sErr s' = sErr s"

lemma same_simps [simp]:
  "same s s" "same s (copyDone now b s)" "same s (pullStarted now s)" "same s (pullDone now b s)"
  "same s (skippedSparseBlock now s)" "same s (copiedFromOrigin now s)" "same s (copiedFromElsewhere s)"
  by (simp_all add: same_def copyDone_def pullStarted_def pullDone_def skippedSparseBlock_def copiedFromOrigin_def copiedFromElsewhere_def)

lemma tempFile_err: "tempFile env s = Ok (Some e, s') \<Longrightarrow> sErr s' \<noteq> None"
  using tempFile_effect [of env s "Some e" s'] by simp

lemma copier_content_cases:
  assumes "copier_step sha env cfg bs0 (s, c) (s', c')" and "standardCopy cfg" and "\<not> receiveEncrypted cfg"
  obtains (broken) "sErr s' \<noteq> None"
    | (quiet) "same s s'" "copier_todo c' = copier_todo c" "\<forall>b bs. c' \<noteq> Writing b bs"
    | (hole) b where "same s s'" "\<not> disableSparse cfg" "reused s = 0" "BlockInfo_IsEmpty b" "copier_todo c = insert b (copier_todo c')"
        "\<forall>b bs. c' \<noteq> Writing b bs"
    | (opens) "tempFile env s = Ok (None, s')" "copier_todo c' = copier_todo c" "c = AfterLoop \<longrightarrow> bs0 = []"
    | (writes) b bs buf s1 where "c = Writing b bs" "fsCall env (FdWriteAt buf (bOffset b)) s = (None, s1)" "verifyBuffer sha buf b = None"
        "same s1 s'" "copier_todo c = insert b (copier_todo c')" "\<forall>b bs. c' \<noteq> Writing b bs"
proof -
  have w: thesis if h: "c = Writing b bs" "copyCall sha cfg b k" "fsCall env k s = (None, s1)" "same s1 s'" "c' = CopyOk b bs" for b bs k s1
  proof -
    obtain buf where "k = FdWriteAt buf (bOffset b)" "verifyBuffer sha buf b = None"
      using h(2) assms(2,3) by (auto simp: copyCall_def split: fs_call.splits)
    then show thesis using writes [of b bs buf s1] h by simp
  qed
  show thesis
    using assms(1)
  proof (cases rule: copier_step.cases)
    case (copy_after_empty e s1)
    then show thesis using opens broken by (cases e) (simp_all add: fail_err)
  next
    case (copy_write_origin b k s1 bs now)
    then show thesis using w [of b bs k s1] by simp
  next
    case (copy_write_elsewhere b k s1 bs)
    then show thesis using w [of b bs k s1] by simp
  qed (use broken quiet hole opens tempFile_err in \<open>(simp add: fail_err failed_def; fail)+\<close>)
qed

lemma puller_content_cases:
  assumes "puller_step sha env cfg (s, p) (s', p')" and "\<not> receiveEncrypted cfg"
  obtains (broken) "sErr s' \<noteq> None"
    | (quiet) "same s s'" "puller_todo p' = puller_todo p" "\<forall>b. p' \<noteq> PullRequest b"
    | (hole) b where "same s s'" "\<not> disableSparse cfg" "reused s = 0" "BlockInfo_IsEmpty b" "puller_todo p = insert b (puller_todo p')"
        "\<forall>b. p' \<noteq> PullRequest b"
    | (opens) "tempFile env s = Ok (None, s')" "puller_todo p' = puller_todo p"
    | (writes) b buf where "p = PullRequest b" "fsCall env (FdWriteAt buf (bOffset b)) s = (None, s')" "verifyBuffer sha buf b = None"
        "puller_todo p = insert b (puller_todo p')" "\<forall>b. p' \<noteq> PullRequest b"
  using assms(1)
proof (cases rule: puller_step.cases)
  case (pull_save buf b)
  then show thesis using writes [of b buf] assms(2) by simp
qed (use broken quiet hole opens tempFile_err in \<open>(simp add: fail_err failed_def; fail)+\<close>)

text \<open>The hypotheses about the folder, the file system and the hashes.\<close>

definition fetch_hyp :: "(byte list \<Rightarrow> byte list) \<Rightarrow> pull_env \<Rightarrow> copy_cfg \<Rightarrow> byte list \<Rightarrow> BlockInfo list \<Rightarrow> bool \<Rightarrow> bool" where
  "fetch_hyp sha env cfg data bs0 sp \<longleftrightarrow> truncates env \<and> zeros_known sha \<and> standardCopy cfg \<and> \<not> receiveEncrypted cfg
     \<and> (sp \<longleftrightarrow> \<not> disableSparse cfg) \<and> (\<forall>b\<in>set bs0. identifies sha data b)"

text \<open>The state of the file when the blocks \<open>T\<close> are still to be written.\<close>

definition file_ok :: "pull_env \<Rightarrow> nat \<Rightarrow> byte list \<Rightarrow> byte list \<Rightarrow> nat \<Rightarrow> bool \<Rightarrow> BlockInfo set \<Rightarrow> sharedPullerState \<Rightarrow> bool" where
  "file_ok env n C0 data r sp T s \<longleftrightarrow> fetch_frame n (length data) r sp s
     \<and> pos_ok data (opened r sp (length data) C0) (covered T) (virtual env n C0 (length data) s)"

lemma file_ok_same: "same s s' \<Longrightarrow> file_ok env n C0 data r sp T s' = file_ok env n C0 data r sp T s"
  by (auto simp: same_def file_ok_def fetch_frame_def virtual_def contentOf_def)

lemma covered_insert: "covered T \<subseteq> covered (insert b T) \<union> region b"
  by (auto simp: covered_def)

lemma file_ok_hole:
  assumes "file_ok env n C0 data r sp (insert b T) s" and "fetch_hyp sha env cfg data bs0 sp" and "b \<in> set bs0"
    and "\<not> disableSparse cfg" and "reused s = 0" and "BlockInfo_IsEmpty b"
  shows "file_ok env n C0 data r sp T s"
proof -
  have "r = 0" "sp" using assms by (auto simp: file_ok_def fetch_frame_def fetch_hyp_def)
  then have "opened r sp (length data) C0 = replicate (length data) 0" by (simp add: opened_def)
  then show ?thesis
    using assms pos_ok_sparse [of data "covered (insert b T)" "virtual env n C0 (length data) s" sha b]
      pos_ok_mono [OF _ covered_insert [of T b]]
    by (auto simp: file_ok_def fetch_hyp_def)
qed

lemma file_ok_write:
  assumes "file_ok env n C0 data r sp (insert b T) s" and "fetch_hyp sha env cfg data bs0 sp" and "b \<in> set bs0"
    and "fsCall env (FdWriteAt buf (bOffset b)) s = (None, s')" and "verifyBuffer sha buf b = None" and "writer s"
  shows "file_ok env n C0 data r sp T s' \<and> writer s'"
proof -
  have f: "fetch_frame n (length data) r sp s" using assms(1) by (simp add: file_ok_def)
  note w = virtual_write [OF assms(4) f assms(6)]
  have "pos_ok data (opened r sp (length data) C0) (covered (insert b T) \<union> region b) (virtual env n C0 (length data) s')"
    using pos_ok_write [of data _ _ "virtual env n C0 (length data) s" sha b buf] assms w by (auto simp: file_ok_def fetch_hyp_def)
  then show ?thesis using w pos_ok_mono [OF _ covered_insert] by (auto simp: file_ok_def)
qed

lemma file_ok_open:
  assumes "file_ok env n C0 data r sp T s" and "fetch_hyp sha env cfg data bs0 sp" and "tempFile env s = Ok (None, s')"
  shows "file_ok env n C0 data r sp T s' \<and> writer s'"
  using virtual_tempFile [OF assms(3), of n "length data" r sp] assms(1,2) by (auto simp: file_ok_def fetch_hyp_def)

definition content_inv ::
  "pull_env \<Rightarrow> BlockInfo list \<Rightarrow> nat \<Rightarrow> byte list \<Rightarrow> byte list \<Rightarrow> nat \<Rightarrow> bool \<Rightarrow> pull_sys \<Rightarrow> bool" where
  "content_inv env bs0 n C0 data r sp x \<longleftrightarrow> todo x \<subseteq> set bs0
     \<and> (sErr (shared x) = None \<and> \<not> closed (shared x) \<longrightarrow> file_ok env n C0 data r sp (todo x) (shared x) \<and> (writing x \<longrightarrow> writer (shared x)))
     \<and> (finished x = [None] \<longrightarrow> contentOf env n C0 (shared x) = data)
     \<and> (bs0 = [] \<longrightarrow> pulls x = [] \<and> (copier x \<noteq> CopierDone \<longrightarrow> msgs x = 0 \<and> finished x = []))"

lemma err_sticky:
  "copier_step sha env cfg bs0 (s, c) (s', c') \<Longrightarrow> sErr s' = None \<Longrightarrow> sErr s = None"
  "puller_step sha env cfg (s, p) (s', p') \<Longrightarrow> sErr s' = None \<Longrightarrow> sErr s = None"
proof -
  assume "copier_step sha env cfg bs0 (s, c) (s', c')" "sErr s' = None"
  then show "sErr s = None"
    by (cases rule: copier_step_cases) (auto dest: touched_err simp: copyDone_def pullStarted_def)
next
  assume "puller_step sha env cfg (s, p) (s', p')" "sErr s' = None"
  then show "sErr s = None"
    by (cases rule: puller_step_cases) (auto dest: touched_err simp: pullDone_def)
qed

lemma copier_file_ok:
  assumes st: "copier_step sha env cfg bs0 (s, c) (s', c')" and h: "fetch_hyp sha env cfg data bs0 sp" and n: "sErr s' = None"
    and ok: "file_ok env n C0 data r sp (copier_todo c \<union> T) s" and sub: "copier_todo c \<subseteq> set bs0"
    and w: "(\<exists>b bs. c = Writing b bs) \<longrightarrow> writer s"
  shows "file_ok env n C0 data r sp (copier_todo c' \<union> T) s' \<and> ((\<exists>b bs. c' = Writing b bs) \<longrightarrow> writer s') \<and> (writer s \<longrightarrow> writer s')
    \<and> copier_todo c' \<subseteq> copier_todo c"
proof -
  have "standardCopy cfg" "\<not> receiveEncrypted cfg" using h by (auto simp: fetch_hyp_def)
  with st show ?thesis
  proof (cases rule: copier_content_cases)
    case quiet
    then show ?thesis using ok file_ok_same [OF quiet(1)] by (auto simp: same_def)
  next
    case (hole b)
    have "b \<in> set bs0" using hole(5) sub by auto
    from file_ok_hole [OF _ h this hole(2-4)] have "file_ok env n C0 data r sp (copier_todo c' \<union> T) s"
      using ok hole(5) by simp
    then show ?thesis using file_ok_same [OF hole(1)] hole by (auto simp: same_def)
  next
    case opens
    then show ?thesis using file_ok_open [OF ok h opens(1)] by auto
  next
    case (writes b bs buf s1)
    have "b \<in> set bs0" using writes(5) sub by auto
    moreover have "file_ok env n C0 data r sp (insert b (copier_todo c' \<union> T)) s" using ok unfolding writes(5) by simp
    ultimately have "file_ok env n C0 data r sp (copier_todo c' \<union> T) s1 \<and> writer s1"
      using file_ok_write [OF _ h _ writes(2,3)] w writes(1) by blast
    then show ?thesis using file_ok_same [OF writes(4)] writes by (auto simp: same_def)
  qed (use n in simp)
qed

lemma puller_file_ok:
  assumes st: "puller_step sha env cfg (s, p) (s', p')" and h: "fetch_hyp sha env cfg data bs0 sp" and n: "sErr s' = None"
    and ok: "file_ok env n C0 data r sp (puller_todo p \<union> T) s" and sub: "puller_todo p \<subseteq> set bs0"
    and w: "(\<exists>b. p = PullRequest b) \<longrightarrow> writer s"
  shows "file_ok env n C0 data r sp (puller_todo p' \<union> T) s' \<and> ((\<exists>b. p' = PullRequest b) \<longrightarrow> writer s') \<and> (writer s \<longrightarrow> writer s')
    \<and> puller_todo p' \<subseteq> puller_todo p"
proof -
  have "\<not> receiveEncrypted cfg" using h by (auto simp: fetch_hyp_def)
  with st show ?thesis
  proof (cases rule: puller_content_cases)
    case quiet
    then show ?thesis using ok file_ok_same [OF quiet(1)] by (auto simp: same_def)
  next
    case (hole b)
    have "b \<in> set bs0" using hole(5) sub by auto
    from file_ok_hole [OF _ h this hole(2-4)] have "file_ok env n C0 data r sp (puller_todo p' \<union> T) s"
      using ok hole(5) by simp
    then show ?thesis using file_ok_same [OF hole(1)] hole by (auto simp: same_def)
  next
    case opens
    then show ?thesis using file_ok_open [OF ok h opens(1)] by auto
  next
    case (writes b buf)
    have "b \<in> set bs0" using writes(4) sub by auto
    moreover have "file_ok env n C0 data r sp (insert b (puller_todo p' \<union> T)) s" using ok unfolding writes(4) by simp
    ultimately have "file_ok env n C0 data r sp (puller_todo p' \<union> T) s' \<and> writer s'"
      using file_ok_write [OF _ h _ writes(2,3)] w writes(1) by blast
    then show ?thesis using writes by auto
  qed (use n in simp)
qed

lemma todo_split: "pulls x = ps @ p # qs \<Longrightarrow> todo x = puller_todo p \<union> (copier_todo (copier x) \<union> \<Union> (puller_todo ` set (ps @ qs)))"
  by (auto simp: todo_def)

lemma content_copier:
  assumes st: "copier_step sha env cfg bs0 (shared x, copier x) (s', c')" and h: "fetch_hyp sha env cfg data bs0 sp"
    and pi: "pull_inv bz all x" and ci: "content_inv env bs0 n C0 data r sp x"
  shows "content_inv env bs0 n C0 data r sp (x\<lparr>shared := s', copier := c'\<rparr>)"
proof -
  let ?y = "x\<lparr>shared := s', copier := c'\<rparr>" and ?T = "\<Union> (puller_todo ` set (pulls x))"
  have t: "todo x = copier_todo (copier x) \<union> ?T" "todo ?y = copier_todo c' \<union> ?T" by (simp_all add: todo_def)
  have fr: "closed s' = closed (shared x)" "copier x \<noteq> CopierDone" using copier_step_frame [OF st] by simp_all
  have sub: "copier_todo (copier x) \<subseteq> set bs0" using ci t by (auto simp: content_inv_def)
  have "file_ok env n C0 data r sp (todo ?y) s' \<and> (writing ?y \<longrightarrow> writer s')"
    if e: "sErr s' = None" "\<not> closed s'"
  proof -
    have "file_ok env n C0 data r sp (copier_todo (copier x) \<union> ?T) (shared x)" "writing x \<longrightarrow> writer (shared x)"
      using ci err_sticky(1) [OF st e(1)] fr e(2) t by (auto simp: content_inv_def)
    then show ?thesis using copier_file_ok [OF st h e(1) _ sub] t by (auto simp: writing_def)
  qed
  moreover have "copier_todo c' \<subseteq> set bs0"
    using st sub by (cases rule: copier_step.cases) auto
  moreover have "contentOf env n C0 s' = data" if f: "finished x = [None]"
  proof -
    have "idle x" "bs0 \<noteq> []" using pull_invD(4) [OF pi f] ci fr(2) f by (auto simp: content_inv_def)
    with st have "s' = shared x" by (cases rule: copier_step.cases) (auto simp: idle_def)
    then show ?thesis using ci f by (simp add: content_inv_def)
  qed
  moreover have "todo ?y \<subseteq> set bs0" using ci t calculation(2) by (auto simp: content_inv_def)
  moreover have "bs0 = [] \<longrightarrow> pulls x = [] \<and> msgs x = 0 \<and> finished x = []" using ci fr(2) by (auto simp: content_inv_def)
  ultimately show ?thesis by (auto simp: content_inv_def)
qed

lemma content_puller:
  assumes p: "pulls x = ps @ p # qs" and st: "puller_step sha env cfg (shared x, p) (s', p')" and h: "fetch_hyp sha env cfg data bs0 sp"
    and pi: "pull_inv bz all x" and ci: "content_inv env bs0 n C0 data r sp x"
  shows "content_inv env bs0 n C0 data r sp (x\<lparr>shared := s', pulls := ps @ p' # qs\<rparr>)"
proof -
  let ?y = "x\<lparr>shared := s', pulls := ps @ p' # qs\<rparr>" and ?T = "copier_todo (copier x) \<union> \<Union> (puller_todo ` set (ps @ qs))"
  have t: "todo x = puller_todo p \<union> ?T" "todo ?y = puller_todo p' \<union> ?T"
    using todo_split [OF p] todo_split [of ?y ps p' qs] by simp_all
  have fr: "closed s' = closed (shared x)" "puller_blocks p \<noteq> {#}" using puller_step_frame [OF st] by simp_all
  have sub: "puller_todo p \<subseteq> set bs0" using ci t by (auto simp: content_inv_def)
  have "file_ok env n C0 data r sp (todo ?y) s' \<and> (writing ?y \<longrightarrow> writer s')"
    if e: "sErr s' = None" "\<not> closed s'"
  proof -
    have ok: "file_ok env n C0 data r sp (puller_todo p \<union> ?T) (shared x)" and w: "writing x \<longrightarrow> writer (shared x)"
      using ci err_sticky(2) [OF st e(1)] fr e(2) t by (auto simp: content_inv_def)
    have "(\<exists>b. p = PullRequest b) \<longrightarrow> writer (shared x)" using w p by (auto simp: writing_def)
    note q = puller_file_ok [OF st h e(1) ok sub this]
    have "writing ?y \<Longrightarrow> writing x \<or> (\<exists>b. p' = PullRequest b)" using p by (auto simp: writing_def)
    with q w t(2) show ?thesis by auto
  qed
  moreover have "puller_todo p' \<subseteq> set bs0" using st sub by (cases rule: puller_step.cases) auto
  moreover have "finished x \<noteq> [None]"
    using pull_invD(4) [OF pi] fr(2) pending_pulls_split [OF p] by (auto simp: idle_def)
  moreover have "todo ?y \<subseteq> set bs0" using ci t calculation(2) by (auto simp: content_inv_def)
  moreover have "bs0 \<noteq> []" using ci p by (auto simp: content_inv_def)
  ultimately show ?thesis by (auto simp: content_inv_def)
qed

lemma finalClose_content:
  assumes "finalClose env s = Ok (c, e, s')" and "truncates env" and fr: "fetch_frame n sz r sp s"
  shows "(c \<and> e = None \<longrightarrow> contentOf env n C0 s' = virtual env n C0 sz s)
    \<and> (\<not> c \<longrightarrow> fetch_frame n sz r sp s' \<and> virtual env n C0 sz s' = virtual env n C0 sz s \<and> sErr s' = sErr s \<and> (writer s \<longrightarrow> writer s'))"
proof (cases "closed s \<or> (pullNeeded s + copyNeeded s \<noteq> 0 \<and> sErr s = None)")
  case True
  then have "finalClose env s = Ok (False, None, s)" unfolding finalClose_def by (cases "closed s") simp_all
  then show ?thesis using assms by auto
next
  case False
  obtain we s1 where w: "(if writer s then Ok (None, s) else addWriterLocked env s) = (Ok (we, s1) :: (unit, perr option \<times> sharedPullerState) result)"
      and k: "(case we of Some e \<Rightarrow> Ok (False, Some e, s1) | None \<Rightarrow>
          bind_result (if fEncrypted (sFile s1) \<noteq> [] then bind_result (finalizeEncrypted env s1) (\<lambda>(e, s2). Ok (setErr e s2)) else Ok s1) (\<lambda>s2.
              let (ce, s3) = (if writer s2 then syncClose env s2 else (None, s2));
                  s4 = (setErr ce s3)\<lparr>writer := False, closed := True\<rparr>;
                  (_, s5) = fsCall env (FsUnhide (tempName s4)) s4
              in Ok (True, sErr s5, s5))) = Ok (c, e, s')"
    using assms(1) False unfolding finalClose_def by (auto elim!: bind_Ok_pair)
  have s1: "n \<le> length (fsLog s1)" "plain_file sz (sFile s1)" "reused s1 = r" "sparse s1 = sp" "sErr s1 = sErr s" "closed s1 = closed s"
      "contentOf env n C0 s1 = (if we = None then virtual env n C0 sz s else contentOf env n C0 s)" "we = None \<longrightarrow> writer s1"
      "we \<noteq> None \<longrightarrow> \<not> writer s \<and> \<not> writer s1"
  proof -
    have "(writer s \<and> we = None \<and> s1 = s) \<or> (\<not> writer s \<and> addWriterLocked env s = Ok (we, s1))" using w by (auto split: if_splits)
    then have "n \<le> length (fsLog s1) \<and> plain_file sz (sFile s1) \<and> reused s1 = r \<and> sparse s1 = sp \<and> sErr s1 = sErr s \<and> closed s1 = closed s
      \<and> contentOf env n C0 s1 = (if we = None then virtual env n C0 sz s else contentOf env n C0 s) \<and> (we = None \<longrightarrow> writer s1)
      \<and> (we \<noteq> None \<longrightarrow> \<not> writer s \<and> \<not> writer s1)"
    proof
      assume h: "\<not> writer s \<and> addWriterLocked env s = Ok (we, s1)"
      have "log_only s s1 \<and> (we = None \<longrightarrow> writer s1)" using addWriterLocked_quiet [of env s we s1] h by (auto simp: quiet_def)
      then show ?thesis
        using addWriterLocked_content [of env s we s1 sz n C0] h assms(2) fr by (auto simp: fetch_frame_def virtual_def log_only_def)
    qed (use fr in \<open>simp add: fetch_frame_def virtual_def\<close>)
    then show "n \<le> length (fsLog s1)" "plain_file sz (sFile s1)" "reused s1 = r" "sparse s1 = sp" "sErr s1 = sErr s" "closed s1 = closed s"
      "contentOf env n C0 s1 = (if we = None then virtual env n C0 sz s else contentOf env n C0 s)" "we = None \<longrightarrow> writer s1"
      "we \<noteq> None \<longrightarrow> \<not> writer s \<and> \<not> writer s1"
      by simp_all
  qed
  show ?thesis
  proof (cases we)
    case (Some x)
    then have "\<not> c" "s' = s1" using k by auto
    then show ?thesis using s1 Some fr by (simp add: fetch_frame_def virtual_def)
  next
    case None
    have enc: "fEncrypted (sFile s1) = []" using s1(2) by (simp add: plain_file_def)
    obtain ce s3 where 3: "syncClose env s1 = (ce, s3)" by fastforce
    let ?s4 = "(setErr ce s3)\<lparr>writer := False, closed := True\<rparr>"
    obtain ue s5 where 5: "fsCall env (FsUnhide (tempName ?s4)) ?s4 = (ue, s5)" by fastforce
    have "c" "s' = s5" using k None enc s1(8) 3 5 by (auto simp: Let_def)
    moreover have k3: "n \<le> length (fsLog s3) \<and> contentOf env n C0 s3 = contentOf env n C0 s1"
    proof -
      define sa where "sa = (if fsync s1 then snd (fsCall env FdSync s1) else s1)"
      obtain se sb where b: "fsCall env FdSync s1 = (se, sb)" by fastforce
      then have "n \<le> length (fsLog sb)" "contentOf env n C0 sb = contentOf env n C0 s1" using contentOf_call(1,2) [OF b s1(1)] by auto
      then have "n \<le> length (fsLog sa) \<and> contentOf env n C0 sa = contentOf env n C0 s1" using s1(1) b by (simp add: sa_def)
      moreover have "fsCall env FdClose sa = (ce, s3)" using 3 by (simp add: syncClose_def sa_def Let_def)
      ultimately show ?thesis using contentOf_call(1,2) [of env FdClose sa ce s3 n] by auto
    qed
    moreover have "fsLog ?s4 = fsLog s3" by (simp add: setErr_def)
    ultimately show ?thesis
      using contentOf_call(1,2) [OF 5, of n] contentOf_frame [of ?s4 s3 env n C0] s1(7) None by auto
  qed
qed

lemma idle_todo:
  assumes "idle x"
  shows "todo x = {}"
proof -
  have "copier_todo (copier x) \<subseteq> set_mset (copier_blocks (copier x)) \<union> set_mset (copier_sent (copier x))" by (cases "copier x") auto
  moreover have "puller_todo p = {}" if p: "p \<in> set (pulls x)" for p
  proof -
    obtain ps qs where "pulls x = ps @ p # qs" using p by (auto dest: split_list)
    then have "puller_blocks p = {#}" using assms pending_pulls_split [of x ps p qs] by (simp add: idle_def)
    then show ?thesis by (cases p) auto
  qed
  ultimately show ?thesis using assms by (auto simp: todo_def idle_def)
qed

lemma content_finisher:
  assumes m: "msgs x = Suc k" and fc: "finalClose env (shared x) = Ok (c, e, s')" and h: "fetch_hyp sha env cfg data bs0 sp"
    and pi: "pull_inv bz all x" and ci: "content_inv env bs0 n C0 data r sp x"
  shows "content_inv env bs0 n C0 data r sp (x\<lparr>shared := s', msgs := k, finished := (if c then finished x @ [e] else finished x),
      closeErr := (closeErr x \<or> (\<not> c \<and> e \<noteq> None))\<rparr>)"
    (is "content_inv _ _ _ _ _ _ _ ?y")
proof -
  have tr: "truncates env" using h by (simp add: fetch_hyp_def)
  have py: "pull_inv bz all ?y" by (rule pull_inv_finisher [OF m fc pi])
  have t: "todo ?y = todo x" "writing ?y = writing x" by (simp_all add: todo_def writing_def)
  have frame: "close_frame (shared x) s'" "closed (shared x) \<longrightarrow> s' = shared x" "c \<longrightarrow> closed s' \<and> \<not> closed (shared x) \<and> e = sErr s'"
      "\<not> c \<longrightarrow> closed s' = closed (shared x)"
    using fc by (cases rule: finalClose_cases; auto)+
  have err: "sErr s' = None \<Longrightarrow> sErr (shared x) = None" using frame(1) by (auto simp: close_frame_def)
  have "file_ok env n C0 data r sp (todo x) s' \<and> (writing x \<longrightarrow> writer s')" if e: "sErr s' = None" "\<not> closed s'"
  proof -
    have "\<not> c" using frame(3) e(2) by blast
    moreover have "file_ok env n C0 data r sp (todo x) (shared x)" "writing x \<longrightarrow> writer (shared x)"
      using ci err [OF e(1)] e(2) frame(4) calculation by (auto simp: content_inv_def)
    ultimately show ?thesis
      using finalClose_content [OF fc tr, of n "length data" r sp C0] by (auto simp: file_ok_def)
  qed
  moreover have "contentOf env n C0 s' = data" if f: "finished ?y = [None]"
  proof (cases c)
    case True
    have fin: "finished x = []" "e = None" using f True by auto
    have id: "idle x" using pull_invD(4) [OF py f] by (simp add: idle_def pending_pulls_def)
    have "sErr (shared x) = None" "\<not> closed (shared x)" using frame(3) True fin(2) err by auto
    then have ok: "file_ok env n C0 data r sp (todo x) (shared x)" using ci by (simp add: content_inv_def)
    have "todo x = {}" by (rule idle_todo [OF id])
    then have "virtual env n C0 (length data) (shared x) = data"
      using ok pos_ok_all by (auto simp: file_ok_def covered_def)
    then show ?thesis
      using finalClose_content [OF fc tr, of n "length data" r sp C0] ok True fin(2) by (auto simp: file_ok_def)
  next
    case False
    then have "finished x = [None]" using f by simp
    moreover have "closed (shared x)" using pull_invD(2) [OF pi] calculation by simp
    ultimately show ?thesis using frame(2) ci by (auto simp: content_inv_def)
  qed
  moreover have "bs0 = [] \<longrightarrow> pulls x = [] \<and> copier x = CopierDone" using ci m by (auto simp: content_inv_def)
  ultimately show ?thesis using ci t by (auto simp: content_inv_def)
qed

lemma content_step:
  assumes "pull_step sha env cfg bs0 x y" and h: "fetch_hyp sha env cfg data bs0 sp" and pi: "pull_inv bz all x"
    and ci: "content_inv env bs0 n C0 data r sp x"
  shows "content_inv env bs0 n C0 data r sp y"
  using assms(1)
proof (cases rule: pull_step.cases)
  case (step_copier s' c')
  then show ?thesis using content_copier [OF _ h pi ci] by simp
next
  case (step_send_pull b bs)
  have "todo y = todo x" "writing y = writing x" "bs0 \<noteq> []"
    using step_send_pull ci by (auto simp: todo_def writing_def content_inv_def)
  then show ?thesis using step_send_pull ci by (auto simp: content_inv_def)
next
  case step_copier_out
  have "todo y = todo x" "writing y = writing x" using step_copier_out by (auto simp: todo_def writing_def)
  then show ?thesis using step_copier_out ci by (auto simp: content_inv_def)
next
  case (step_puller ps p qs s' p')
  then show ?thesis using content_puller [OF _ _ h pi ci] by simp
next
  case (step_puller_out ps qs)
  have "todo y = todo x" "writing y = writing x" using step_puller_out by (auto simp: todo_def writing_def)
  then show ?thesis using step_puller_out ci by (auto simp: content_inv_def)
next
  case (step_finisher k c e s')
  then show ?thesis using content_finisher [OF _ _ h pi ci] by simp
qed

definition content_start where
  "content_start sha env cfg data bz all bs0 n C0 r sp x \<longleftrightarrow> fetch_hyp sha env cfg data bs0 sp \<and> pull_start bz all bs0 x
     \<and> file_ok env n C0 data r sp (set bs0) (shared x)"

definition content_good where
  "content_good sha env cfg data bz all bs0 n C0 r sp x \<longleftrightarrow> fetch_hyp sha env cfg data bs0 sp \<and> pull_inv bz all x
     \<and> content_inv env bs0 n C0 data r sp x"

interpretation contents: invariant_system "pull_step sha env cfg bs0" "content_start sha env cfg data bz all bs0 n C0 r sp"
  "content_good sha env cfg data bz all bs0 n C0 r sp" for sha env cfg data bz all bs0 n C0 r sp
proof
  show "content_start sha env cfg data bz all bs0 n C0 r sp x \<Longrightarrow> content_good sha env cfg data bz all bs0 n C0 r sp x" for x
    using fetching.start_inv [of bz all bs0 x]
    by (auto simp: content_start_def content_good_def pull_start_def startPulling_def content_inv_def todo_def writing_def)
next
  show "pull_step sha env cfg bs0 x y \<Longrightarrow> content_good sha env cfg data bz all bs0 n C0 r sp x
      \<Longrightarrow> content_good sha env cfg data bz all bs0 n C0 r sp y" for x y
    by (auto simp: content_good_def intro: content_step pull_step_inv)
qed

text \<open>
  What reusing an old temporary file needs: outside the blocks to get it has the data, and it
  is not longer than the file, or is cut when it is opened.
\<close>

definition reuse_ok :: "byte list \<Rightarrow> BlockInfo list \<Rightarrow> nat \<Rightarrow> bool \<Rightarrow> byte list \<Rightarrow> bool" where
  "reuse_ok data bs r sp C0 \<longleftrightarrow> (r = 0 \<or> sp \<or> length C0 \<le> length data)
     \<and> (\<forall>p<length data. p \<in> covered (set bs) \<longrightarrow> 0 < r \<and> at C0 p = Some (data ! p))"

lemma at_opened: "0 < r \<Longrightarrow> p < sz \<Longrightarrow> at C0 p = Some v \<Longrightarrow> at (opened r sp sz C0) p = Some v"
  by (auto simp: opened_def at_def nth_append split: if_splits)

lemma reuse_pos_ok:
  assumes "reuse_ok data bs r sp C0"
  shows "pos_ok data (opened r sp (length data) C0) (covered (set bs)) (opened r sp (length data) C0)"
  unfolding pos_ok_def
proof (intro conjI allI impI)
  show "length (opened r sp (length data) C0) \<le> length data"
    using assms by (auto simp: reuse_ok_def opened_def)
  fix p assume "p < length data"
  then show "at (opened r sp (length data) C0) p = Some (data ! p) \<or> p \<notin> covered (set bs) \<and>
      (at (opened r sp (length data) C0) p = at (opened r sp (length data) C0) p
       \<or> at (opened r sp (length data) C0) p = None \<and> at (opened r sp (length data) C0) p = Some 0)"
    using assms at_opened [of r p "length data" C0 "data ! p" sp] by (auto simp: reuse_ok_def)
qed

lemma finished_content:
  assumes "\<not> fTruncated file" and "plain_file (length data) file" and h: "fetch_hyp sha env cfg data bs sp"
    and ru: "reuse_ok data bs (length ri) sp C0"
    and run: "(pull_step sha env cfg bs)\<^sup>*\<^sup>* (startPulling (newSharedPullerState now file folder temp bs ri ip hc cur sp fy log) bs) x"
    and fin: "finished x = [None]"
  shows "contentOf env (length log) C0 (shared x) = data"
proof -
  let ?s = "newSharedPullerState now file folder temp bs ri ip hc cur sp fy log"
  have "virtual env (length log) C0 (length data) ?s = opened (length ri) sp (length data) C0"
    by (simp add: virtual_def newSharedPullerState_def contentOf_def)
  then have "file_ok env (length log) C0 data (length ri) sp (set bs) ?s"
    using reuse_pos_ok [OF ru] assms(2) by (simp add: file_ok_def fetch_frame_def newSharedPullerState_def)
  then have "content_start sha env cfg data (FileInfo_BlockSize file)
      (mset (map int ri) + image_mset (idx (FileInfo_BlockSize file)) (mset bs)) bs (length log) C0 (length ri) sp (startPulling ?s bs)"
    using h new_start [OF refl assms(1)] by (auto simp: content_start_def startPulling_def)
  from contents.reachable_inv [OF this run] fin show ?thesis by (simp add: content_good_def content_inv_def)
qed

end
