(* ===== verification/Scanner_Blocks.thy ===== *)
theory Scanner_Blocks
  imports File_Info
begin

text \<open>
  Hashing of file contents, \<open>lib/scanner/blocks.go\<close> and \<open>HashFile\<close> of
  \<open>lib/scanner/blockqueue.go\<close>. A reader is the bytes it returns and whether an error
  follows them instead of the end of the file; the context may end before any round.
\<close>

section \<open>Hashing\<close>

datatype hash_err = HashCanceled | HashRead | HashOpen | HashStat | ChangedDuringHashing

type_synonym reader = "byte list \<times> bool"

definition SHA256OfNothing :: "byte list" where
  "SHA256OfNothing = [227, 176, 196, 66, 152, 252, 28, 20, 154, 251, 244, 200, 153, 111, 185, 36,
     39, 174, 65, 228, 100, 155, 147, 76, 164, 149, 153, 27, 120, 82, 184, 85]"

definition LimitReader :: "int \<Rightarrow> reader \<Rightarrow> reader" where
  "LimitReader n = (\<lambda>(data, rerr). (take (nat n) data, rerr \<and> length data < nat n))"

function blocksLoop ::
  "(byte list \<Rightarrow> byte list) \<Rightarrow> (nat \<Rightarrow> bool) \<Rightarrow> bool \<Rightarrow> nat \<Rightarrow> nat \<Rightarrow> int \<Rightarrow> byte list \<Rightarrow> (hash_err, BlockInfo list) result" where
  "blocksLoop sha ctxDone rerr bs i offset data =
     (if ctxDone i then Err HashCanceled
      else if length (take bs data) < bs \<and> rerr then Err HashRead
      else if take bs data = [] then Ok []
      else bind_result
             (blocksLoop sha ctxDone rerr bs (Suc i) (offset + int (length (take bs data))) (drop bs data))
             (\<lambda>blocks. Ok (\<lparr>bHash = sha (take bs data), bOffset = offset, bSize = int (length (take bs data))\<rparr> # blocks)))"
  by pat_completeness auto
termination
  by (relation "measure (\<lambda>(sha, ctxDone, rerr, bs, i, offset, data). length data)") auto

declare blocksLoop.simps [simp del]

definition Blocks ::
  "(byte list \<Rightarrow> byte list) \<Rightarrow> (nat \<Rightarrow> bool) \<Rightarrow> reader \<Rightarrow> int \<Rightarrow> int \<Rightarrow> (hash_err, BlockInfo list) result" where
  "Blocks sha ctxDone r blocksize sizehint =
     (let numBlocks = go_div sizehint blocksize + (if go_mod sizehint blocksize \<noteq> 0 then 1 else 0) in
      if sizehint \<ge> 0 \<and> (blocksize = 0 \<or> numBlocks < 0) then Panic
      else
        (let (data, rerr) = (if sizehint \<ge> 0 then LimitReader sizehint r else r) in
         bind_result (blocksLoop sha ctxDone rerr (nat blocksize) 0 0 data) (\<lambda>blocks.
           Ok (if length blocks = 0 then [\<lparr>bHash = SHA256OfNothing, bOffset = 0, bSize = 0\<rparr>] else blocks))))"

definition Validate :: "(byte list \<Rightarrow> byte list) \<Rightarrow> byte list \<Rightarrow> byte list \<Rightarrow> bool" where
  "Validate sha buf hash = (if length hash > 0 then sha buf = hash else True)"

text \<open>A file as the hasher meets it: \<open>None\<close> for a failed open or stat.\<close>

record hash_fd =
  hfOpen :: bool
  hfBefore :: "(int \<times> go_time) option"
  hfReader :: reader
  hfAfter :: "(int \<times> go_time) option"

definition HashFile ::
  "(byte list \<Rightarrow> byte list) \<Rightarrow> (nat \<Rightarrow> bool) \<Rightarrow> hash_fd \<Rightarrow> int \<Rightarrow> (hash_err, BlockInfo list) result" where
  "HashFile sha ctxDone fd blockSize =
     (if \<not> hfOpen fd then Err HashOpen
      else case hfBefore fd of
        None \<Rightarrow> Err HashStat
      | Some (sz, modTime) \<Rightarrow>
          bind_result (Blocks sha ctxDone (hfReader fd) blockSize sz) (\<lambda>blocks.
            case hfAfter fd of
              None \<Rightarrow> Err HashStat
            | Some (sz2, modTime2) \<Rightarrow>
                if sz \<noteq> sz2 \<or> \<not> time_Equal modTime modTime2 then Err ChangedDuringHashing
                else Ok blocks))"

section \<open>The blocks of a content\<close>

definition chunkAt :: "nat \<Rightarrow> byte list \<Rightarrow> nat \<Rightarrow> byte list" where
  "chunkAt B data i = take B (drop (i * B) data)"

definition blockAt :: "(byte list \<Rightarrow> byte list) \<Rightarrow> nat \<Rightarrow> byte list \<Rightarrow> nat \<Rightarrow> BlockInfo" where
  "blockAt sha B data i = \<lparr>bHash = sha (chunkAt B data i), bOffset = int (i * B), bSize = int (length (chunkAt B data i))\<rparr>"

definition blockList :: "(byte list \<Rightarrow> byte list) \<Rightarrow> nat \<Rightarrow> byte list \<Rightarrow> BlockInfo list" where
  "blockList sha B data = map (blockAt sha B data) [0..<(if data = [] then 1 else (length data + B - 1) div B)]"

lemma blocksLoop_list:
  assumes "0 < B"
  shows "blocksLoop sha (\<lambda>_. False) False B i (int (k * B)) (drop (k * B) data) =
    Ok (map (blockAt sha B data) [k..<(length data + B - 1) div B])"
proof (induction "length data - k * B" arbitrary: k i rule: less_induct)
  case less
  show ?case
  proof (cases "k * B < length data")
    case False
    then have "length data + B - 1 < Suc k * B" using assms by simp
    then have "(length data + B - 1) div B \<le> k" by (metis less_Suc_eq_le less_mult_imp_div_less)
    then show ?thesis using False by (subst blocksLoop.simps) simp
  next
    case True
    have n: "k < (length data + B - 1) div B"
    proof -
      have "Suc k * B \<le> length data + B - 1" using True assms by simp
      then have "Suc k \<le> (length data + B - 1) div B" using assms by (simp add: less_eq_div_iff_mult_less_eq)
      then show ?thesis by simp
    qed
    have d: "length data - Suc k * B < length data - k * B" using True assms by simp
    let ?c = "take B (drop (k * B) data)"
    have c: "?c \<noteq> []" using True assms by simp
    have "blocksLoop sha (\<lambda>_. False) False B (Suc i) (int (k * B) + int (length ?c)) (drop B (drop (k * B) data)) =
      Ok (map (blockAt sha B data) [Suc k..<(length data + B - 1) div B])"
    proof (cases "Suc k * B \<le> length data")
      case full: True
      then have "int (k * B) + int (length ?c) = int (Suc k * B)" by (auto simp: min_def)
      moreover have "drop B (drop (k * B) data) = drop (Suc k * B) data" by (simp add: add.commute)
      ultimately show ?thesis using less [OF d, of "Suc i"] by (simp only:)
    next
      case False
      then have "drop B (drop (k * B) data) = []" by simp
      moreover have "(length data + B - 1) div B < Suc (Suc k)"
        using False assms by (intro less_mult_imp_div_less) simp
      ultimately show ?thesis by (subst blocksLoop.simps) (use assms in simp)
    qed
    moreover have "[k..<(length data + B - 1) div B] = k # [Suc k..<(length data + B - 1) div B]" using n by (simp add: upt_rec)
    ultimately show ?thesis using c by (subst blocksLoop.simps) (simp add: blockAt_def chunkAt_def)
  qed
qed

lemma Blocks_list:
  assumes "0 < B" and "sha [] = SHA256OfNothing" and "sizehint < 0 \<or> sizehint = int (length data)"
  shows "Blocks sha (\<lambda>_. False) (data, False) (int B) sizehint = Ok (blockList sha B data)"
proof -
  have "(if sizehint \<ge> 0 then LimitReader sizehint (data, False) else (data, False)) = (data, False)"
    using assms(3) by (auto simp: LimitReader_def)
  moreover have "\<not> (sizehint \<ge> 0 \<and> (int B = 0 \<or> go_div sizehint (int B) + (if go_mod sizehint (int B) \<noteq> 0 then 1 else 0) < 0))"
  proof -
    have "0 \<le> sizehint \<Longrightarrow> 0 \<le> go_div sizehint (int B)" using assms(1) by (simp add: go_div_def sgn_if pos_imp_zdiv_nonneg_iff)
    then show ?thesis using assms(1) by auto
  qed
  ultimately have "Blocks sha (\<lambda>_. False) (data, False) (int B) sizehint =
      (let blocks = map (blockAt sha B data) [0..<(length data + B - 1) div B] in
       Ok (if length blocks = 0 then [\<lparr>bHash = SHA256OfNothing, bOffset = 0, bSize = 0\<rparr>] else blocks))"
    using blocksLoop_list [OF assms(1), of sha 0 0 data] by (simp add: Blocks_def Let_def)
  moreover have "(length data + B - 1) div B = 0 \<longleftrightarrow> data = []" using assms(1) by (cases data) (auto simp: div_eq_0_iff)
  ultimately show ?thesis using assms(2) by (auto simp: blockList_def blockAt_def chunkAt_def Let_def)
qed

lemma blockList_nth:
  assumes "i < length (blockList sha B data)"
  shows "blockList sha B data ! i = blockAt sha B data i"
  using assms by (simp add: blockList_def split: if_splits)

lemma blockList_covers:
  assumes "0 < B" and "p < length data"
  shows "p div B < length (blockList sha B data)" "p div B * B \<le> p" "p < p div B * B + length (chunkAt B data (p div B))"
proof -
  have "Suc (p div B) * B \<le> length data + B - 1"
  proof -
    have "p div B * B \<le> p" by simp
    then have "p div B * B < length data" using assms(2) by (rule le_less_trans)
    then show ?thesis using assms(1) unfolding mult_Suc by linarith
  qed
  then have "Suc (p div B) \<le> (length data + B - 1) div B" using assms(1) by (simp add: less_eq_div_iff_mult_less_eq)
  moreover have "data \<noteq> []" using assms(2) by auto
  ultimately show "p div B < length (blockList sha B data)" by (simp add: blockList_def)
  show "p div B * B \<le> p" by simp
  have "p < p div B * B + B" using assms(1) by (metis div_mult_mod_eq mod_less_divisor nat_add_left_cancel_less)
  then show "p < p div B * B + length (chunkAt B data (p div B))" using assms(2) by (simp add: chunkAt_def)
qed

end
