(* ===== verification/File_Pull.thy ===== *)
theory File_Pull
  imports File_Content Scanner_Blocks Folder_Query
begin

text \<open>
  Fetching a file from start to end: names of temporary files (\<open>lib/fs/tempname.go\<close>), the
  preparation in \<open>handleFile\<close> of \<open>lib/model/folder_sendrecv.go\<close>, and the result. What one
  device hashed (\<open>Scanner_Blocks\<close>) and announced is what another has once it reports the file
  as finished, whatever was reused, copied and requested in whatever order.
\<close>

section \<open>Temporary names\<close>

definition WindowsTempPrefix :: string where "WindowsTempPrefix = ''~vidsync~''"
definition UnixTempPrefix :: string where "UnixTempPrefix = ''.vidsync.''"
definition legacyWindowsTempPrefix :: string where "legacyWindowsTempPrefix = ''~syncthing~''"
definition legacyUnixTempPrefix :: string where "legacyUnixTempPrefix = ''.syncthing.''"

definition maxFilenameLength :: nat where
  "maxFilenameLength = 160 - length UnixTempPrefix - length ''.tmp''"

definition tempPrefix :: "bool \<Rightarrow> string" where
  "tempPrefix isWindows = (if isWindows then WindowsTempPrefix else UnixTempPrefix)"

definition IsTemporary :: "string \<Rightarrow> bool" where
  "IsTemporary name0 =
     (let name = path_Base name0 in
      prefix WindowsTempPrefix name \<or> prefix UnixTempPrefix name
      \<or> prefix legacyWindowsTempPrefix name \<or> prefix legacyUnixTempPrefix name)"

definition TempNameWithPrefix :: "(byte list \<Rightarrow> byte list) \<Rightarrow> string \<Rightarrow> string \<Rightarrow> string" where
  "TempNameWithPrefix sha name pre =
     (let tdir = path_Dir name;
          tbase = path_Base name;
          tname = (if length tbase > maxFilenameLength then pre @ hex_encode (sha (map of_char tbase)) @ ''.tmp''
                   else pre @ tbase @ ''.tmp'')
      in Clean (tdir @ [slash] @ tname))"

definition TempName :: "(byte list \<Rightarrow> byte list) \<Rightarrow> bool \<Rightarrow> string \<Rightarrow> string" where
  "TempName sha isWindows name = TempNameWithPrefix sha name (tempPrefix isWindows)"

section \<open>Preparing a file\<close>

record copyBlocksState =
  cbState :: sharedPullerState
  cbBlocks :: "BlockInfo list"
  cbHave :: nat

text \<open>
  What \<open>handleFile\<close> uses of its folder: the options, the order of blocks with its random
  numbers, and the blocks found in the old temporary file, \<open>None\<close> when it cannot be hashed.
\<close>

record handle_cfg =
  hcCopy :: copy_cfg
  hcIgnorePerms :: bool
  hcDisableFsync :: bool
  hcReorder :: blockPullReorderer
  hcDraw :: "nat \<Rightarrow> nat"
  hcSha :: "byte list \<Rightarrow> byte list"
  hcWindows :: bool

definition removeTemp :: "pull_env \<Rightarrow> string \<Rightarrow> sharedPullerState \<Rightarrow> (unit, perr option \<times> sharedPullerState) result" where
  "removeTemp env temp s =
     inWritableDir env (\<lambda>s. let (e, s') = fsCall env (FsRemove temp) s in Ok (e, s')) temp s"

definition handleFile ::
  "pull_env \<Rightarrow> db_env \<Rightarrow> handle_cfg \<Rightarrow> folderDB \<Rightarrow> go_time \<Rightarrow> BlockInfo list option \<Rightarrow> FileInfo \<Rightarrow> fs_call list
     \<Rightarrow> (db_error, copyBlocksState) result" where
  "handleFile env denv hc db now tempBlocks file log =
     bind_result (GetDeviceFile denv LocalDeviceID (fName file) db) (\<lambda>cur.
       let curFile = (case cur of Some f \<Rightarrow> f | None \<Rightarrow> fi_blank);
           have1 = fst (blockDiff (fBlocks curFile) (fBlocks file));
           temp = TempName (hcSha hc) (hcWindows hc) (fName file);
           file' = file\<lparr>fBlocks := populateOffsets (fBlocks file)\<rparr>;
           (blocks0, reusedIdx) = (if \<not> receiveEncrypted (hcCopy hc) then reuseBlocks tempBlocks (fBlocks file')
                                   else (fBlocks file', []));
           blocks = Reorder (hcDraw hc) (hcReorder hc) blocks0;
           new = newSharedPullerState now file' (folderID (hcCopy hc)) temp blocks reusedIdx
                   (hcIgnorePerms hc \<or> fNoPermissions file) (cur \<noteq> None) curFile
                   (\<not> disableSparse (hcCopy hc)) (\<not> hcDisableFsync hc)
       in bind_result (if reusedIdx = [] then
                         (case removeTemp env temp (new log) of Ok (e, s) \<Rightarrow> Ok (fsLog s) | _ \<Rightarrow> Panic)
                       else Ok log)
            (\<lambda>log'. Ok \<lparr>cbState = new log', cbBlocks = blocks, cbHave = length have1\<rparr>))"

section \<open>The blocks of the sender\<close>

lemma populate_blockAt:
  assumes "0 < B" and "int (length data) < 2 ^ 63" and "\<And>i. Suc i < n \<Longrightarrow> Suc i * B \<le> length data"
  shows "populateFrom (int (k * B)) (map (blockAt sha B data) [k..<n]) = map (blockAt sha B data) [k..<n]"
proof (induction "n - k" arbitrary: k)
  case (Suc m)
  then have k: "k < n" by simp
  have "populateFrom (to_i64 (int (k * B) + int (length (chunkAt B data k)))) (map (blockAt sha B data) [Suc k..<n])
      = map (blockAt sha B data) [Suc k..<n]"
  proof (cases "Suc k < n")
    case True
    have f: "Suc k * B \<le> length data" by (rule assms(3) [OF True])
    then have "int (k * B) + int (length (chunkAt B data k)) = int (Suc k * B)" by (auto simp: chunkAt_def)
    moreover have "to_i64 (int (Suc k * B)) = int (Suc k * B)"
    proof (rule to_i64_id)
      have "int (Suc k * B) \<le> int (length data)" using f by (simp only: of_nat_le_iff)
      then show "is_i64 (int (Suc k * B))" using assms(2) of_nat_0_le_iff [of "Suc k * B"] unfolding is_i64_def by linarith
    qed
    ultimately show ?thesis using Suc by (simp only: Suc(1) [of "Suc k"])
  qed simp
  then show ?case using k by (simp add: upt_rec blockAt_def)
qed simp

lemma blockList_full:
  assumes "0 < B" and "Suc i < length (blockList sha B data)"
  shows "Suc i * B \<le> length data"
proof -
  have "Suc (Suc i) \<le> (length data + B - 1) div B" using assms(2) by (simp add: blockList_def split: if_splits)
  then have "Suc (Suc i) * B \<le> length data + B - 1" using assms(1) by (simp add: less_eq_div_iff_mult_less_eq)
  then show ?thesis using assms(1) by simp
qed

lemma populate_blockList:
  assumes "0 < B" and "int (length data) < 2 ^ 63"
  shows "populateOffsets (blockList sha B data) = blockList sha B data"
proof -
  have "length (blockList sha B data) = (if data = [] then 1 else (length data + B - 1) div B)" by (simp add: blockList_def)
  then show ?thesis
    using populate_blockAt [OF assms, of "length (blockList sha B data)" 0 sha] blockList_full [OF assms(1), of _ sha data]
    by (simp add: populateOffsets_def blockList_def)
qed

lemma distinct_blockList: "0 < B \<Longrightarrow> distinct (blockList sha B data)"
  by (auto simp: blockList_def distinct_map inj_on_def blockAt_def)

text \<open>Other data never has the hash of a block of the file.\<close>

definition collision_free :: "(byte list \<Rightarrow> byte list) \<Rightarrow> byte list \<Rightarrow> BlockInfo list \<Rightarrow> bool" where
  "collision_free sha data bs \<longleftrightarrow> (\<forall>b\<in>set bs. \<forall>buf. sha buf = bHash b \<longrightarrow> buf = blockData data b)"

lemma in_blockList: "b \<in> set (blockList sha B data) \<Longrightarrow> \<exists>i. b = blockAt sha B data i \<and> (data \<noteq> [] \<longrightarrow> i * B \<le> length data)"
proof -
  assume "b \<in> set (blockList sha B data)"
  then obtain i where i: "b = blockAt sha B data i" "i < (if data = [] then 1 else (length data + B - 1) div B)"
    by (auto simp: blockList_def)
  have "i * B \<le> length data" if "data \<noteq> []"
  proof -
    have "Suc i \<le> (length data + B - 1) div B" using i(2) that by simp
    then have "Suc i * B \<le> length data + B - 1" by (metis div_times_less_eq_dividend le_trans mult_le_mono1)
    then show ?thesis by simp
  qed
  then show ?thesis using i(1) by blast
qed

lemma blockData_blockAt: "blockData data (blockAt sha B data i) = chunkAt B data i"
  by (simp add: blockData_def blockAt_def chunkAt_def min_def flip: of_nat_mult)

lemma blockList_identifies:
  assumes "0 < B" and "collision_free sha data (blockList sha B data)" and b: "b \<in> set (blockList sha B data)"
  shows "identifies sha data b"
proof -
  obtain i where i: "b = blockAt sha B data i" "data \<noteq> [] \<longrightarrow> i * B \<le> length data" using in_blockList [OF b] by blast
  have "data = [] \<Longrightarrow> i = 0" using b i(1) assms(1) by (auto simp: blockList_def blockAt_def)
  then have "i * B + length (chunkAt B data i) \<le> length data" using i(2) by (auto simp: chunkAt_def)
  moreover have "nat (bOffset b) = i * B" "nat (bSize b) = length (chunkAt B data i)"
    unfolding i(1) blockAt_def by (simp_all flip: of_nat_mult)
  moreover have "sha buf = bHash b \<Longrightarrow> buf = blockData data b" for buf using assms(2) b by (simp add: collision_free_def)
  moreover have "0 \<le> bOffset b" "0 \<le> bSize b" by (simp_all add: i(1) blockAt_def)
  ultimately show ?thesis unfolding identifies_def by (metis)
qed

lemma region_blockAt: "p \<in> region (blockAt sha B data i) \<longleftrightarrow> i * B \<le> p \<and> p < i * B + length (chunkAt B data i)"
  by (simp add: region_def blockAt_def flip: of_nat_mult)

lemma reuse_blockList:
  assumes B: "0 < B" and coll: "collision_free sha data (blockList sha B data)"
    and temp: "tempBlocks = None \<or> tempBlocks = Some (blockList sha B C0)"
    and re: "reuseBlocks tempBlocks (blockList sha B data) = (bs, ri)" and sp: "sp \<or> length C0 \<le> length data"
  shows "set bs \<subseteq> set (blockList sha B data) \<and> reuse_ok data bs (length ri) sp C0"
proof -
  let ?bl = "blockList sha B data" and ?tb = "blockList sha B C0"
  have sub: "set bs \<subseteq> set ?bl" using re by (auto simp: reuseBlocks_def Let_def split: option.splits)
  have "0 < length ri \<and> at C0 p = Some (data ! p)" if p: "p < length data" "p \<in> covered (set bs)" for p
  proof -
    let ?i = "p div B"
    have c: "?i < length ?bl" "?i * B \<le> p" "p < ?i * B + length (chunkAt B data ?i)"
      using blockList_covers [OF B p(1)] by blast+
    have b: "?bl ! ?i = blockAt sha B data ?i" using blockList_nth [OF c(1)] .
    have inb: "?bl ! ?i \<in> set ?bl" using c(1) by simp
    have pr: "p \<in> region (?bl ! ?i)" using c(2,3) unfolding b region_blockAt by simp
    then have nb: "?bl ! ?i \<notin> set bs" using p(2) by (auto simp: covered_def)
    then have "tempBlocks \<noteq> None" using re inb by (auto simp: reuseBlocks_def split: option.splits)
    then have tb: "tempBlocks = Some ?tb" using temp by auto
    then have ex: "?bl ! ?i \<in> set (fst (blockDiff ?tb ?bl))" using re nb inb by (auto simp: reuseBlocks_def Let_def)
    then have h: "?i < length ?tb" "bHash (?bl ! ?i) = bHash (?tb ! ?i)"
      using in_blockDiff [OF distinct_blockList [OF B], of ?i sha data ?tb] c(1) by auto
    have "?i \<in> set ri" using re tb ex c(1) by (auto simp: reuseBlocks_def Let_def)
    then have "ri \<noteq> []" by auto
    moreover have eq: "chunkAt B C0 ?i = blockData data (?bl ! ?i)"
      using coll inb h blockList_nth [OF h(1)] by (auto simp: collision_free_def blockAt_def)
    have "blockData data (?bl ! ?i) = chunkAt B data ?i" unfolding b by (rule blockData_blockAt)
    then have ch: "chunkAt B C0 ?i = chunkAt B data ?i" using eq by simp
    then have lt: "p - ?i * B < length (chunkAt B C0 ?i)" using c(2,3) unfolding ch by linarith
    have g: "chunkAt B D ?i ! (p - ?i * B) = D ! p \<and> p < length D" if "p - ?i * B < length (chunkAt B D ?i)" for D
      using that c(2) by (auto simp: chunkAt_def)
    have "at C0 p = Some (data ! p)" using g [OF lt] g [of data] lt ch by (auto simp: at_def)
    ultimately show ?thesis by simp
  qed
  then show ?thesis using sub sp by (auto simp: reuse_ok_def)
qed

section \<open>The result\<close>

lemma handleFile_cases:
  assumes "handleFile env denv hc db now tempBlocks file log = Ok cs" and "\<not> receiveEncrypted (hcCopy hc)"
    and "populateOffsets (fBlocks file) = fBlocks file"
  obtains bs0 ri temp ip hasCur cur fy log' where "reuseBlocks tempBlocks (fBlocks file) = (bs0, ri)"
    "cbBlocks cs = Reorder (hcDraw hc) (hcReorder hc) bs0"
    "cbState cs = newSharedPullerState now file (folderID (hcCopy hc)) temp (cbBlocks cs) ri ip hasCur cur
       (\<not> disableSparse (hcCopy hc)) fy log'"
proof -
  obtain bs0 ri where r: "reuseBlocks tempBlocks (fBlocks file) = (bs0, ri)" by fastforce
  obtain cur where "GetDeviceFile denv LocalDeviceID (fName file) db = Ok cur"
    using assms(1) by (auto simp: handleFile_def bind_result_Ok)
  then obtain log' where "cs = \<lparr>cbState = newSharedPullerState now (file\<lparr>fBlocks := fBlocks file\<rparr>) (folderID (hcCopy hc))
      (TempName (hcSha hc) (hcWindows hc) (fName file)) (Reorder (hcDraw hc) (hcReorder hc) bs0) ri
      (hcIgnorePerms hc \<or> fNoPermissions file) (cur \<noteq> None) (case cur of Some f \<Rightarrow> f | None \<Rightarrow> fi_blank)
      (\<not> disableSparse (hcCopy hc)) (\<not> hcDisableFsync hc) log',
      cbBlocks = Reorder (hcDraw hc) (hcReorder hc) bs0,
      cbHave = length (fst (blockDiff (fBlocks (case cur of Some f \<Rightarrow> f | None \<Rightarrow> fi_blank)) (fBlocks file)))\<rparr>"
    using assms r by (auto simp: handleFile_def bind_result_Ok Let_def)
  then show thesis using that [OF r] by simp
qed

text \<open>
  Claim C1. Synchronising a file reproduces its content. Let one device hash the content \<open>data\<close>
  of a file, and let another fetch the file by the resulting block list: it hashes what is left
  of an old temporary file to reuse blocks, orders the others in any of the ways there
  are, copies and requests them, with copier and pullers interleaved in any way. When it reports
  the file as finished without an error, the temporary file, which is then renamed into place,
  contains exactly \<open>data\<close>. This assumes the absence of hash collisions with the blocks of the
  file, that truncation works, that the folder is not encrypted, and, where sparse files are
  disabled, that the old temporary file was not longer than the new content.
\<close>

theorem file_fetched_content:
  assumes B: "0 < B" and L: "int (length data) < 2 ^ 63"
    and empty: "sha [] = SHA256OfNothing" and zeros: "zeros_known sha" and coll: "collision_free sha data (fBlocks f)"
    and scanned: "Blocks sha (\<lambda>_. False) (data, False) (int B) (int (length data)) = Ok (fBlocks f)"
    and temp: "tempBlocks = None
      \<or> (\<exists>tb. Blocks sha (\<lambda>_. False) (C0, False) (int B) (int (length C0)) = Ok tb \<and> tempBlocks = Some tb)"
    and fi: "plain_file (length data) f" "\<not> fTruncated f"
    and cfg: "standardCopy (hcCopy hc)" "\<not> receiveEncrypted (hcCopy hc)" "disableSparse (hcCopy hc) \<longrightarrow> length C0 \<le> length data" and tr: "truncates env"
    and handle: "handleFile env denv hc db now tempBlocks f log = Ok cs"
    and run: "(pull_step sha env (hcCopy hc) (cbBlocks cs))\<^sup>*\<^sup>* (startPulling (cbState cs) (cbBlocks cs)) x"
    and fin: "finished x = [None]"
  shows "contentOf env (length (fsLog (cbState cs))) C0 (shared x) = data"
proof -
  have scan: "Blocks sha (\<lambda>_. False) (D, False) (int B) (int (length D)) = Ok (blockList sha B D)" for D
    by (rule Blocks_list [where sha = sha, OF B empty]) simp
  have bl: "fBlocks f = blockList sha B data" using scanned unfolding scan by simp
  have pop: "populateOffsets (fBlocks f) = fBlocks f" unfolding bl by (rule populate_blockList [OF B L])
  have tb: "tempBlocks = None \<or> tempBlocks = Some (blockList sha B C0)"
    using temp unfolding scan by auto
  obtain bs0 ri t ip hasCur cur fy log' where h: "reuseBlocks tempBlocks (fBlocks f) = (bs0, ri)"
      "cbBlocks cs = Reorder (hcDraw hc) (hcReorder hc) bs0"
      "cbState cs = newSharedPullerState now f (folderID (hcCopy hc)) t (cbBlocks cs) ri ip hasCur cur
         (\<not> disableSparse (hcCopy hc)) fy log'"
    using handleFile_cases [OF handle cfg(2) pop] by metis
  let ?sp = "\<not> disableSparse (hcCopy hc)"
  have r: "set bs0 \<subseteq> set (fBlocks f)" "reuse_ok data bs0 (length ri) ?sp C0"
    using reuse_blockList [OF B _ tb, of data bs0 ri ?sp] coll h(1) cfg(3) unfolding bl by blast+
  have set: "set (cbBlocks cs) = set bs0" unfolding h(2) by (rule anyOrder.same_blocks)
  have "fetch_hyp sha env (hcCopy hc) data (cbBlocks cs) ?sp"
    using tr zeros cfg r(1) blockList_identifies [OF B, of sha data] coll set by (auto simp: fetch_hyp_def bl)
  moreover have "reuse_ok data (cbBlocks cs) (length ri) ?sp C0" using r(2) set by (simp add: reuse_ok_def)
  ultimately have "contentOf env (length log') C0 (shared x) = data"
    using finished_content [OF fi(2,1), of sha env "hcCopy hc" "cbBlocks cs" ?sp ri C0 now "folderID (hcCopy hc)" t ip hasCur cur fy log' x]
      run fin h(3) by simp
  then show ?thesis using h(3) by (simp add: newSharedPullerState_def)
qed

text \<open>A hash function for examples: the identity, but for the zero blocks the code knows.\<close>

definition sha_sample :: "byte list \<Rightarrow> byte list" where
  "sha_sample buf =
     (if buf = [] then SHA256OfNothing
      else case map_of sha256OfEmptyBlock (int (length buf)) of
        Some h \<Rightarrow> if list_all ((=) 0) buf then h else buf
      | None \<Rightarrow> buf)"

lemma zero_table: "map_of sha256OfEmptyBlock k = Some v \<Longrightarrow> 0 < k \<and> length v = 32"
  by (auto simp: sha256OfEmptyBlock_def split: if_splits)

lemma zeros_known_sample: "zeros_known sha_sample"
  by (auto simp: zeros_known_def BlockInfo_IsEmpty_def sha_sample_def list_all_iff dest: zero_table split: option.splits)


lemma sha_sample_short:
  assumes "sha_sample buf = h" and "length h < 32"
  shows "buf = h"
proof -
  have "length SHA256OfNothing = 32" by (simp add: SHA256OfNothing_def)
  then have "sha_sample buf = buf \<or> length (sha_sample buf) = 32"
    by (auto simp: sha_sample_def dest: zero_table split: option.splits)
  then show ?thesis using assms by auto
qed

text \<open>
  The file has the content \<open>[7, 7, 8]\<close> in blocks of two bytes. The first is found in an old
  temporary file, the other is copied.
\<close>

definition file_sample :: FileInfo where
  "file_sample = fi_blank\<lparr>fName := ''a'', fSize := 3, fBlocks := blockList sha_sample 2 [7, 7, 8]\<rparr>"

definition handle_cfg0 :: handle_cfg where
  "handle_cfg0 = \<lparr>hcCopy = copy_cfg0, hcIgnorePerms = False, hcDisableFsync = False, hcReorder = InOrder,
     hcDraw = (\<lambda>_. 0), hcSha = sha_sample, hcWindows = False\<rparr>"

definition handle0 :: "handle_cfg \<Rightarrow> byte list \<Rightarrow> (db_error, copyBlocksState) result" where
  "handle0 hc old = handleFile pull_env0 plain_env hc (openFolderDB emptyDB) (time_Unix 0 0)
     (Some (blockList sha_sample 2 old)) file_sample []"

lemma blocks_sample:
  "blockList sha_sample 2 [7, 7, 8] = [\<lparr>bHash = [7, 7], bOffset = 0, bSize = 2\<rparr>, \<lparr>bHash = [8], bOffset = 2, bSize = 1\<rparr>]"
  by code_simp

lemma collision_free_sample: "collision_free sha_sample [7, 7, 8] (fBlocks file_sample)"
  by (auto simp: collision_free_def file_sample_def blocks_sample blockData_def dest: sha_sample_short)

definition ready :: "BlockInfo \<Rightarrow> copyBlocksState \<Rightarrow> bool" where
  "ready b cs \<longleftrightarrow> cbBlocks cs = [b] \<and> copyNeeded (cbState cs) = 1 \<and> pullNeeded (cbState cs) = 0 \<and> \<not> closed (cbState cs)
     \<and> fEncrypted (sFile (cbState cs)) = [] \<and> sErr (cbState cs) = None
     \<and> (case tempFile pull_env0 (cbState cs) of Ok (e, s1) \<Rightarrow> e = None \<and> writer s1 | _ \<Rightarrow> False)"

lemma ready_run:
  assumes "ready b cs" and "copyCall sha cfg b c"
  shows "\<exists>x s1. (pull_step sha pull_env0 cfg (cbBlocks cs))\<^sup>*\<^sup>* (startPulling (cbState cs) (cbBlocks cs)) x \<and> finished x = [None]
    \<and> tempFile pull_env0 (cbState cs) = Ok (None, s1)
    \<and> fsLog (shared x) = fsLog s1 @ c # (if fsync s1 then [FdSync] else []) @ [FdClose, FsUnhide (tempName s1)]"
proof -
  obtain s1 where "tempFile pull_env0 (cbState cs) = Ok (None, s1)" "writer s1"
    using assms(1) by (auto simp: ready_def split: result.splits)
  then show ?thesis using one_block_run [OF _ _ assms(2), of "cbState cs" s1] assms(1) by (auto simp: ready_def)
qed

lemma handle_sample:
  "(case handle0 handle_cfg0 [7, 7] of Ok cs \<Rightarrow> ready \<lparr>bHash = [8], bOffset = 2, bSize = 1\<rparr> cs | _ \<Rightarrow> False)"
  by code_simp

theorem file_fetched_content_witness:
  "\<exists>cs x. handle0 handle_cfg0 [7, 7] = Ok cs
     \<and> (pull_step sha_sample pull_env0 copy_cfg0 (cbBlocks cs))\<^sup>*\<^sup>* (startPulling (cbState cs) (cbBlocks cs)) x
     \<and> finished x = [None] \<and> contentOf pull_env0 (length (fsLog (cbState cs))) [7, 7] (shared x) = [7, 7, 8]"
proof -
  have hc: "hcCopy handle_cfg0 = copy_cfg0" by (simp add: handle_cfg0_def)
  obtain cs where cs: "handle0 handle_cfg0 [7, 7] = Ok cs" "ready \<lparr>bHash = [8], bOffset = 2, bSize = 1\<rparr> cs"
    using handle_sample by (auto split: result.splits)
  have "copyCall sha_sample copy_cfg0 \<lparr>bHash = [8], bOffset = 2, bSize = 1\<rparr> (FdWriteAt [8] 2)" by code_simp
  then obtain x where x: "(pull_step sha_sample pull_env0 copy_cfg0 (cbBlocks cs))\<^sup>*\<^sup>* (startPulling (cbState cs) (cbBlocks cs)) x"
      "finished x = [None]" using ready_run [OF cs(2)] by blast
  have empty: "sha_sample [] = SHA256OfNothing" by (simp add: sha_sample_def)
  have scan: "Blocks sha_sample (\<lambda>_. False) (D, False) (int 2) (int (length D)) = Ok (blockList sha_sample 2 D)" for D
    by (rule Blocks_list [where sha = sha_sample, OF _ empty]) simp_all
  have "contentOf pull_env0 (length (fsLog (cbState cs))) [7, 7] (shared x) = [7, 7, 8]"
  proof (rule file_fetched_content [where B = 2 and hc = handle_cfg0 and f = file_sample])
    show "Blocks sha_sample (\<lambda>_. False) ([7, 7, 8], False) (int 2) (int (length [7, 7, 8 :: byte])) = Ok (fBlocks file_sample)"
      unfolding scan by (simp add: file_sample_def)
    show "Some (blockList sha_sample 2 [7, 7]) = None \<or> (\<exists>tb. Blocks sha_sample (\<lambda>_. False) ([7, 7], False) (int 2) (int (length [7, 7 :: byte])) = Ok tb
        \<and> Some (blockList sha_sample 2 [7, 7]) = Some tb)" unfolding scan by simp
    show "plain_file (length [7, 7, 8 :: byte]) file_sample" "\<not> fTruncated file_sample"
      by (simp_all add: plain_file_def file_sample_def fi_blank_def IsSymlink_def)
    show "truncates pull_env0" by (simp add: truncates_def pull_env0_def)
  qed (use x hc cs(1) empty zeros_known_sample collision_free_sample in \<open>simp_all add: copy_cfg0_def handle0_def\<close>)
  then show ?thesis using cs x by blast
qed

definition handle_cfg1 :: handle_cfg where
  "handle_cfg1 = handle_cfg0\<lparr>hcCopy := copy_cfg0\<lparr>disableSparse := True\<rparr>\<rparr>"

lemma handle_dense:
  "(case handle0 handle_cfg1 [7, 7, 1, 9, 9] of
      Ok cs \<Rightarrow> ready \<lparr>bHash = [8], bOffset = 2, bSize = 1\<rparr> cs \<and> fsLog (cbState cs) = []
        \<and> (case tempFile pull_env0 (cbState cs) of
              Ok (e, s1) \<Rightarrow> contentOf pull_env0 0 [7, 7, 1, 9, 9] s1 = [7, 7, 1, 9, 9] | _ \<Rightarrow> False)
    | _ \<Rightarrow> False)"
  by code_simp

lemma playFrom_append: "playFrom env log C (xs @ ys) = playFrom env (log @ xs) (playFrom env log C xs) ys"
  by (induction xs arbitrary: log C) simp_all

text \<open>
  Claim C38. Where sparse files are disabled, the temporary file is not truncated to the size of the
  file. A file that became shorter while it was fetched can then be finished, without an
  error, with the end of its old temporary file still behind the new content: here \<open>[7, 7, 8]\<close>
  is fetched over \<open>[7, 7, 1, 9, 9]\<close>.
\<close>

theorem stale_tail_kept:
  "\<exists>cs x. handle0 handle_cfg1 [7, 7, 1, 9, 9] = Ok cs
     \<and> (pull_step sha_sample pull_env0 (hcCopy handle_cfg1) (cbBlocks cs))\<^sup>*\<^sup>* (startPulling (cbState cs) (cbBlocks cs)) x
     \<and> finished x = [None]
     \<and> contentOf pull_env0 (length (fsLog (cbState cs))) [7, 7, 1, 9, 9] (shared x) = [7, 7, 8, 9, 9]"
proof -
  let ?b = "\<lparr>bHash = [8], bOffset = 2, bSize = 1\<rparr> :: BlockInfo"
  obtain cs where cs: "handle0 handle_cfg1 [7, 7, 1, 9, 9] = Ok cs" "ready ?b cs" "fsLog (cbState cs) = []"
      "case tempFile pull_env0 (cbState cs) of Ok (e, s1) \<Rightarrow> contentOf pull_env0 0 [7, 7, 1, 9, 9] s1 = [7, 7, 1, 9, 9] | _ \<Rightarrow> False"
    using handle_dense by (auto split: result.splits)
  have "copyCall sha_sample (hcCopy handle_cfg1) ?b (FdWriteAt [8] 2)" by code_simp
  from ready_run [OF cs(2) this] obtain x s1 where
    x: "(pull_step sha_sample pull_env0 (hcCopy handle_cfg1) (cbBlocks cs))\<^sup>*\<^sup>* (startPulling (cbState cs) (cbBlocks cs)) x" "finished x = [None]"
    and t: "tempFile pull_env0 (cbState cs) = Ok (None, s1)"
    and log: "fsLog (shared x) = fsLog s1 @ FdWriteAt [8] 2 # (if fsync s1 then [FdSync] else []) @ [FdClose, FsUnhide (tempName s1)]"
    by blast
  have "contentOf pull_env0 0 [7, 7, 1, 9, 9] s1 = [7, 7, 1, 9, 9]" using cs(4) t by simp
  then have "contentOf pull_env0 0 [7, 7, 1, 9, 9] (shared x) = [7, 7, 8, 9, 9]"
    using log by (simp add: contentOf_def playFrom_append perform_def pull_env0_def)
  then show ?thesis using cs(1,3) x by auto
qed

end
