(* ===== verification/Disk_Item.thy ===== *)
theory Disk_Item
  imports File_Pull "HOL-Library.State_Monad"
begin

unbundle bit_operations_syntax

text \<open>
  Items on disk, as the changes made to them need them: \<open>CreateFileInfo\<close> of
  \<open>lib/scanner/walk.go\<close>, the helpers of \<open>lib/osutil\<close> and \<open>inWritableDir\<close> of \<open>lib/model/util.go\<close>.

  Whatever is asked of the file system or of the database is an event of a trace, and what comes
  back is an argument of the model, a function of the events before it: others may change the
  disk at any time. The operations are programs of the state monad on that trace.
\<close>

section \<open>Errors, calls and events\<close>

text \<open>Errors of the file system, as far as the code tells them apart.\<close>

datatype ferr = NotExist | PermissionDenied | CaseConflict string | XattrsNotSupported | OtherErr string

datatype item_err =
    FsE ferr
  | Wrap string item_err
  | ErrModified
  | ErrDirHasToBeScanned
  | ErrDirHasIgnored
  | ErrDirNotEmpty
  | ErrUnexpectedDirOnFileDel
  | ErrIncompatibleSymlink
  | ErrNotAvailable
  | ErrNoSpace
  | ErrWindowsName
  | TraversesSymlinkError string
  | NotADirectoryError string
  | ErrNotADirectory string
  | ErrPathInvalid
  | ErrPathTraversingUpwards
  | ErrDatabase

fun errRoot :: "item_err \<Rightarrow> item_err" where
  "errRoot (Wrap ctx e) = errRoot e"
| "errRoot e = e"

definition IsNotExist :: "item_err \<Rightarrow> bool" where
  "IsNotExist e \<longleftrightarrow> errRoot e = FsE NotExist"

definition IsPermission :: "item_err \<Rightarrow> bool" where
  "IsPermission e \<longleftrightarrow> errRoot e = FsE PermissionDenied"

definition IsErrCaseConflict :: "item_err \<Rightarrow> bool" where
  "IsErrCaseConflict e \<longleftrightarrow> (case errRoot e of FsE (CaseConflict real) \<Rightarrow> True | _ \<Rightarrow> False)"

text \<open>\<open>fs.FileInfo\<close>: mode, size, modification time and kind.\<close>

record fs_info =
  fiMode :: u32
  fiSize :: int
  fiModTime :: go_time
  fiIsDir :: bool
  fiIsRegular :: bool
  fiIsSymlink :: bool

datatype disk_op =
    OpRemove string
  | OpRename string string
  | OpArchive string
  | OpCopy string string
  | OpMkdir string u32
  | OpMkdirAll string u32
  | OpSymlink "byte list" string
  | OpChmod string u32
  | OpChtimes string go_time
  | OpSetXattr string "Xattr list"
  | OpLchown string
  | OpTrailer string

datatype dbUpdateType =
    dbUpdateHandleDir
  | dbUpdateDeleteDir
  | dbUpdateHandleFile
  | dbUpdateDeleteFile
  | dbUpdateShortcutFile
  | dbUpdateHandleSymlink
  | dbUpdateInvalidate

datatype event =
    EvLstat string "ferr + fs_info"
  | EvStat string "ferr + fs_info"
  | EvPlatform string "ferr + PlatformData"
  | EvReadlink string "ferr + byte list"
  | EvGlob string "string list"
  | EvDb string "item_err + FileInfo option"
  | EvOp disk_op "ferr option"
  | EvJob FileInfo dbUpdateType
  | EvScan string
  | EvError string item_err

type_synonym trace = "event list"

datatype remoteFolderState = remoteFolderUnknown | remoteFolderNotSharing | remoteFolderPaused | remoteFolderValid

text \<open>
  The surroundings: the answers of the file system, the database at each moment, the contents of
  walked directories, and what \<open>ignores\<close>, the clock, the space
  check and \<open>strings.EqualFold\<close> say.
\<close>

record item_env =
  lstatOf :: "trace \<Rightarrow> string \<Rightarrow> ferr + fs_info"
  statOf :: "trace \<Rightarrow> string \<Rightarrow> ferr + fs_info"
  platformOf :: "trace \<Rightarrow> string \<Rightarrow> ferr + PlatformData"
  readlinkOf :: "trace \<Rightarrow> string \<Rightarrow> ferr + byte list"
  globOf :: "trace \<Rightarrow> string \<Rightarrow> string list"
  opErr :: "trace \<Rightarrow> disk_op \<Rightarrow> ferr option"
  dbEnv :: db_env
  dbAt :: "trace \<Rightarrow> folderDB"
  walkOf :: "trace \<Rightarrow> string \<Rightarrow> (string \<times> (ferr + fs_info)) list"
  ignoreMatch :: "string \<Rightarrow> 8 word"
  spaceErr :: "trace \<Rightarrow> int \<Rightarrow> bool"
  remoteFolderStates :: "trace \<Rightarrow> DeviceID \<Rightarrow> (string \<Rightarrow> remoteFolderState option) option"
  deviceConnected :: "trace \<Rightarrow> DeviceID \<Rightarrow> bool"
  icFolder :: string
  timeStamp :: "trace \<Rightarrow> string"
  shaOf :: "byte list \<Rightarrow> byte list"
  equalFold :: "string \<Rightarrow> string \<Rightarrow> bool"
  trailerOf :: "FileInfo \<Rightarrow> int"

record item_cfg =
  icOS :: goos
  icAndroid :: bool
  icReceiveOnly :: bool
  icReceiveEncrypted :: bool
  icIgnorePerms :: bool
  icIgnoreDelete :: bool
  icSyncOwnership :: bool
  icSyncXattrs :: bool
  icCopyOwnershipFromParent :: bool
  icVersioner :: bool
  icMaxConflicts :: int
  icModTimeWindow :: int

abbreviation isWindows :: "item_cfg \<Rightarrow> bool" where
  "isWindows cfg \<equiv> icOS cfg = OS_Windows"

section \<open>Programs\<close>

type_synonym 'a prog = "(trace, 'a) state"

abbreviation ret :: "'a \<Rightarrow> 'a prog" where "ret \<equiv> State_Monad.return"

definition emit :: "event \<Rightarrow> unit prog" where
  "emit ev = State (\<lambda>tr. ((), tr @ [ev]))"

text \<open>Asking the surroundings: the answer depends on the trace and is recorded in it.\<close>

definition ask :: "(trace \<Rightarrow> 'a) \<Rightarrow> ('a \<Rightarrow> event) \<Rightarrow> 'a prog" where
  "ask answer ev = State (\<lambda>tr. (answer tr, tr @ [ev (answer tr)]))"

definition peek :: "(trace \<Rightarrow> 'a) \<Rightarrow> 'a prog" where
  "peek answer = State (\<lambda>tr. (answer tr, tr))"

definition Lstat :: "item_env \<Rightarrow> string \<Rightarrow> (ferr + fs_info) prog" where
  "Lstat env n = ask (\<lambda>tr. lstatOf env tr n) (EvLstat n)"

definition Stat :: "item_env \<Rightarrow> string \<Rightarrow> (ferr + fs_info) prog" where
  "Stat env n = ask (\<lambda>tr. statOf env tr n) (EvStat n)"

definition Glob :: "item_env \<Rightarrow> string \<Rightarrow> string list prog" where
  "Glob env pat = ask (\<lambda>tr. globOf env tr pat) (EvGlob pat)"

definition exec :: "item_env \<Rightarrow> disk_op \<Rightarrow> item_err option prog" where
  "exec env c = do { e \<leftarrow> ask (\<lambda>tr. opErr env tr c) (EvOp c); ret (map_option FsE e) }"

definition lookupFile :: "item_env \<Rightarrow> trace \<Rightarrow> string \<Rightarrow> item_err + FileInfo option" where
  "lookupFile env tr n =
     (case GetDeviceFile (dbEnv env) LocalDeviceID n (dbAt env tr) of Ok r \<Rightarrow> Inr r | _ \<Rightarrow> Inl ErrDatabase)"

definition GetLocal :: "item_env \<Rightarrow> string \<Rightarrow> (item_err + FileInfo option) prog" where
  "GetLocal env n = ask (\<lambda>tr. lookupFile env tr n) (EvDb n)"

definition newPullError :: "string \<Rightarrow> item_err \<Rightarrow> unit prog" where
  "newPullError path err = emit (EvError path err)"

definition sendJob :: "FileInfo \<Rightarrow> dbUpdateType \<Rightarrow> unit prog" where
  "sendJob f t = emit (EvJob f t)"

definition sendScan :: "string \<Rightarrow> unit prog" where
  "sendScan path = emit (EvScan path)"

section \<open>What is on disk\<close>

text \<open>\<open>CreateFileInfo\<close>, given what reading the platform data and the link returns.\<close>

definition createInfo ::
  "fs_info \<Rightarrow> string \<Rightarrow> PlatformData \<Rightarrow> byte list \<Rightarrow> FileInfo" where
  "createInfo fi name plat target =
     (let f = fi_blank\<lparr>fName := name, fPlatform := plat\<rparr> in
      if fiIsSymlink fi then f\<lparr>fType := FileInfoTypeSymlink, fSymlinkTarget := target, fNoPermissions := True\<rparr>
      else let f = f\<lparr>fPermissions := fiMode fi AND 511,
                     fModifiedS := tSec (fiModTime fi) - unixToInternal, fModifiedNs := tNsec (fiModTime fi)\<rparr> in
        if fiIsDir fi then f\<lparr>fType := FileInfoTypeDirectory\<rparr>
        else f\<lparr>fSize := fiSize fi, fType := FileInfoTypeFile\<rparr>)"

definition CreateFileInfo :: "item_env \<Rightarrow> item_cfg \<Rightarrow> fs_info \<Rightarrow> string \<Rightarrow> (item_err + FileInfo) prog" where
  "CreateFileInfo env cfg fi name = do {
     plat \<leftarrow> (if icSyncOwnership cfg \<or> icSyncXattrs cfg
              then ask (\<lambda>tr. platformOf env tr name) (EvPlatform name) else ret (Inr emptyPlatformData));
     case plat of
       Inl e \<Rightarrow> ret (Inl (Wrap ''reading platform data'' (FsE e)))
     | Inr plat \<Rightarrow>
         if fiIsSymlink fi then do {
           target \<leftarrow> ask (\<lambda>tr. readlinkOf env tr name) (EvReadlink name);
           ret (case target of Inl e \<Rightarrow> Inl (FsE e) | Inr t \<Rightarrow> Inr (createInfo fi name plat t))
         } else ret (Inr (createInfo fi name plat []))
   }"

section \<open>Paths and directories\<close>

definition Canonicalize :: "string \<Rightarrow> item_err + string" where
  "Canonicalize file0 =
     (if prefix [slash, slash] file0 then Inl ErrPathInvalid
      else let fn = Clean file0 in
        if fn = dotdot then Inl ErrPathTraversingUpwards
        else if prefix (dotdot @ [slash]) fn then Inl ErrPathTraversingUpwards
        else if prefix [slash] fn then (if fn = [slash] then Inr dot else Inr (drop 1 fn))
        else Inr fn)"

definition PathComponents :: "string \<Rightarrow> string list" where
  "PathComponents path = split_on slash path"

fun traverseParts :: "item_env \<Rightarrow> string \<Rightarrow> string list \<Rightarrow> item_err option prog" where
  "traverseParts env path [] = ret None"
| "traverseParts env path (part # parts) =
     (let path = (if path = [] then Clean part else Clean (path @ [slash] @ part)) in do {
        info \<leftarrow> Lstat env path;
        case info of
          Inl e \<Rightarrow> ret (if IsNotExist (FsE e) then None else Some (FsE e))
        | Inr info \<Rightarrow>
            if fiIsSymlink info then ret (Some (TraversesSymlinkError path))
            else if \<not> fiIsDir info then ret (Some (NotADirectoryError path))
            else traverseParts env path parts })"

definition TraversesSymlink :: "item_env \<Rightarrow> string \<Rightarrow> item_err option prog" where
  "TraversesSymlink env name =
     (case Canonicalize name of
        Inl e \<Rightarrow> ret (Some e)
      | Inr name \<Rightarrow> if name = dot then ret None else traverseParts env [] (PathComponents name))"

definition withWritableDir ::
  "item_env \<Rightarrow> (string \<Rightarrow> item_err option prog) \<Rightarrow> string \<Rightarrow> item_err option prog" where
  "withWritableDir env fn path =
     (let dir = path_Dir path in do {
        info \<leftarrow> Stat env dir;
        case info of
          Inl e \<Rightarrow> ret (Some (FsE e))
        | Inr info \<Rightarrow>
            if \<not> fiIsDir info then ret (Some (ErrNotADirectory path))
            else let mode = fiMode info AND permBits in
              if mode AND 128 = 0 then do {
                parentErr \<leftarrow> exec env (OpChmod dir (mode OR 448));
                err \<leftarrow> fn path;
                case parentErr of
                  None \<Rightarrow> do { _ \<leftarrow> exec env (OpChmod dir mode); ret err }
                | Some _ \<Rightarrow> ret (case err of
                    Some e \<Rightarrow> Some (if IsPermission e then Wrap ''error after failing to make parent directory writable'' e else e)
                  | None \<Rightarrow> None)
              } else fn path })"

definition withPreparedTarget ::
  "item_env \<Rightarrow> item_cfg \<Rightarrow> string \<Rightarrow> string \<Rightarrow> item_err option prog \<Rightarrow> item_err option prog" where
  "withPreparedTarget env cfg src dst f =
     (let toDir = path_Dir dst in do {
        info \<leftarrow> Stat env toDir;
        let restore = (case info of Inr i \<Rightarrow> if fiIsDir i \<and> fiMode i AND 128 = 0 then Some (fiMode i) else None | Inl _ \<Rightarrow> None);
        _ \<leftarrow> (if restore \<noteq> None then exec env (OpChmod toDir 493) else ret None);
        err \<leftarrow> (if isWindows cfg then do {
                   _ \<leftarrow> exec env (OpChmod dst 438);
                   if \<not> equalFold env src dst then do {
                     e \<leftarrow> exec env (OpRemove dst);
                     case e of
                       Some x \<Rightarrow> if \<not> IsNotExist x then ret e else f
                     | None \<Rightarrow> f
                   } else f
                 } else f);
        _ \<leftarrow> (case restore of Some m \<Rightarrow> exec env (OpChmod toDir m) | None \<Rightarrow> ret None);
        ret err })"

text \<open>Source and destination are on the file system of the folder, so the first optimisation applies.\<close>

definition RenameOrCopy :: "item_env \<Rightarrow> item_cfg \<Rightarrow> string \<Rightarrow> string \<Rightarrow> item_err option prog" where
  "RenameOrCopy env cfg src dst = withPreparedTarget env cfg src dst (exec env (OpRename src dst))"

definition osutilCopy :: "item_env \<Rightarrow> item_cfg \<Rightarrow> string \<Rightarrow> string \<Rightarrow> item_err option prog" where
  "osutilCopy env cfg src dst = withPreparedTarget env cfg src dst (exec env (OpCopy src dst))"

text \<open>\<open>WindowsInvalidFilename\<close> of \<open>lib/fs/util.go\<close>. The letters of the reserved names have no other lower-case forms.\<close>

definition windowsDisallowedCharacters :: "char \<Rightarrow> bool" where
  "windowsDisallowedCharacters c \<longleftrightarrow> (of_char c :: nat) < 32
     \<or> c \<in> {CHR 0x3C, CHR 0x3E, CHR 0x3A, CHR 0x22, CHR 0x7C, CHR 0x3F, CHR 0x2A}"

definition asciiUpper :: "char \<Rightarrow> char" where
  "asciiUpper c = (let n = of_char c :: nat in if 97 \<le> n \<and> n \<le> 122 then char_of (n - 32) else c)"

definition windowsReservedNamePart :: "string \<Rightarrow> string" where
  "windowsReservedNamePart part0 =
     (let part = takeWhile (\<lambda>c. c \<noteq> CHR 0x2E) part0;
          digits = map (\<lambda>d. [digit_char d]) [0..<10]
      in if length part \<noteq> 3 \<and> length part \<noteq> 4 then []
         else if map asciiUpper part \<in> set ([''CON'', ''PRN'', ''AUX'', ''NUL''] @ map (\<lambda>d. ''COM'' @ d) digits @ map (\<lambda>d. ''LPT'' @ d) digits)
         then part else [])"

definition windowsBadPart :: "string \<Rightarrow> bool" where
  "windowsBadPart part \<longleftrightarrow> part \<noteq> [] \<and> (last part = CHR 0x20 \<or> last part = CHR 0x2E \<or> windowsReservedNamePart part \<noteq> [])"

definition WindowsInvalidFilename :: "string \<Rightarrow> item_err option" where
  "WindowsInvalidFilename name =
     (if list_ex windowsDisallowedCharacters name then Some ErrWindowsName
      else if list_ex windowsBadPart (split_on (CHR 0x5C) name) then Some ErrWindowsName
      else None)"

end
