(* ===== verification/Item_Changes.thy ===== *)
theory Item_Changes
  imports Disk_Item
begin

text \<open>
  The changes a folder makes to items on disk other than fetching their contents: the handlers of
  \<open>lib/model/folder_sendrecv.go\<close> for directories, symbolic links, deletions, renames and changes
  of metadata only, the replacement of a file by the one that was fetched, and the checks before.
\<close>

section \<open>Checks\<close>

definition comparison :: "item_cfg \<Rightarrow> bool \<Rightarrow> FileInfoComparison" where
  "comparison cfg fromDelete =
     \<lparr>ModTimeWindow = icModTimeWindow cfg, IgnorePerms = icIgnorePerms cfg, IgnoreBlocks = True,
      IgnoreFlags = LocalAllFlags, IgnoreOwnership = fromDelete \<or> \<not> icSyncOwnership cfg,
      IgnoreXattrs = fromDelete \<or> \<not> icSyncXattrs cfg\<rparr>"

definition scanIfItemChanged ::
  "item_env \<Rightarrow> item_cfg \<Rightarrow> string \<Rightarrow> fs_info \<Rightarrow> FileInfo \<Rightarrow> bool \<Rightarrow> bool \<Rightarrow> item_err option prog" where
  "scanIfItemChanged env cfg name stat item hasItem fromDelete = do {
     err \<leftarrow> (if \<not> hasItem \<or> fDeleted item then ret (Some ErrModified)
            else do {
              statItem \<leftarrow> CreateFileInfo env cfg stat (fName item);
              ret (case statItem of
                     Inl e \<Rightarrow> Some (Wrap ''comparing item on disk to db'' e)
                   | Inr si \<Rightarrow>
                       if \<not> IsEquivalentOptional (icOS cfg) False si item (comparison cfg fromDelete) then Some ErrModified
                       else None)
            });
     _ \<leftarrow> (case err of Some e \<Rightarrow> if errRoot e = ErrModified then sendScan name else ret () | None \<Rightarrow> ret ());
     ret err }"

definition checkToBeDeleted ::
  "item_env \<Rightarrow> item_cfg \<Rightarrow> FileInfo \<Rightarrow> FileInfo \<Rightarrow> bool \<Rightarrow> item_err option prog" where
  "checkToBeDeleted env cfg f cur hasCur = do {
     sym \<leftarrow> TraversesSymlink env (path_Dir (fName f));
     if sym \<noteq> None then ret (Some (FsE NotExist))
     else do {
       stat \<leftarrow> Lstat env (fName f);
       case stat of
         Inl e \<Rightarrow>
           if IsNotExist (FsE e) \<or> IsErrCaseConflict (FsE e) then
             (if hasCur \<and> \<not> fDeleted cur \<and> \<not> IsUnsupported cur then do { _ \<leftarrow> sendScan (fName f); ret (Some ErrModified) }
              else ret (Some (FsE e)))
           else ret (Some (FsE e))
       | Inr st \<Rightarrow> scanIfItemChanged env cfg (fName f) st cur hasCur True
     } }"

definition syncOwnership :: "item_env \<Rightarrow> item_cfg \<Rightarrow> FileInfo \<Rightarrow> string \<Rightarrow> item_err option prog" where
  "syncOwnership env cfg f path =
     (if (if isWindows cfg then (case pWindows (fPlatform f) of None \<Rightarrow> True | Some w \<Rightarrow> winOwnerName w = [])
          else pUnix (fPlatform f) = None) then ret None
      else exec env (OpLchown path))"

definition copyOwnershipFromParent :: "item_env \<Rightarrow> item_cfg \<Rightarrow> string \<Rightarrow> item_err option prog" where
  "copyOwnershipFromParent env cfg path =
     (if isWindows cfg then ret None
      else do {
        info \<leftarrow> Lstat env (path_Dir path);
        case info of
          Inl e \<Rightarrow> ret (Some (Wrap ''copy owner from parent'' (FsE e)))
        | Inr _ \<Rightarrow> do { e \<leftarrow> exec env (OpLchown path); ret (map_option (Wrap ''copy owner from parent'') e) } })"

definition setPlatformData :: "item_env \<Rightarrow> item_cfg \<Rightarrow> FileInfo \<Rightarrow> string \<Rightarrow> item_err option prog" where
  "setPlatformData env cfg f name = do {
     xe \<leftarrow> (if icSyncXattrs cfg then do {
              e \<leftarrow> exec env (OpSetXattr name (PlatformData_Xattrs (icOS cfg) (fPlatform f)));
              ret (if e = Some (FsE XattrsNotSupported) then None else e)
            } else ret None);
     if xe \<noteq> None then ret xe
     else if icSyncOwnership cfg then syncOwnership env cfg f name
     else if icCopyOwnershipFromParent cfg then copyOwnershipFromParent env cfg name
     else ret None }"

section \<open>Removing what is in the way\<close>

definition conflictMark :: string where "conflictMark = ''.sync-conflict-''"

text \<open>\<open>filepath.Ext\<close>: from the last dot of the last component.\<close>

definition path_Ext :: "string \<Rightarrow> string" where
  "path_Ext name =
     (let tl_rev = takeWhile (\<lambda>c. c \<noteq> slash) (rev name) in
      if CHR 0x2E \<in> set tl_rev then CHR 0x2E # rev (takeWhile (\<lambda>c. c \<noteq> CHR 0x2E) tl_rev) else [])"

definition beforeExt :: "string \<Rightarrow> string" where
  "beforeExt name = take (length name - length (path_Ext name)) name"

definition conflictName :: "string \<Rightarrow> string \<Rightarrow> string \<Rightarrow> string" where
  "conflictName stamp name lastModBy = beforeExt name @ stamp @ lastModBy @ path_Ext name"

definition isConflict :: "string \<Rightarrow> bool" where
  "isConflict name \<longleftrightarrow> sublist conflictMark (path_Base name)"

definition conflictPattern :: "string \<Rightarrow> string" where
  "conflictPattern name = beforeExt name @ ''.sync-conflict-????????-??????*'' @ path_Ext name"

definition existingConflicts :: "item_env \<Rightarrow> string \<Rightarrow> string list prog" where
  "existingConflicts env name = Glob env (conflictPattern name)"

definition removingOldItem :: "item_err option \<Rightarrow> item_err option" where
  "removingOldItem e = map_option (Wrap ''removing item to be replaced'') e"

fun removeEach :: "item_env \<Rightarrow> string list \<Rightarrow> unit prog" where
  "removeEach env [] = ret ()"
| "removeEach env (n # ns) = do { _ \<leftarrow> exec env (OpRemove n); removeEach env ns }"

definition moveForConflict :: "item_env \<Rightarrow> item_cfg \<Rightarrow> string \<Rightarrow> string \<Rightarrow> item_err option prog" where
  "moveForConflict env cfg lastModBy name =
     (if isConflict name \<or> icMaxConflicts cfg = 0 then do {
        e \<leftarrow> exec env (OpRemove name);
        ret (case e of Some x \<Rightarrow> if \<not> IsNotExist x then removingOldItem e else None | None \<Rightarrow> None)
      } else do {
        stamp \<leftarrow> peek (timeStamp env);
        let newName = conflictName stamp name lastModBy;
        e \<leftarrow> exec env (OpRename name newName);
        let err = (case e of Some x \<Rightarrow> if IsNotExist x then None else e | None \<Rightarrow> None);
        _ \<leftarrow> (if icMaxConflicts cfg > - 1 then do {
               matches \<leftarrow> existingConflicts env name;
               if int (length matches) > icMaxConflicts cfg
               then removeEach env (drop (nat (icMaxConflicts cfg)) (rev (sort matches)))
               else ret ()
             } else ret ());
        _ \<leftarrow> (if err = None then sendScan newName else ret ());
        ret err })"

text \<open>The result of \<open>ignores.Match\<close>.\<close>

definition R_IsIgnored :: "8 word \<Rightarrow> bool" where "R_IsIgnored r \<longleftrightarrow> r AND 1 \<noteq> 0"
definition R_IsDeletable :: "8 word \<Rightarrow> bool" where "R_IsDeletable r \<longleftrightarrow> R_IsIgnored r \<and> r AND 2 \<noteq> 0"

record child_state =
  csDirsToDelete :: "string list"
  csHasIgnored :: bool
  csHasKnown :: bool
  csHasToBeScanned :: bool
  csHasReceiveOnlyChanged :: bool
  csDelErr :: "item_err option"

definition firstErr :: "item_err option \<Rightarrow> item_err option \<Rightarrow> item_err option" where
  "firstErr e new = (case e of None \<Rightarrow> new | Some _ \<Rightarrow> e)"

text \<open>The function called for an item of the directory; an error ends the walk.\<close>

definition visitChild ::
  "item_env \<Rightarrow> item_cfg \<Rightarrow> string \<Rightarrow> string \<Rightarrow> ferr + fs_info \<Rightarrow> child_state \<Rightarrow> (item_err option \<times> child_state) prog" where
  "visitChild env cfg dir path info s =
     (if path = dir then ret (None, s)
      else case info of
        Inl e \<Rightarrow> ret (Some (FsE e), s)
      | Inr info \<Rightarrow>
          let match = ignoreMatch env path in
          if R_IsDeletable match \<and> fiIsDir info then ret (None, s\<lparr>csDirsToDelete := csDirsToDelete s @ [path]\<rparr>)
          else if R_IsDeletable match \<or> IsTemporary path then do {
            e \<leftarrow> exec env (OpRemove path);
            ret (None, s\<lparr>csDelErr := firstErr (csDelErr s) e\<rparr>)
          }
          else if R_IsIgnored match then ret (None, s\<lparr>csHasIgnored := True\<rparr>)
          else do {
            cur \<leftarrow> GetLocal env path;
            case cur of
              Inl e \<Rightarrow> ret (Some e, s)
            | Inr None \<Rightarrow> do { _ \<leftarrow> sendScan path; ret (None, s\<lparr>csHasToBeScanned := True\<rparr>) }
            | Inr (Some cf) \<Rightarrow>
                if fDeleted cf then do { _ \<leftarrow> sendScan path; ret (None, s\<lparr>csHasToBeScanned := True\<rparr>) }
                else if icReceiveOnly cfg \<and> IsReceiveOnlyChanged cf then ret (None, s\<lparr>csHasReceiveOnlyChanged := True\<rparr>)
                else do {
                  diskFile \<leftarrow> CreateFileInfo env cfg info path;
                  case diskFile of
                    Inl _ \<Rightarrow> do { _ \<leftarrow> sendScan path; ret (None, s\<lparr>csHasToBeScanned := True\<rparr>) }
                  | Inr df \<Rightarrow>
                      if \<not> IsEquivalentOptional (icOS cfg) False cf df (comparison cfg False)
                      then do { _ \<leftarrow> sendScan path; ret (None, s\<lparr>csHasToBeScanned := True\<rparr>) }
                      else ret (None, s\<lparr>csHasKnown := True\<rparr>)
                }
          })"

fun walkChildren ::
  "item_env \<Rightarrow> item_cfg \<Rightarrow> string \<Rightarrow> (string \<times> (ferr + fs_info)) list \<Rightarrow> child_state \<Rightarrow> (item_err option \<times> child_state) prog" where
  "walkChildren env cfg dir [] s = ret (None, s)"
| "walkChildren env cfg dir ((path, info) # rest) s = do {
     (e, s') \<leftarrow> visitChild env cfg dir path info s;
     if e \<noteq> None then ret (e, s') else walkChildren env cfg dir rest s' }"

fun deleteDirs :: "item_env \<Rightarrow> string list \<Rightarrow> item_err option \<Rightarrow> item_err option prog" where
  "deleteDirs env [] delErr = ret delErr"
| "deleteDirs env (d # ds) delErr = do { e \<leftarrow> exec env (OpRemove d); deleteDirs env ds (firstErr delErr e) }"

definition deleteDirOnDiskHandleChildren :: "item_env \<Rightarrow> item_cfg \<Rightarrow> string \<Rightarrow> item_err option prog" where
  "deleteDirOnDiskHandleChildren env cfg dir = do {
     entries \<leftarrow> peek (\<lambda>tr. walkOf env tr dir);
     (err, s) \<leftarrow> walkChildren env cfg dir entries
       \<lparr>csDirsToDelete = [], csHasIgnored = False, csHasKnown = False, csHasToBeScanned = False,
        csHasReceiveOnlyChanged = False, csDelErr = None\<rparr>;
     if err \<noteq> None then ret err
     else do {
       delErr \<leftarrow> deleteDirs env (rev (csDirsToDelete s)) (csDelErr s);
       if csHasToBeScanned s then ret (Some ErrDirHasToBeScanned)
       else if csHasIgnored s then ret (Some ErrDirHasIgnored)
       else if csHasReceiveOnlyChanged s then do { _ \<leftarrow> sendScan dir; ret None }
       else if csHasKnown s then ret (Some ErrDirNotEmpty)
       else ret delErr
     } }"

definition deleteDirOnDisk :: "item_env \<Rightarrow> item_cfg \<Rightarrow> string \<Rightarrow> item_err option prog" where
  "deleteDirOnDisk env cfg dir = do {
     sym \<leftarrow> TraversesSymlink env (path_Dir dir);
     if sym \<noteq> None then ret sym
     else do {
       ce \<leftarrow> deleteDirOnDiskHandleChildren env cfg dir;
       if ce \<noteq> None then ret ce
       else do {
         err \<leftarrow> withWritableDir env (\<lambda>p. exec env (OpRemove p)) dir;
         case err of
           None \<Rightarrow> ret None
         | Some e \<Rightarrow>
             if IsNotExist e then ret None
             else do {
               st \<leftarrow> Lstat env dir;
               ret (case st of Inl se \<Rightarrow> if \<not> IsPermission (FsE se) then None else err | Inr _ \<Rightarrow> err)
             }
       } } }"

definition deleteItemOnDisk :: "item_env \<Rightarrow> item_cfg \<Rightarrow> FileInfo \<Rightarrow> item_err option prog" where
  "deleteItemOnDisk env cfg item = do {
     err \<leftarrow> (if IsDirectory item then deleteDirOnDisk env cfg (fName item)
            else if \<not> IsSymlink item \<and> icVersioner cfg then withWritableDir env (\<lambda>p. exec env (OpArchive p)) (fName item)
            else withWritableDir env (\<lambda>p. exec env (OpRemove p)) (fName item));
     ret (removingOldItem err) }"

section \<open>Directories and symbolic links\<close>

definition retainBits :: u32 where
  "retainBits = push_bit 22 1 OR push_bit 23 1 OR push_bit 20 1"

text \<open>Moving an item aside as a conflict copy, or removing it.\<close>

definition makeRoom :: "item_env \<Rightarrow> item_cfg \<Rightarrow> bool \<Rightarrow> FileInfo \<Rightarrow> FileInfo \<Rightarrow> item_err option prog" where
  "makeRoom env cfg conflict f curF =
     (if conflict then withWritableDir env (moveForConflict env cfg (ShortID_String (fModifiedBy f))) (fName curF)
      else deleteItemOnDisk env cfg curF)"

definition makeDir :: "item_env \<Rightarrow> item_cfg \<Rightarrow> FileInfo \<Rightarrow> u32 \<Rightarrow> string \<Rightarrow> item_err option prog" where
  "makeDir env cfg f mode path = do {
     e \<leftarrow> exec env (OpMkdir path mode);
     if e \<noteq> None then ret e
     else do {
       pe \<leftarrow> setPlatformData env cfg f path;
       if pe \<noteq> None then ret pe
       else if icIgnorePerms cfg \<or> fNoPermissions f then ret None
       else do {
         info \<leftarrow> Lstat env path;
         case info of
           Inl x \<Rightarrow> ret (Some (FsE x))
         | Inr i \<Rightarrow> exec env (OpChmod path (mode OR (fiMode i AND retainBits)))
       } } }"

definition createDir :: "item_env \<Rightarrow> item_cfg \<Rightarrow> FileInfo \<Rightarrow> u32 \<Rightarrow> unit prog" where
  "createDir env cfg f mode = do {
     err \<leftarrow> withWritableDir env (makeDir env cfg f mode) (fName f);
     case err of
       None \<Rightarrow> sendJob f dbUpdateHandleDir
     | Some e \<Rightarrow> newPullError (fName f) (Wrap ''creating directory'' e) }"

definition handleDir :: "item_env \<Rightarrow> item_cfg \<Rightarrow> FileInfo \<Rightarrow> unit prog" where
  "handleDir env cfg f =
     (let mode = (if icIgnorePerms cfg \<or> fNoPermissions f then 511 else fPermissions f AND 511) in do {
        info \<leftarrow> Lstat env (fName f);
        case info of
          Inr i \<Rightarrow>
            if \<not> fiIsDir i then do {
              cur \<leftarrow> GetLocal env (fName f);
              case cur of
                Inl e \<Rightarrow> newPullError (fName f) (Wrap ''handling dir'' e)
              | Inr cur \<Rightarrow> let curF = (case cur of Some c \<Rightarrow> c | None \<Rightarrow> fi_blank) in do {
                  ce \<leftarrow> scanIfItemChanged env cfg (fName f) i curF (cur \<noteq> None) False;
                  case ce of
                    Some e \<Rightarrow> newPullError (fName f) (Wrap ''handling dir'' e)
                  | None \<Rightarrow> do {
                      err \<leftarrow> makeRoom env cfg (\<not> IsSymlink curF \<and> InConflictWith f curF) f curF;
                      case err of
                        Some e \<Rightarrow> newPullError (fName f) e
                      | None \<Rightarrow> createDir env cfg f mode } }
            }
            else if \<not> icIgnorePerms cfg \<and> \<not> fNoPermissions f then do {
              e \<leftarrow> exec env (OpChmod (fName f) (mode OR (fiMode i AND retainBits)));
              case e of
                Some x \<Rightarrow> newPullError (fName f) (Wrap ''handling dir (setting permissions)'' x)
              | None \<Rightarrow> do {
                  pe \<leftarrow> setPlatformData env cfg f (fName f);
                  case pe of
                    Some x \<Rightarrow> newPullError (fName f) (Wrap ''handling dir (setting metadata)'' x)
                  | None \<Rightarrow> sendJob f dbUpdateHandleDir }
            }
            else sendJob f dbUpdateHandleDir
        | Inl e \<Rightarrow>
            if IsNotExist (FsE e) then createDir env cfg f mode
            else newPullError (fName f) (Wrap ''checking file to be replaced'' (FsE e)) })"

definition checkParent :: "item_env \<Rightarrow> item_cfg \<Rightarrow> string \<Rightarrow> bool prog" where
  "checkParent env cfg fn =
     (let parent = path_Dir fn in do {
        sym \<leftarrow> TraversesSymlink env parent;
        case sym of
          Some e \<Rightarrow> do { _ \<leftarrow> newPullError fn (Wrap ''checking parent dirs'' e); ret False }
        | None \<Rightarrow> do {
            info \<leftarrow> Lstat env parent;
            if (case info of Inl e \<Rightarrow> \<not> IsNotExist (FsE e) | Inr _ \<Rightarrow> True) then ret True
            else do {
              e \<leftarrow> exec env (OpMkdirAll parent 493);
              case e of
                Some x \<Rightarrow> do { _ \<leftarrow> newPullError fn (Wrap ''creating parent dir'' x); ret False }
              | None \<Rightarrow> do { _ \<leftarrow> (if \<not> icReceiveEncrypted cfg then sendScan parent else ret ()); ret True }
            } } })"

definition handleSymlinkCheckExisting :: "item_env \<Rightarrow> item_cfg \<Rightarrow> FileInfo \<Rightarrow> item_err option prog" where
  "handleSymlinkCheckExisting env cfg f = do {
     info \<leftarrow> Lstat env (fName f);
     case info of
       Inl e \<Rightarrow> ret (if IsNotExist (FsE e) then None else Some (FsE e))
     | Inr i \<Rightarrow> do {
         cur \<leftarrow> GetLocal env (fName f);
         case cur of
           Inl e \<Rightarrow> ret (Some e)
         | Inr cur \<Rightarrow> let curF = (case cur of Some c \<Rightarrow> c | None \<Rightarrow> fi_blank) in do {
             ce \<leftarrow> scanIfItemChanged env cfg (fName f) i curF (cur \<noteq> None) False;
             if ce \<noteq> None then ret ce
             else makeRoom env cfg (\<not> IsDirectory curF \<and> \<not> IsSymlink curF \<and> InConflictWith f curF) f curF
         } } }"

definition createLink :: "item_env \<Rightarrow> item_cfg \<Rightarrow> FileInfo \<Rightarrow> string \<Rightarrow> item_err option prog" where
  "createLink env cfg f path = do {
     e \<leftarrow> exec env (OpSymlink (fSymlinkTarget f) path);
     if e \<noteq> None then ret e else setPlatformData env cfg f path }"

definition handleSymlink :: "item_env \<Rightarrow> item_cfg \<Rightarrow> FileInfo \<Rightarrow> unit prog" where
  "handleSymlink env cfg f =
     (if length (fSymlinkTarget f) = 0 then newPullError (fName f) ErrIncompatibleSymlink
      else do {
        ce \<leftarrow> handleSymlinkCheckExisting env cfg f;
        case ce of
          Some e \<Rightarrow> newPullError (fName f) (Wrap ''handling symlink'' e)
        | None \<Rightarrow> do {
            err \<leftarrow> withWritableDir env (createLink env cfg f) (fName f);
            case err of
              None \<Rightarrow> sendJob f dbUpdateHandleSymlink
            | Some e \<Rightarrow> newPullError (fName f) (Wrap ''symlink create'' e) } })"

section \<open>Deletions\<close>

definition deleteDir :: "item_env \<Rightarrow> item_cfg \<Rightarrow> FileInfo \<Rightarrow> unit prog" where
  "deleteDir env cfg f = do {
     cur \<leftarrow> GetLocal env (fName f);
     case cur of
       Inl e \<Rightarrow> newPullError (fName f) (Wrap ''delete dir'' e)
     | Inr cur \<Rightarrow> do {
         ce \<leftarrow> checkToBeDeleted env cfg f (case cur of Some c \<Rightarrow> c | None \<Rightarrow> fi_blank) (cur \<noteq> None);
         case ce of
           Some e \<Rightarrow>
             if IsNotExist e \<or> IsErrCaseConflict e then sendJob f dbUpdateDeleteDir
             else newPullError (fName f) (Wrap ''delete dir'' e)
         | None \<Rightarrow> do {
             err \<leftarrow> deleteDirOnDisk env cfg (fName f);
             case err of
               Some e \<Rightarrow> newPullError (fName f) (Wrap ''delete dir'' e)
             | None \<Rightarrow> sendJob f dbUpdateDeleteDir } } }"

definition deleteFileWithCurrent :: "item_env \<Rightarrow> item_cfg \<Rightarrow> FileInfo \<Rightarrow> FileInfo \<Rightarrow> bool \<Rightarrow> unit prog" where
  "deleteFileWithCurrent env cfg f cur hasCur = do {
     ce \<leftarrow> checkToBeDeleted env cfg f cur hasCur;
     case ce of
       Some e \<Rightarrow>
         if IsNotExist e \<or> IsErrCaseConflict e then sendJob f dbUpdateDeleteFile
         else newPullError (fName f) (Wrap ''delete file'' e)
     | None \<Rightarrow>
         if IsDirectory cur then newPullError (fName f) (Wrap ''delete file'' ErrUnexpectedDirOnFileDel)
         else do {
           err \<leftarrow> (if InConflictWith f cur \<and> \<not> IsSymlink cur
                   then withWritableDir env (moveForConflict env cfg (ShortID_String (fModifiedBy f))) (fName cur)
                   else if icVersioner cfg \<and> \<not> IsSymlink cur then withWritableDir env (\<lambda>p. exec env (OpArchive p)) (fName f)
                   else withWritableDir env (\<lambda>p. exec env (OpRemove p)) (fName f));
           if (case err of None \<Rightarrow> True | Some e \<Rightarrow> IsNotExist e) then do {
             _ \<leftarrow> sendJob f dbUpdateDeleteFile;
             case err of None \<Rightarrow> ret () | Some e \<Rightarrow> newPullError (fName f) (Wrap ''delete file'' e)
           } else do {
             st \<leftarrow> Lstat env (fName f);
             if (case st of Inl se \<Rightarrow> \<not> IsPermission (FsE se) | Inr _ \<Rightarrow> False) then sendJob f dbUpdateDeleteFile
             else newPullError (fName f) (Wrap ''delete file'' (the err))
           } } }"

definition deleteFile :: "item_env \<Rightarrow> item_cfg \<Rightarrow> FileInfo \<Rightarrow> unit prog" where
  "deleteFile env cfg f = do {
     cur \<leftarrow> GetLocal env (fName f);
     case cur of
       Inl e \<Rightarrow> newPullError (fName f) (Wrap ''delete file'' e)
     | Inr cur \<Rightarrow> deleteFileWithCurrent env cfg f (case cur of Some c \<Rightarrow> c | None \<Rightarrow> fi_blank) (cur \<noteq> None) }"

section \<open>Replacing a file\<close>

definition performFinish ::
  "item_env \<Rightarrow> item_cfg \<Rightarrow> FileInfo \<Rightarrow> FileInfo \<Rightarrow> bool \<Rightarrow> string \<Rightarrow> item_err option prog" where
  "performFinish env cfg f curF hasCur temp = do {
     pe \<leftarrow> (if \<not> icIgnorePerms cfg \<and> \<not> fNoPermissions f then exec env (OpChmod temp (fPermissions f AND 511)) else ret None);
     case pe of
       Some e \<Rightarrow> ret (Some (Wrap ''setting permissions'' e))
     | None \<Rightarrow> do {
     me \<leftarrow> setPlatformData env cfg f temp;
     case me of
       Some e \<Rightarrow> ret (Some (Wrap ''setting metadata'' e))
     | None \<Rightarrow> do {
     stat \<leftarrow> Lstat env (fName f);
     oe \<leftarrow> (case stat of
              Inr st \<Rightarrow> do {
                ce \<leftarrow> scanIfItemChanged env cfg (fName f) st curF hasCur False;
                case ce of
                  Some e \<Rightarrow> ret (Some (Wrap ''checking existing file'' e))
                | None \<Rightarrow> do {
                    err \<leftarrow> makeRoom env cfg (\<not> IsDirectory curF \<and> \<not> IsSymlink curF \<and> InConflictWith f curF) f curF;
                    ret (map_option (Wrap ''moving for conflict'') err) }
              }
            | Inl e \<Rightarrow> ret (if \<not> IsNotExist (FsE e) then Some (Wrap ''checking existing file'' (FsE e)) else None));
     if oe \<noteq> None then ret oe
     else do {
     re \<leftarrow> RenameOrCopy env cfg temp (fName f);
     case re of
       Some e \<Rightarrow> ret (Some (Wrap ''replacing file'' e))
     | None \<Rightarrow> do {
         _ \<leftarrow> exec env (OpChtimes (fName f) (ModTime f));
         _ \<leftarrow> sendJob f dbUpdateHandleFile;
         ret None } } } } }"

text \<open>The check of the target of a rename.\<close>

definition checkTarget ::
  "item_env \<Rightarrow> item_cfg \<Rightarrow> FileInfo \<Rightarrow> FileInfo \<Rightarrow> FileInfo option \<Rightarrow> item_err option prog" where
  "checkTarget env cfg source target curTarget = do {
     stat \<leftarrow> Lstat env (fName target);
     let missing = (if curTarget = None \<or> fDeleted (the curTarget) then ret None
                    else do { _ \<leftarrow> sendScan (fName target); ret (Some ErrModified) });
     case stat of
       Inl serr \<Rightarrow>
         (case serr of
            CaseConflict real \<Rightarrow> if real \<noteq> fName source then ret (Some (FsE serr)) else missing
          | _ \<Rightarrow> if IsNotExist (FsE serr) then missing else ret (Some (FsE serr)))
     | Inr st \<Rightarrow>
         (case curTarget of
            None \<Rightarrow> do { _ \<leftarrow> sendScan (fName target); ret (Some ErrModified) }
          | Some cur \<Rightarrow> do {
              fi \<leftarrow> CreateFileInfo env cfg st (fName target);
              case fi of
                Inl e \<Rightarrow> ret (Some e)
              | Inr fi \<Rightarrow>
                  if \<not> IsEquivalentOptional (icOS cfg) False fi cur (comparison cfg False)
                  then do { _ \<leftarrow> sendScan (fName target); ret (Some ErrModified) }
                  else ret None }) }"

definition renameFile ::
  "item_env \<Rightarrow> item_cfg \<Rightarrow> FileInfo \<Rightarrow> FileInfo \<Rightarrow> FileInfo \<Rightarrow> item_err option prog" where
  "renameFile env cfg cur source target = do {
     ce \<leftarrow> checkToBeDeleted env cfg source cur True;
     if ce \<noteq> None then ret ce
     else do {
     curTarget \<leftarrow> GetLocal env (fName target);
     case curTarget of
       Inl e \<Rightarrow> ret (Some e)
     | Inr curTarget \<Rightarrow> do {
     te \<leftarrow> checkTarget env cfg source target curTarget;
     if te \<noteq> None then ret te
     else let temp = TempName (shaOf env) (isWindows cfg) (fName target) in do {
     err \<leftarrow> (if icVersioner cfg then do {
               full \<leftarrow> peek (\<lambda>tr. spaceErr env tr (fSize source));
               if full then ret (Some ErrNoSpace)
               else do {
                 e \<leftarrow> osutilCopy env cfg (fName source) temp;
                 if e \<noteq> None then ret e
                 else withWritableDir env (\<lambda>p. exec env (OpArchive p)) (fName source)
               }
             } else RenameOrCopy env cfg (fName source) temp);
     if err \<noteq> None then ret err
     else do {
     fe \<leftarrow> performFinish env cfg target (case curTarget of Some c \<Rightarrow> c | None \<Rightarrow> fi_blank) True temp;
     if fe \<noteq> None then ret fe
     else do {
       _ \<leftarrow> sendJob source dbUpdateDeleteFile;
       ret None } } } } } }"

text \<open>
  \<open>shortcutFile\<close>, when only metadata changed. In a receive-encrypted folder the encryption trailer
  is rewritten.
\<close>

definition shortcutFile :: "item_env \<Rightarrow> item_cfg \<Rightarrow> FileInfo \<Rightarrow> unit prog" where
  "shortcutFile env cfg f = do {
     pe \<leftarrow> (if \<not> icIgnorePerms cfg \<and> \<not> fNoPermissions f then exec env (OpChmod (fName f) (fPermissions f AND 511)) else ret None);
     case pe of
       Some e \<Rightarrow> newPullError (fName f) (Wrap ''shortcut file (setting permissions)'' e)
     | None \<Rightarrow> do {
     me \<leftarrow> setPlatformData env cfg f (fName f);
     case me of
       Some e \<Rightarrow> newPullError (fName f) (Wrap ''shortcut file (setting metadata)'' e)
     | None \<Rightarrow> do {
     te \<leftarrow> (if icReceiveEncrypted cfg then withWritableDir env (\<lambda>p. exec env (OpTrailer p)) (fName f) else ret None);
     case te of
       Some e \<Rightarrow> newPullError (fName f) (Wrap ''writing encrypted file trailer'' e)
     | None \<Rightarrow> let f' = (if icReceiveEncrypted cfg then f\<lparr>fEncryptionTrailerSize := trailerOf env f, fSize := fSize f + trailerOf env f\<rparr> else f) in do {
         _ \<leftarrow> exec env (OpChtimes (fName f') (ModTime f'));
         sendJob f' dbUpdateShortcutFile } } } }"

end
