(* ===== verification/Item_Safety.thy ===== *)
theory Item_Safety
  imports Item_Changes
begin

text \<open>
  What the changes to items on disk do not do. Every step that may destroy something comes after
  the item was found as the database records it, or absent, and what is recorded in the database
  as done was done. Both are properties of the trace: each event in it is justified by those
  before it, in whatever way the file system answers.
\<close>

section \<open>Justification\<close>

text \<open>The database had the entry when asked; no entry is the empty one.\<close>

definition known :: "event set \<Rightarrow> string \<Rightarrow> FileInfo \<Rightarrow> bool" where
  "known K n cur \<longleftrightarrow> EvDb n (Inr (Some cur)) \<in> K \<or> EvDb n (Inr None) \<in> K \<and> cur = fi_blank"

text \<open>The item that \<open>CreateFileInfo\<close> makes of what the file system reports.\<close>

definition madeItem :: "item_cfg \<Rightarrow> event set \<Rightarrow> string \<Rightarrow> fs_info \<Rightarrow> FileInfo \<Rightarrow> bool" where
  "madeItem cfg K n st it \<longleftrightarrow>
     (\<exists>plat target. it = createInfo st n plat target
        \<and> (if icSyncOwnership cfg \<or> icSyncXattrs cfg then EvPlatform n (Inr plat) \<in> K else plat = emptyPlatformData)
        \<and> (fiIsSymlink st \<longrightarrow> EvReadlink n (Inr target) \<in> K))"

text \<open>The item at \<open>m\<close> was seen on disk just as the database has it.\<close>

definition unchanged :: "item_cfg \<Rightarrow> event set \<Rightarrow> string \<Rightarrow> bool" where
  "unchanged cfg K m \<longleftrightarrow>
     (\<exists>n cur st it del. (m = n \<or> m = fName cur) \<and> EvLstat n (Inr st) \<in> K \<and> known K n cur \<and> \<not> fDeleted cur
        \<and> madeItem cfg K (fName cur) st it \<and> IsEquivalentOptional (icOS cfg) False it cur (comparison cfg del))"

definition absent :: "event set \<Rightarrow> string \<Rightarrow> bool" where
  "absent K n \<longleftrightarrow> (\<exists>e. EvLstat n (Inl e) \<in> K \<and> IsNotExist (FsE e))"

text \<open>What may go without a check: temporary files, items the user declared deletable, surplus conflict copies.\<close>

definition isTempName :: "item_env \<Rightarrow> item_cfg \<Rightarrow> string \<Rightarrow> bool" where
  "isTempName env cfg n \<longleftrightarrow> IsTemporary n \<or> (\<exists>m. n = TempName (shaOf env) (isWindows cfg) m)"

definition disposable :: "item_env \<Rightarrow> item_cfg \<Rightarrow> event set \<Rightarrow> string \<Rightarrow> bool" where
  "disposable env cfg K n \<longleftrightarrow> isTempName env cfg n \<or> R_IsDeletable (ignoreMatch env n)
     \<or> (\<exists>name ms. EvGlob (conflictPattern name) ms \<in> K \<and> n \<in> set ms)"

definition opJust :: "item_env \<Rightarrow> item_cfg \<Rightarrow> event set \<Rightarrow> disk_op \<Rightarrow> bool" where
  "opJust env cfg K c =
     (case c of
        OpRemove n \<Rightarrow> unchanged cfg K n \<or> absent K n \<or> disposable env cfg K n
      | OpArchive n \<Rightarrow> unchanged cfg K n
      | OpRename a b \<Rightarrow> (isTempName env cfg a \<or> unchanged cfg K a)
          \<and> (isTempName env cfg b \<or> unchanged cfg K b \<or> absent K b \<or> (\<exists>stamp by_dev. b = conflictName stamp a by_dev))
      | OpCopy a b \<Rightarrow> isTempName env cfg b
      | OpTrailer n \<Rightarrow> icReceiveEncrypted cfg
      | _ \<Rightarrow> True)"

text \<open>The directories on the way to a name.\<close>

fun partPaths :: "string \<Rightarrow> string list \<Rightarrow> string list" where
  "partPaths path [] = []"
| "partPaths path (part # parts) =
     (let p = (if path = [] then Clean part else Clean (path @ [slash] @ part)) in p # partPaths p parts)"

definition badPart :: "event set \<Rightarrow> string \<Rightarrow> bool" where
  "badPart K p \<longleftrightarrow> (\<exists>e. EvLstat p (Inl e) \<in> K \<and> \<not> IsNotExist (FsE e))
     \<or> (\<exists>i. EvLstat p (Inr i) \<in> K \<and> (fiIsSymlink i \<or> \<not> fiIsDir i))"

definition blocked :: "event set \<Rightarrow> string \<Rightarrow> bool" where
  "blocked K n \<longleftrightarrow>
     (case Canonicalize n of
        Inl e \<Rightarrow> True
      | Inr c \<Rightarrow> \<exists>p\<in>set (partPaths [] (PathComponents c)). badPart K p)"

definition removed :: "event set \<Rightarrow> string \<Rightarrow> bool" where
  "removed K n \<longleftrightarrow> (\<exists>c e. EvOp c e \<in> K \<and> (e = None \<or> e = Some NotExist) \<and> (c = OpRemove n \<or> c = OpArchive n \<or> (\<exists>b. c = OpRename n b)))"

definition seenGone :: "event set \<Rightarrow> string \<Rightarrow> bool" where
  "seenGone K n \<longleftrightarrow> (\<exists>e. (EvLstat n (Inl e) \<in> K \<or> EvReadlink n (Inl e) \<in> K \<or> EvPlatform n (Inl e) \<in> K) \<and> e \<noteq> PermissionDenied)"

text \<open>There is nothing at \<open>n\<close>, as far as can be seen, or it was removed.\<close>

definition gone :: "event set \<Rightarrow> string \<Rightarrow> bool" where
  "gone K n \<longleftrightarrow>
     seenGone K n
     \<or> EvStat (path_Dir n) (Inl NotExist) \<in> K
     \<or> blocked K (path_Dir n)
     \<or> removed K n"

definition jobJust :: "item_cfg \<Rightarrow> event set \<Rightarrow> FileInfo \<Rightarrow> dbUpdateType \<Rightarrow> bool" where
  "jobJust cfg K f t =
     (case t of
        dbUpdateHandleFile \<Rightarrow> (\<exists>a. EvOp (OpRename a (fName f)) None \<in> K)
      | dbUpdateHandleDir \<Rightarrow> (\<exists>m. EvOp (OpMkdir (fName f) m) None \<in> K) \<or> (\<exists>i. EvLstat (fName f) (Inr i) \<in> K \<and> fiIsDir i)
      | dbUpdateHandleSymlink \<Rightarrow> EvOp (OpSymlink (fSymlinkTarget f) (fName f)) None \<in> K
      | dbUpdateDeleteFile \<Rightarrow> gone K (fName f) \<or> isWindows cfg \<and> WindowsInvalidFilename (fName f) \<noteq> None
      | dbUpdateDeleteDir \<Rightarrow> gone K (fName f)
      | _ \<Rightarrow> True)"

definition justified :: "item_env \<Rightarrow> item_cfg \<Rightarrow> event set \<Rightarrow> event \<Rightarrow> bool" where
  "justified env cfg K ev = (case ev of EvOp c e \<Rightarrow> opJust env cfg K c | EvJob f t \<Rightarrow> jobJust cfg K f t | _ \<Rightarrow> True)"

definition safe :: "item_env \<Rightarrow> item_cfg \<Rightarrow> trace \<Rightarrow> bool" where
  "safe env cfg tr \<longleftrightarrow> (\<forall>i<length tr. justified env cfg (set (take i tr)) (tr ! i))"

lemma safe_snoc: "safe env cfg (tr @ [ev]) \<longleftrightarrow> safe env cfg tr \<and> justified env cfg (set tr) ev"
  by (auto simp: safe_def nth_append less_Suc_eq)

lemma safe_Nil [simp]: "safe env cfg []"
  by (simp add: safe_def)

text \<open>Knowing more justifies more.\<close>

lemma known_mono: "known K n cur \<Longrightarrow> K \<subseteq> K' \<Longrightarrow> known K' n cur"
  by (auto simp: known_def)

lemma madeItem_mono: "madeItem cfg K n st it \<Longrightarrow> K \<subseteq> K' \<Longrightarrow> madeItem cfg K' n st it"
  by (auto simp: madeItem_def split: if_splits)

lemma unchangedI:
  assumes "m = n \<or> m = fName cur" and "EvLstat n (Inr st) \<in> K" and "known K n cur" and "\<not> fDeleted cur"
    and "madeItem cfg K (fName cur) st it" and "IsEquivalentOptional (icOS cfg) False it cur (comparison cfg del)"
  shows "unchanged cfg K m"
  unfolding unchanged_def using assms by (intro exI conjI)

lemma unchanged_mono:
  assumes "unchanged cfg K m" and "K \<subseteq> K'"
  shows "unchanged cfg K' m"
proof -
  obtain n cur st it del where u: "m = n \<or> m = fName cur" "EvLstat n (Inr st) \<in> K" "known K n cur" "\<not> fDeleted cur"
      "madeItem cfg K (fName cur) st it" "IsEquivalentOptional (icOS cfg) False it cur (comparison cfg del)"
    using assms(1) unfolding unchanged_def by (elim exE conjE)
  show ?thesis
    by (rule unchangedI [OF u(1) subsetD [OF assms(2) u(2)] known_mono [OF u(3) assms(2)] u(4) madeItem_mono [OF u(5) assms(2)] u(6)])
qed

lemma absent_mono: "absent K n \<Longrightarrow> K \<subseteq> K' \<Longrightarrow> absent K' n"
  by (auto simp: absent_def)

lemma disposable_mono: "disposable env cfg K n \<Longrightarrow> K \<subseteq> K' \<Longrightarrow> disposable env cfg K' n"
  by (auto simp: disposable_def)

lemma badPart_mono: "badPart K p \<Longrightarrow> K \<subseteq> K' \<Longrightarrow> badPart K' p"
  by (auto simp: badPart_def)

lemma blocked_mono: "blocked K n \<Longrightarrow> K \<subseteq> K' \<Longrightarrow> blocked K' n"
  by (cases "Canonicalize n") (auto simp: blocked_def intro: badPart_mono)

lemma seenGone_mono: "seenGone K n \<Longrightarrow> K \<subseteq> K' \<Longrightarrow> seenGone K' n"
  unfolding seenGone_def by blast

lemma removed_mono: "removed K n \<Longrightarrow> K \<subseteq> K' \<Longrightarrow> removed K' n"
  unfolding removed_def by blast

lemma gone_mono: "gone K n \<Longrightarrow> K \<subseteq> K' \<Longrightarrow> gone K' n"
  unfolding gone_def using blocked_mono seenGone_mono removed_mono by blast

lemma opJust_mono: "opJust env cfg K c \<Longrightarrow> K \<subseteq> K' \<Longrightarrow> opJust env cfg K' c"
  by (cases c) (auto simp: opJust_def intro: unchanged_mono absent_mono disposable_mono)

lemma jobJust_mono: "jobJust cfg K f t \<Longrightarrow> K \<subseteq> K' \<Longrightarrow> jobJust cfg K' f t"
  by (cases t) (auto simp: jobJust_def intro: gone_mono)

lemma justified_mono: "justified env cfg K ev \<Longrightarrow> K \<subseteq> K' \<Longrightarrow> justified env cfg K' ev"
  by (cases ev) (auto simp: justified_def intro: opJust_mono jobJust_mono)

section \<open>Programs whose events are justified\<close>

text \<open>From any safe trace with the events \<open>K\<close>, the program keeps the trace safe and extends it to meet \<open>Q\<close>.\<close>

definition ok :: "item_env \<Rightarrow> item_cfg \<Rightarrow> event set \<Rightarrow> 'a prog \<Rightarrow> ('a \<Rightarrow> event set \<Rightarrow> bool) \<Rightarrow> bool" where
  "ok env cfg K m Q \<longleftrightarrow>
     (\<forall>tr. safe env cfg tr \<and> K \<subseteq> set tr \<longrightarrow>
        (case run_state m tr of (a, tr') \<Rightarrow> safe env cfg tr' \<and> set tr \<subseteq> set tr' \<and> Q a (set tr')))"

lemma okD:
  assumes "ok env cfg K m Q" and "safe env cfg tr" and "K \<subseteq> set tr" and "run_state m tr = (a, tr')"
  shows "safe env cfg tr'" "set tr \<subseteq> set tr'" "Q a (set tr')"
  using assms by (fastforce simp: ok_def)+

lemma ok_ret: "(\<And>K'. K \<subseteq> K' \<Longrightarrow> Q a K') \<Longrightarrow> ok env cfg K (ret a) Q"
  by (simp add: ok_def)

lemma ok_bind:
  assumes "ok env cfg K m R" and "\<And>a K'. K \<subseteq> K' \<Longrightarrow> R a K' \<Longrightarrow> ok env cfg K' (f a) Q"
  shows "ok env cfg K (m \<bind> f) Q"
  unfolding ok_def
proof (intro allI impI)
  fix tr assume tr: "safe env cfg tr \<and> K \<subseteq> set tr"
  obtain a t1 where m: "run_state m tr = (a, t1)" by fastforce
  note d = okD [OF assms(1) _ _ m]
  obtain b t2 where f: "run_state (f a) t1 = (b, t2)" by fastforce
  have "ok env cfg (set t1) (f a) Q" using assms(2) d tr by blast
  from okD [OF this _ _ f] show "case run_state (m \<bind> f) tr of (a, tr') \<Rightarrow> safe env cfg tr' \<and> set tr \<subseteq> set tr' \<and> Q a (set tr')"
    using d tr m f by auto
qed

lemma ok_conseq: "ok env cfg K m R \<Longrightarrow> (\<And>a K'. K \<subseteq> K' \<Longrightarrow> R a K' \<Longrightarrow> Q a K') \<Longrightarrow> ok env cfg K m Q"
  unfolding ok_def by (fastforce split: prod.splits)

lemma ok_emit:
  assumes "justified env cfg K ev" and "\<And>K'. K \<subseteq> K' \<Longrightarrow> ev \<in> K' \<Longrightarrow> Q () K'"
  shows "ok env cfg K (emit ev) Q"
  by (auto simp: ok_def emit_def safe_snoc intro: justified_mono [OF assms(1)] intro!: assms(2))

lemma ok_ask:
  assumes "\<And>a. justified env cfg K (ev a)" and "\<And>a K'. K \<subseteq> K' \<Longrightarrow> ev a \<in> K' \<Longrightarrow> Q a K'"
  shows "ok env cfg K (ask answer ev) Q"
  by (auto simp: ok_def ask_def safe_snoc intro: justified_mono [OF assms(1)] intro!: assms(2))

lemma ok_peek: "(\<And>a K'. K \<subseteq> K' \<Longrightarrow> Q a K') \<Longrightarrow> ok env cfg K (peek answer) Q"
  by (simp add: ok_def peek_def)

lemma ok_if: "(c \<Longrightarrow> ok env cfg K m Q) \<Longrightarrow> (\<not> c \<Longrightarrow> ok env cfg K n Q) \<Longrightarrow> ok env cfg K (if c then m else n) Q"
  by simp

lemma ok_option:
  "(x = None \<Longrightarrow> ok env cfg K m Q) \<Longrightarrow> (\<And>a. x = Some a \<Longrightarrow> ok env cfg K (f a) Q)
     \<Longrightarrow> ok env cfg K (case x of None \<Rightarrow> m | Some a \<Rightarrow> f a) Q"
  by (cases x) auto

lemma ok_sum:
  "(\<And>a. x = Inl a \<Longrightarrow> ok env cfg K (f a) Q) \<Longrightarrow> (\<And>b. x = Inr b \<Longrightarrow> ok env cfg K (g b) Q)
     \<Longrightarrow> ok env cfg K (case x of Inl a \<Rightarrow> f a | Inr b \<Rightarrow> g b) Q"
  by (cases x) auto

lemma ok_prod: "(\<And>a b. x = (a, b) \<Longrightarrow> ok env cfg K (f a b) Q) \<Longrightarrow> ok env cfg K (case x of (a, b) \<Rightarrow> f a b) Q"
  by (cases x) auto

lemma ok_Let: "(\<And>y. y = x \<Longrightarrow> ok env cfg K (f y) Q) \<Longrightarrow> ok env cfg K (Let x f) Q"
  by simp

lemmas ok_cases = ok_if ok_option ok_sum ok_prod ok_Let

abbreviation anyway :: "'a \<Rightarrow> event set \<Rightarrow> bool" where "anyway \<equiv> \<lambda>_ _. True"

lemma ok_Lstat: "ok env cfg K (Lstat env n) (\<lambda>r K'. EvLstat n r \<in> K')"
  unfolding Lstat_def by (rule ok_ask) (auto simp: justified_def)

lemma ok_Stat: "ok env cfg K (Stat env n) (\<lambda>r K'. EvStat n r \<in> K')"
  unfolding Stat_def by (rule ok_ask) (auto simp: justified_def)

lemma ok_Glob: "ok env cfg K (Glob env p) (\<lambda>r K'. EvGlob p r \<in> K')"
  unfolding Glob_def by (rule ok_ask) (auto simp: justified_def)

definition named :: "item_env \<Rightarrow> bool" where
  "named env \<longleftrightarrow> (\<forall>tr n f. lookupFile env tr n = Inr (Some f) \<longrightarrow> fName f = n)"

lemma ok_GetLocal:
  "named env \<Longrightarrow> ok env cfg K (GetLocal env n) (\<lambda>r K'. EvDb n r \<in> K' \<and> (\<forall>f. r = Inr (Some f) \<longrightarrow> fName f = n))"
  by (auto simp: GetLocal_def ok_def ask_def safe_snoc justified_def named_def)

lemma ok_exec:
  assumes "opJust env cfg K c"
  shows "ok env cfg K (exec env c) (\<lambda>r K'. (r = None \<longrightarrow> EvOp c None \<in> K')
    \<and> (\<forall>e. r = Some e \<and> IsNotExist e \<longrightarrow> EvOp c (Some NotExist) \<in> K'))"
  unfolding exec_def
proof (rule ok_bind [where R = "\<lambda>r K'. EvOp c r \<in> K'"])
  show "ok env cfg K (ask (\<lambda>tr. opErr env tr c) (EvOp c)) (\<lambda>r K'. EvOp c r \<in> K')"
    by (rule ok_ask) (use assms in \<open>auto simp: justified_def\<close>)
next
  fix a K' assume "K \<subseteq> K'" "EvOp c a \<in> K'"
  then show "ok env cfg K' (ret (map_option FsE a)) (\<lambda>r K'. (r = None \<longrightarrow> EvOp c None \<in> K')
      \<and> (\<forall>e. r = Some e \<and> IsNotExist e \<longrightarrow> EvOp c (Some NotExist) \<in> K'))"
    by (intro ok_ret) (cases a; auto simp: IsNotExist_def)
qed

lemma ok_exec_any: "opJust env cfg K c \<Longrightarrow> ok env cfg K (exec env c) anyway"
  by (rule ok_conseq [OF ok_exec]) auto

lemma ok_scan: "ok env cfg K (sendScan p) anyway"
  unfolding sendScan_def by (rule ok_emit) (auto simp: justified_def)

lemma ok_err: "ok env cfg K (newPullError p e) anyway"
  unfolding newPullError_def by (rule ok_emit) (auto simp: justified_def)

lemma ok_job: "jobJust cfg K f t \<Longrightarrow> ok env cfg K (sendJob f t) anyway"
  unfolding sendJob_def by (rule ok_emit) (auto simp: justified_def)

text \<open>Programs that are never a problem.\<close>

definition tame :: "item_env \<Rightarrow> item_cfg \<Rightarrow> 'a prog \<Rightarrow> bool" where
  "tame env cfg m \<longleftrightarrow> (\<forall>K. ok env cfg K m anyway)"

lemma tame_ok: "tame env cfg m \<Longrightarrow> ok env cfg K m anyway"
  by (simp add: tame_def)

lemma tame_ret: "tame env cfg (ret a)"
  unfolding tame_def by (blast intro: ok_ret)

lemma tame_bind: "tame env cfg m \<Longrightarrow> (\<And>a. tame env cfg (f a)) \<Longrightarrow> tame env cfg (m \<bind> f)"
  unfolding tame_def by (blast intro: ok_bind)

lemma tame_if: "tame env cfg m \<Longrightarrow> tame env cfg n \<Longrightarrow> tame env cfg (if c then m else n)"
  by simp

lemma tame_option: "tame env cfg m \<Longrightarrow> (\<And>a. tame env cfg (f a)) \<Longrightarrow> tame env cfg (case x of None \<Rightarrow> m | Some a \<Rightarrow> f a)"
  by (cases x) auto

lemma tame_sum: "(\<And>a. tame env cfg (f a)) \<Longrightarrow> (\<And>b. tame env cfg (g b)) \<Longrightarrow> tame env cfg (case x of Inl a \<Rightarrow> f a | Inr b \<Rightarrow> g b)"
  by (cases x) auto

lemma tame_ask: "(\<And>K a. justified env cfg K (ev a)) \<Longrightarrow> tame env cfg (ask answer ev)"
  unfolding tame_def by (auto intro: ok_ask)

definition harmless :: "disk_op \<Rightarrow> bool" where
  "harmless c = (case c of OpRemove _ \<Rightarrow> False | OpRename _ _ \<Rightarrow> False | OpArchive _ \<Rightarrow> False | OpCopy _ _ \<Rightarrow> False
     | OpTrailer _ \<Rightarrow> False | _ \<Rightarrow> True)"

lemma harmless_just: "harmless c \<Longrightarrow> opJust env cfg K c"
  by (cases c) (auto simp: harmless_def opJust_def)

lemma tame_exec: "harmless c \<Longrightarrow> tame env cfg (exec env c)"
  unfolding tame_def by (blast intro: ok_exec_any harmless_just)

lemma tame_prims:
  "tame env cfg (Lstat env n)" "tame env cfg (Stat env n)"
  "tame env cfg (sendScan p)" "tame env cfg (newPullError p e)" "tame env cfg (peek g)"
  unfolding tame_def
  by (auto intro: ok_conseq [OF ok_Lstat] ok_conseq [OF ok_Stat] ok_scan ok_err ok_peek)

lemmas tame_rules = tame_ret tame_bind tame_if tame_option tame_sum tame_exec tame_prims

lemma harmless_simps [simp]:
  "harmless (OpMkdir a b)" "harmless (OpMkdirAll a b)" "harmless (OpSymlink t a)" "harmless (OpChmod a b)"
  "harmless (OpChtimes a u)" "harmless (OpSetXattr a x)" "harmless (OpLchown a)"
  by (simp_all add: harmless_def)

lemma ok_bind_tame:
  assumes "tame env cfg m" and "\<And>a K'. K \<subseteq> K' \<Longrightarrow> ok env cfg K' (f a) Q"
  shows "ok env cfg K (m \<bind> f) Q"
  by (rule ok_bind [OF tame_ok [OF assms(1)]]) (rule assms(2))

section \<open>The checks\<close>

lemma IsNotExist_simps [simp]:
  "IsNotExist (Wrap c e) = IsNotExist e" "IsNotExist (FsE x) \<longleftrightarrow> x = NotExist" "IsErrCaseConflict (Wrap c e) = IsErrCaseConflict e"
  "IsPermission (FsE x) \<longleftrightarrow> x = PermissionDenied" "\<not> IsNotExist ErrModified" "\<not> IsErrCaseConflict ErrModified"
  by (auto simp: IsNotExist_def IsErrCaseConflict_def IsPermission_def)

lemma ok_CreateFileInfo:
  "ok env cfg K (CreateFileInfo env cfg st n)
     (\<lambda>r K'. (\<forall>it. r = Inr it \<longrightarrow> madeItem cfg K' n st it)
       \<and> (\<forall>x. r = Inl x \<and> (IsNotExist x \<or> IsErrCaseConflict x) \<longrightarrow> seenGone K' n))"
proof -
  let ?P = "\<lambda>(r :: ferr + PlatformData) K'. if icSyncOwnership cfg \<or> icSyncXattrs cfg then EvPlatform n r \<in> K' else r = Inr emptyPlatformData"
  have p: "ok env cfg K (if icSyncOwnership cfg \<or> icSyncXattrs cfg then ask (\<lambda>tr. platformOf env tr n) (EvPlatform n)
      else ret (Inr emptyPlatformData)) ?P"
    by (auto intro!: ok_ask ok_ret simp: justified_def)
  have ne: "IsNotExist (FsE e) \<or> IsErrCaseConflict (FsE e) \<Longrightarrow> e \<noteq> PermissionDenied" for e
    by (auto simp: IsErrCaseConflict_def)
  show ?thesis
    unfolding CreateFileInfo_def
  proof (rule ok_bind [OF p], rule ok_sum)
    fix a K' x assume "?P a K'" "a = Inl x"
    then show "ok env cfg K' (ret (Inl (Wrap ''reading platform data'' (FsE x))))
        (\<lambda>r K'. (\<forall>it. r = Inr it \<longrightarrow> madeItem cfg K' n st it)
          \<and> (\<forall>x. r = Inl x \<and> (IsNotExist x \<or> IsErrCaseConflict x) \<longrightarrow> seenGone K' n))"
      using ne by (intro ok_ret) (auto simp: seenGone_def split: if_splits)
  next
    fix a K' plat assume P: "?P a K'" and a: "a = Inr plat"
    show "ok env cfg K' (if fiIsSymlink st then ask (\<lambda>tr. readlinkOf env tr n) (EvReadlink n) \<bind>
            (\<lambda>target. ret (case target of Inl e \<Rightarrow> Inl (FsE e) | Inr t \<Rightarrow> Inr (createInfo st n plat t)))
          else ret (Inr (createInfo st n plat [])))
        (\<lambda>r K'. (\<forall>it. r = Inr it \<longrightarrow> madeItem cfg K' n st it)
          \<and> (\<forall>x. r = Inl x \<and> (IsNotExist x \<or> IsErrCaseConflict x) \<longrightarrow> seenGone K' n))"
    proof (rule ok_if)
      assume "fiIsSymlink st"
      have "ok env cfg K' (ask (\<lambda>tr. readlinkOf env tr n) (EvReadlink n)) (\<lambda>r K''. EvReadlink n r \<in> K'')"
        by (rule ok_ask) (auto simp: justified_def)
      then show "ok env cfg K' (ask (\<lambda>tr. readlinkOf env tr n) (EvReadlink n) \<bind>
            (\<lambda>target. ret (case target of Inl e \<Rightarrow> Inl (FsE e) | Inr t \<Rightarrow> Inr (createInfo st n plat t))))
          (\<lambda>r K'. (\<forall>it. r = Inr it \<longrightarrow> madeItem cfg K' n st it)
            \<and> (\<forall>x. r = Inl x \<and> (IsNotExist x \<or> IsErrCaseConflict x) \<longrightarrow> seenGone K' n))"
      proof (rule ok_bind, intro ok_ret)
        fix t K1 K2 assume K: "K' \<subseteq> K1" "K1 \<subseteq> K2" "EvReadlink n t \<in> K1"
        have "?P (Inr plat) K2" using P a K by (auto split: if_splits)
        then show "(\<forall>it. (case t of Inl e \<Rightarrow> Inl (FsE e) | Inr t \<Rightarrow> Inr (createInfo st n plat t)) = Inr it \<longrightarrow> madeItem cfg K2 n st it)
            \<and> (\<forall>x. (case t of Inl e \<Rightarrow> Inl (FsE e) | Inr t \<Rightarrow> Inr (createInfo st n plat t)) = Inl x
                 \<and> (IsNotExist x \<or> IsErrCaseConflict x) \<longrightarrow> seenGone K2 n)"
          using K ne by (cases t) (auto simp: madeItem_def seenGone_def split: if_splits)
      qed
    next
      assume "\<not> fiIsSymlink st"
      then show "ok env cfg K' (ret (Inr (createInfo st n plat [])))
          (\<lambda>r K'. (\<forall>it. r = Inr it \<longrightarrow> madeItem cfg K' n st it)
            \<and> (\<forall>x. r = Inl x \<and> (IsNotExist x \<or> IsErrCaseConflict x) \<longrightarrow> seenGone K' n))"
        using P a by (intro ok_ret) (auto simp: madeItem_def split: if_splits)
    qed
  qed
qed

text \<open>The rule for an optional scan.\<close>

lemma tame_scan_if: "tame env cfg (if c then sendScan p else ret ())"
  by (intro tame_rules)

lemma ok_scanIfItemChanged:
  assumes "EvLstat n (Inr st) \<in> K" and "hasItem \<Longrightarrow> known K n item"
  shows "ok env cfg K (scanIfItemChanged env cfg n st item hasItem del)
    (\<lambda>e K'. (e = None \<longrightarrow> hasItem \<and> unchanged cfg K' n \<and> unchanged cfg K' (fName item))
      \<and> (\<forall>x. e = Some x \<and> (IsNotExist x \<or> IsErrCaseConflict x) \<longrightarrow> seenGone K' (fName item)))"
    (is "ok env cfg K _ ?Q")
proof -
  have "ok env cfg K (if \<not> hasItem \<or> fDeleted item then ret (Some ErrModified)
            else do {
              statItem \<leftarrow> CreateFileInfo env cfg st (fName item);
              ret (case statItem of
                     Inl e \<Rightarrow> Some (Wrap ''comparing item on disk to db'' e)
                   | Inr si \<Rightarrow>
                       if \<not> IsEquivalentOptional (icOS cfg) False si item (comparison cfg del) then Some ErrModified
                       else None)
            }) ?Q"
  proof (rule ok_if)
    assume h: "\<not> (\<not> hasItem \<or> fDeleted item)"
    show "ok env cfg K (do {
              statItem \<leftarrow> CreateFileInfo env cfg st (fName item);
              ret (case statItem of
                     Inl e \<Rightarrow> Some (Wrap ''comparing item on disk to db'' e)
                   | Inr si \<Rightarrow>
                       if \<not> IsEquivalentOptional (icOS cfg) False si item (comparison cfg del) then Some ErrModified
                       else None)
            }) ?Q"
    proof (rule ok_bind [OF ok_CreateFileInfo], rule ok_ret)
      fix a K' K'' assume K: "K \<subseteq> K'" "K' \<subseteq> K''"
        and a: "(\<forall>it. a = Inr it \<longrightarrow> madeItem cfg K' (fName item) st it)
          \<and> (\<forall>x. a = Inl x \<and> (IsNotExist x \<or> IsErrCaseConflict x) \<longrightarrow> seenGone K' (fName item))"
      show "?Q (case a of Inl e \<Rightarrow> Some (Wrap ''comparing item on disk to db'' e)
          | Inr si \<Rightarrow> if \<not> IsEquivalentOptional (icOS cfg) False si item (comparison cfg del) then Some ErrModified else None) K''"
      proof (cases a)
        case (Inr si)
        have "unchanged cfg K'' m" if "IsEquivalentOptional (icOS cfg) False si item (comparison cfg del)" "m = n \<or> m = fName item" for m
        proof (rule unchangedI [OF that(2)])
          show "EvLstat n (Inr st) \<in> K''" using assms(1) K by blast
          show "known K'' n item" using assms(2) h K by (blast intro: known_mono)
          show "madeItem cfg K'' (fName item) st si" using a Inr K by (blast intro: madeItem_mono)
        qed (use h that(1) in auto)
        then show ?thesis using Inr h by auto
      qed (use a K seenGone_mono in auto)
    qed
  qed (auto intro!: ok_ret)
  then show ?thesis
    unfolding scanIfItemChanged_def
    by (rule ok_bind) (auto intro!: ok_bind_tame tame_option tame_if tame_prims tame_ret ok_ret
      intro: unchanged_mono seenGone_mono split: option.splits)
qed

lemma ok_traverseParts:
  "ok env cfg K (traverseParts env path parts) (\<lambda>e K'. e \<noteq> None \<longrightarrow> (\<exists>p\<in>set (partPaths path parts). badPart K' p))"
proof (induction env path parts arbitrary: K rule: traverseParts.induct)
  case (2 env path part parts)
  define q where "q = (if path = [] then Clean part else Clean (path @ [slash] @ part))"
  let ?p = q
  have pp: "partPaths path (part # parts) = q # partPaths q parts" by (simp add: q_def Let_def)
  show ?case
    unfolding traverseParts.simps Let_def q_def [symmetric] pp
  proof (rule ok_bind [OF ok_Lstat], rule ok_sum)
    fix a K' e assume "EvLstat ?p a \<in> K'" "a = Inl e"
    then show "ok env cfg K' (ret (if IsNotExist (FsE e) then None else Some (FsE e)))
        (\<lambda>e K'. e \<noteq> None \<longrightarrow> (\<exists>p\<in>set (q # partPaths q parts). badPart K' p))"
      by (intro ok_ret) (auto simp: badPart_def)
  next
    fix a K' i assume e: "EvLstat ?p a \<in> K'" "a = Inr i"
    have bad: "badPart K'' ?p" if "K' \<subseteq> K''" "fiIsSymlink i \<or> \<not> fiIsDir i" for K''
      using e that unfolding badPart_def by blast
    show "ok env cfg K' (if fiIsSymlink i then ret (Some (TraversesSymlinkError ?p))
          else if \<not> fiIsDir i then ret (Some (NotADirectoryError ?p)) else traverseParts env ?p parts)
        (\<lambda>e K'. e \<noteq> None \<longrightarrow> (\<exists>p\<in>set (q # partPaths q parts). badPart K' p))"
      using bad by (intro ok_if) (auto intro!: ok_ret ok_conseq [OF 2 [folded q_def, OF refl]])
  qed
qed (auto intro: ok_ret)

lemma ok_TraversesSymlink: "ok env cfg K (TraversesSymlink env n) (\<lambda>e K'. e \<noteq> None \<longrightarrow> blocked K' n)"
  unfolding TraversesSymlink_def
  by (intro ok_sum ok_if) (auto simp: blocked_def intro!: ok_ret ok_conseq [OF ok_traverseParts])

definition local_entry :: "event set \<Rightarrow> string \<Rightarrow> FileInfo \<Rightarrow> bool" where
  "local_entry K n cur \<longleftrightarrow> EvDb n (Inr (Some cur)) \<in> K \<and> fName cur = n"

lemma local_entry_mono: "local_entry K n cur \<Longrightarrow> K \<subseteq> K' \<Longrightarrow> local_entry K' n cur"
  by (auto simp: local_entry_def)

lemma local_entry_known: "local_entry K n cur \<Longrightarrow> known K n cur"
  by (simp add: local_entry_def known_def)

lemma ok_checkToBeDeleted:
  assumes "hasCur \<Longrightarrow> local_entry K (fName f) cur"
  shows "ok env cfg K (checkToBeDeleted env cfg f cur hasCur)
    (\<lambda>e K'. (e = None \<longrightarrow> hasCur \<and> unchanged cfg K' (fName f))
      \<and> (\<forall>x. e = Some x \<and> (IsNotExist x \<or> IsErrCaseConflict x) \<longrightarrow> gone K' (fName f)))" (is "ok env cfg K _ ?Q")
  unfolding checkToBeDeleted_def
proof (rule ok_bind [OF ok_TraversesSymlink], rule ok_if)
  fix a K' assume K: "K \<subseteq> K'" and "a \<noteq> None \<longrightarrow> blocked K' (path_Dir (fName f))" and "a \<noteq> (None :: item_err option)"
  then show "ok env cfg K' (ret (Some (FsE NotExist))) ?Q"
    by (intro ok_ret) (auto simp: gone_def intro: blocked_mono)
next
  fix a K' assume K: "K \<subseteq> K'"
  let ?m = "\<lambda>e. if IsNotExist (FsE e) \<or> IsErrCaseConflict (FsE e)
    then if hasCur \<and> \<not> fDeleted cur \<and> \<not> IsUnsupported cur then do { _ \<leftarrow> sendScan (fName f); ret (Some ErrModified) }
      else ret (Some (FsE e)) else ret (Some (FsE e))"
  show "ok env cfg K' (do { stat \<leftarrow> Lstat env (fName f);
      case stat of Inl e \<Rightarrow> ?m e | Inr st \<Rightarrow> scanIfItemChanged env cfg (fName f) st cur hasCur True }) ?Q"
  proof (rule ok_bind [OF ok_Lstat], rule ok_sum)
    fix b K2 e assume b: "EvLstat (fName f) b \<in> K2" "b = Inl e"
    have g: "gone K3 (fName f)" if "K2 \<subseteq> K3" "IsNotExist (FsE e) \<or> IsErrCaseConflict (FsE e)" for K3
    proof -
      have "e \<noteq> PermissionDenied" using that(2) by (auto simp: IsErrCaseConflict_def)
      then show ?thesis using b that(1) unfolding gone_def seenGone_def by blast
    qed
    show "ok env cfg K2 (?m e) ?Q"
      by (intro ok_if ok_bind_tame tame_prims ok_ret) (use g in auto)
  next
    fix b K2 st assume b: "K' \<subseteq> K2" "EvLstat (fName f) b \<in> K2" "b = Inr st"
    have le: "hasCur \<Longrightarrow> local_entry K2 (fName f) cur" using assms K b(1) local_entry_mono by blast
    then have nm: "hasCur \<Longrightarrow> fName cur = fName f" by (simp add: local_entry_def)
    show "ok env cfg K2 (scanIfItemChanged env cfg (fName f) st cur hasCur True) ?Q"
    proof (cases hasCur)
      case True
      show ?thesis
        by (rule ok_conseq [OF ok_scanIfItemChanged]) (use b True le nm local_entry_known in \<open>auto simp: gone_def\<close>)
    next
      case False
      then show ?thesis unfolding scanIfItemChanged_def
        by (auto intro!: ok_bind_tame [OF tame_ret] ok_bind_tame tame_prims ok_ret)
    qed
  qed
qed

section \<open>Helpers around a call\<close>

definition up :: "(event set \<Rightarrow> bool) \<Rightarrow> bool" where
  "up F \<longleftrightarrow> (\<forall>A B. F A \<and> A \<subseteq> B \<longrightarrow> F B)"

lemma upD: "up F \<Longrightarrow> F A \<Longrightarrow> A \<subseteq> B \<Longrightarrow> F B"
  unfolding up_def by blast

lemma ok_withWritableDir:
  assumes fn: "\<And>K'. K \<subseteq> K' \<Longrightarrow> ok env cfg K' (fn path)
      (\<lambda>e K''. (e = None \<longrightarrow> F K'') \<and> (\<forall>x. e = Some x \<and> IsNotExist x \<longrightarrow> G K''))"
    and up: "up F" "up G"
  shows "ok env cfg K (withWritableDir env fn path)
    (\<lambda>e K'. (e = None \<longrightarrow> F K') \<and> (\<forall>x. e = Some x \<and> IsNotExist x \<longrightarrow> G K' \<or> EvStat (path_Dir path) (Inl NotExist) \<in> K'))"
    (is "ok env cfg K _ ?Q")
proof -
  have chmod: "tame env cfg (exec env (OpChmod d m))" for d m by (rule tame_exec) simp
  show ?thesis
    unfolding withWritableDir_def Let_def
  proof (rule ok_bind [OF ok_Stat], rule ok_sum)
    fix a K' e assume "EvStat (path_Dir path) a \<in> K'" "a = Inl e"
    then show "ok env cfg K' (ret (Some (FsE e))) ?Q" by (intro ok_ret) auto
  next
    fix a K' i assume K: "K \<subseteq> K'"
    show "ok env cfg K' (if \<not> fiIsDir i then ret (Some (ErrNotADirectory path))
        else if (fiMode i AND permBits) AND 128 = 0 then do {
            parentErr \<leftarrow> exec env (OpChmod (path_Dir path) ((fiMode i AND permBits) OR 448));
            err \<leftarrow> fn path;
            case parentErr of
              None \<Rightarrow> do { _ \<leftarrow> exec env (OpChmod (path_Dir path) (fiMode i AND permBits)); ret err }
            | Some _ \<Rightarrow> ret (case err of
                Some e \<Rightarrow> Some (if IsPermission e then Wrap ''error after failing to make parent directory writable'' e else e)
              | None \<Rightarrow> None) }
        else fn path) ?Q"
    proof (intro ok_if)
      show "ok env cfg K' (ret (Some (ErrNotADirectory path))) ?Q" by (intro ok_ret) (auto simp: IsNotExist_def)
    next
      show "ok env cfg K' (fn path) ?Q" by (rule ok_conseq [OF fn [OF K]]) auto
    next
      let ?c = "\<lambda>m. exec env (OpChmod (path_Dir path) m)"
      show "ok env cfg K' (do { parentErr \<leftarrow> ?c ((fiMode i AND permBits) OR 448); err \<leftarrow> fn path;
            case parentErr of
              None \<Rightarrow> do { _ \<leftarrow> ?c (fiMode i AND permBits); ret err }
            | Some _ \<Rightarrow> ret (case err of
                Some e \<Rightarrow> Some (if IsPermission e then Wrap ''error after failing to make parent directory writable'' e else e)
              | None \<Rightarrow> None) }) ?Q"
      proof (rule ok_bind_tame [OF chmod], rule ok_bind [OF fn], goal_cases)
        case (2 pe K1 err K2)
        then have F: "\<And>K3. K2 \<subseteq> K3 \<Longrightarrow> err = None \<Longrightarrow> F K3" and G: "\<And>K3 x. K2 \<subseteq> K3 \<Longrightarrow> err = Some x \<Longrightarrow> IsNotExist x \<Longrightarrow> G K3"
          using up unfolding up_def by blast+
        show ?case
          by (intro ok_option ok_bind_tame [OF chmod] ok_ret; use F G in \<open>auto split: option.splits\<close>)
      qed (use K in blast)
    qed
  qed
qed

lemma ok_withWritableDir_ok:
  assumes fn: "\<And>K'. K \<subseteq> K' \<Longrightarrow> ok env cfg K' (fn path) (\<lambda>e K''. e = None \<longrightarrow> F K'')" and up: "up F"
  shows "ok env cfg K (withWritableDir env fn path) (\<lambda>e K'. e = None \<longrightarrow> F K')"
proof (rule ok_conseq [OF ok_withWritableDir [where F = F and G = "\<lambda>_. True"]])
  fix K' assume "K \<subseteq> K'"
  then show "ok env cfg K' (fn path) (\<lambda>e K''. (e = None \<longrightarrow> F K'') \<and> (\<forall>x. e = Some x \<and> IsNotExist x \<longrightarrow> True))"
    using fn by simp
qed (use up in \<open>auto simp: up_def\<close>)

lemma ok_withWritableDir_any:
  assumes "\<And>K'. K \<subseteq> K' \<Longrightarrow> ok env cfg K' (fn path) anyway"
  shows "ok env cfg K (withWritableDir env fn path) anyway"
  by (rule ok_conseq [OF ok_withWritableDir [where F = "\<lambda>_. True" and G = "\<lambda>_. True"]])
    (auto simp: up_def intro: ok_conseq [OF assms])

lemma ok_withPreparedTarget:
  assumes rm: "opJust env cfg K (OpRemove dst)" and m: "\<And>K'. K \<subseteq> K' \<Longrightarrow> ok env cfg K' m (\<lambda>e K''. e = None \<longrightarrow> F K'')"
    and up: "up F"
  shows "ok env cfg K (withPreparedTarget env cfg src dst m) (\<lambda>e K'. e = None \<longrightarrow> F K')" (is "ok env cfg K _ ?Q")
proof -
  have chmod: "tame env cfg (exec env (OpChmod d m))" for d m by (rule tame_exec) simp
  have body: "ok env cfg K' (if isWindows cfg then do {
                   _ \<leftarrow> exec env (OpChmod dst 438);
                   if \<not> equalFold env src dst then do {
                     e \<leftarrow> exec env (OpRemove dst);
                     case e of Some x \<Rightarrow> if \<not> IsNotExist x then ret e else m | None \<Rightarrow> m
                   } else m } else m) ?Q" if K: "K \<subseteq> K'" for K'
  proof (intro ok_if)
    show "ok env cfg K' m ?Q" by (rule m [OF K])
    show "ok env cfg K' (do { _ \<leftarrow> exec env (OpChmod dst 438);
        if \<not> equalFold env src dst then do {
          e \<leftarrow> exec env (OpRemove dst);
          case e of Some x \<Rightarrow> if \<not> IsNotExist x then ret e else m | None \<Rightarrow> m
        } else m }) ?Q"
    proof (rule ok_bind_tame [OF chmod], rule ok_if)
      fix a K1 assume K1: "K' \<subseteq> K1"
      have "opJust env cfg K1 (OpRemove dst)" using opJust_mono [OF rm] K K1 by blast
      then show "ok env cfg K1 (do { e \<leftarrow> exec env (OpRemove dst); case e of Some x \<Rightarrow> if \<not> IsNotExist x then ret e else m | None \<Rightarrow> m }) ?Q"
      proof (rule ok_bind [OF ok_exec_any], goal_cases)
        case (1 e K2)
        have "ok env cfg K2 m ?Q" using m K K1 1(1) by blast
        then show ?case by (cases e) (auto intro: ok_ret)
      qed
      show "ok env cfg K1 m ?Q" using m K K1 by blast
    qed
  qed
  have first: "tame env cfg (if c then exec env (OpChmod d 493) else ret None)" for c d by (intro tame_if chmod tame_ret)
  have lst: "tame env cfg (case r of Some m \<Rightarrow> exec env (OpChmod d m) | None \<Rightarrow> ret None)" for r d by (intro tame_option chmod tame_ret)
  show ?thesis
    unfolding withPreparedTarget_def Let_def
    by (rule ok_bind_tame [OF tame_prims(2)], rule ok_bind_tame [OF first], rule ok_bind [OF body], blast,
        rule ok_bind_tame [OF lst], rule ok_ret) (meson order_trans upD [OF up])
qed

lemma tame_setPlatformData: "tame env cfg (setPlatformData env cfg f n)"
  unfolding setPlatformData_def syncOwnership_def copyOwnershipFromParent_def by (intro tame_rules) simp_all

section \<open>Removing items\<close>

lemma ok_removeEach: "\<forall>n\<in>set ns. disposable env cfg K n \<Longrightarrow> ok env cfg K (removeEach env ns) anyway"
proof (induction ns arbitrary: K)
  case (Cons n ns)
  have "opJust env cfg K (OpRemove n)" using Cons.prems by (simp add: opJust_def)
  then show ?case
    unfolding removeEach.simps
  proof (rule ok_bind [OF ok_exec_any])
    fix K' assume "K \<subseteq> K'"
    then have "\<forall>n\<in>set ns. disposable env cfg K' n" using Cons.prems disposable_mono [of env cfg K _ K'] by auto
    then show "ok env cfg K' (removeEach env ns) anyway" by (rule Cons.IH)
  qed
qed (auto intro: ok_ret)

lemma up_removed: "up (\<lambda>K. removed K n)"
  by (auto simp: up_def intro: removed_mono)

lemma ok_exec_removed:
  assumes "opJust env cfg K c" and "c = OpRemove n \<or> c = OpArchive n \<or> (\<exists>b. c = OpRename n b)"
  shows "ok env cfg K (exec env c)
    (\<lambda>e K'. (e = None \<longrightarrow> removed K' n) \<and> (\<forall>x. e = Some x \<and> IsNotExist x \<longrightarrow> removed K' n))"
  using assms(2) by (intro ok_conseq [OF ok_exec [OF assms(1)]]) (auto simp: removed_def)

lemma ok_moveForConflict:
  assumes "unchanged cfg K n"
  shows "ok env cfg K (moveForConflict env cfg who n)
    (\<lambda>e K'. (e = None \<longrightarrow> removed K' n) \<and> (\<forall>x. e = Some x \<and> IsNotExist x \<longrightarrow> removed K' n))" (is "ok env cfg K _ ?Q")
  unfolding moveForConflict_def
proof (rule ok_if)
  have "opJust env cfg K (OpRemove n)" using assms by (simp add: opJust_def)
  then show "ok env cfg K (do { e \<leftarrow> exec env (OpRemove n);
      ret (case e of Some x \<Rightarrow> if \<not> IsNotExist x then removingOldItem e else None | None \<Rightarrow> None) }) ?Q"
    by (rule ok_bind [OF ok_exec_removed [where n = n]])
      (auto intro!: ok_ret intro: removed_mono simp: removingOldItem_def split: option.splits)
next
  show "ok env cfg K (do {
        stamp \<leftarrow> peek (timeStamp env);
        let newName = conflictName stamp n who;
        e \<leftarrow> exec env (OpRename n newName);
        let err = (case e of Some x \<Rightarrow> if IsNotExist x then None else e | None \<Rightarrow> None);
        _ \<leftarrow> (if icMaxConflicts cfg > - 1 then do {
               matches \<leftarrow> existingConflicts env n;
               if int (length matches) > icMaxConflicts cfg
               then removeEach env (drop (nat (icMaxConflicts cfg)) (rev (sort matches))) else ret () } else ret ());
        _ \<leftarrow> (if err = None then sendScan newName else ret ());
        ret err }) ?Q"
    unfolding Let_def
  proof (rule ok_bind_tame [OF tame_prims(5)])
    fix stamp K1 assume K1: "K \<subseteq> K1"
    let ?new = "conflictName stamp n who"
    have j: "opJust env cfg K1 (OpRename n ?new)"
      using unchanged_mono [OF assms K1] by (auto simp: opJust_def)
    show "ok env cfg K1 (do {
        e \<leftarrow> exec env (OpRename n ?new);
        _ \<leftarrow> (if icMaxConflicts cfg > - 1 then do {
               matches \<leftarrow> existingConflicts env n;
               if int (length matches) > icMaxConflicts cfg
               then removeEach env (drop (nat (icMaxConflicts cfg)) (rev (sort matches))) else ret () } else ret ());
        _ \<leftarrow> (if (case e of Some x \<Rightarrow> if IsNotExist x then None else e | None \<Rightarrow> None) = None then sendScan ?new else ret ());
        ret (case e of Some x \<Rightarrow> if IsNotExist x then None else e | None \<Rightarrow> None) }) ?Q"
    proof (rule ok_bind [OF ok_exec [OF j]], rule ok_bind [where R = anyway], goal_cases)
      case (1 e K2)
      show ?case
      proof (rule ok_if)
        show "ok env cfg K2 (do { matches \<leftarrow> existingConflicts env n;
            if int (length matches) > icMaxConflicts cfg
            then removeEach env (drop (nat (icMaxConflicts cfg)) (rev (sort matches))) else ret () }) anyway"
          unfolding existingConflicts_def
        proof (rule ok_bind [OF ok_Glob], rule ok_if [OF ok_removeEach])
          fix ms K3 assume "EvGlob (conflictPattern n) ms \<in> K3"
          then show "\<forall>x\<in>set (drop (nat (icMaxConflicts cfg)) (rev (sort ms))). disposable env cfg K3 x"
            by (auto simp: disposable_def dest!: in_set_dropD)
        qed (rule ok_ret, simp)
      qed (rule ok_ret, simp)
    next
      case (2 e K2 u K3)
      then have "\<And>K4. K3 \<subseteq> K4 \<Longrightarrow> e = None \<or> (\<exists>x. e = Some x \<and> IsNotExist x) \<Longrightarrow> removed K4 n"
        unfolding removed_def by blast
      then show ?case
        by (intro ok_bind_tame [OF tame_scan_if] ok_ret) (auto split: option.splits)
    qed
  qed
qed

lemma ok_visitChild:
  "ok env cfg K (visitChild env cfg dir path info s)
    (\<lambda>(e, s') K'. (\<forall>d\<in>set (csDirsToDelete s). R_IsDeletable (ignoreMatch env d)) \<longrightarrow>
       (\<forall>d\<in>set (csDirsToDelete s'). R_IsDeletable (ignoreMatch env d)))" (is "ok env cfg K _ ?Q")
proof -
  have j: "R_IsDeletable (ignoreMatch env path) \<or> IsTemporary path \<Longrightarrow> opJust env cfg K' (OpRemove path)" for K'
    by (auto simp: opJust_def disposable_def isTempName_def)
  have db: "tame env cfg (GetLocal env path)"
    unfolding GetLocal_def by (rule tame_ask) (simp add: justified_def)
  have cf: "tame env cfg (CreateFileInfo env cfg i path)" for i
    unfolding tame_def by (blast intro: ok_conseq [OF ok_CreateFileInfo])
  show ?thesis
    unfolding visitChild_def Let_def
    by (intro ok_cases ok_bind [OF ok_exec_any [OF j]] ok_bind_tame [OF db] ok_bind_tame [OF cf] ok_bind_tame [OF tame_prims(3)] ok_ret)
      auto
qed

lemma ok_walkChildren:
  "\<forall>d\<in>set (csDirsToDelete s). R_IsDeletable (ignoreMatch env d) \<Longrightarrow>
   ok env cfg K (walkChildren env cfg dir es s) (\<lambda>(e, s') K'. \<forall>d\<in>set (csDirsToDelete s'). R_IsDeletable (ignoreMatch env d))"
proof (induction env cfg dir es s arbitrary: K rule: walkChildren.induct)
  case (2 env cfg dir path info rest s)
  show ?case
    unfolding walkChildren.simps
    by (rule ok_bind [OF ok_visitChild], intro ok_prod ok_if) (use 2 in \<open>auto intro!: ok_ret\<close>)
qed (auto intro: ok_ret)

lemma ok_deleteDirs:
  "\<forall>d\<in>set ds. R_IsDeletable (ignoreMatch env d) \<Longrightarrow> ok env cfg K (deleteDirs env ds e) anyway"
proof (induction env ds e arbitrary: K rule: deleteDirs.induct)
  case (2 env d ds e)
  have "opJust env cfg K (OpRemove d)" using 2 by (simp add: opJust_def disposable_def)
  then show ?case
    unfolding deleteDirs.simps by (rule ok_bind [OF ok_exec_any]) (use 2 in auto)
qed (auto intro: ok_ret)

lemma ok_children: "ok env cfg K (deleteDirOnDiskHandleChildren env cfg dir) anyway"
  unfolding deleteDirOnDiskHandleChildren_def
  by (rule ok_bind_tame [OF tame_prims(5)], rule ok_bind [OF ok_walkChildren], simp,
      intro ok_prod ok_if ok_bind [OF ok_deleteDirs] ok_bind_tame [OF tame_prims(3)] ok_ret)
    auto

lemma ok_remove:
  assumes "unchanged cfg K n"
  shows "ok env cfg K (withWritableDir env (\<lambda>p. exec env (OpRemove p)) n)
    (\<lambda>e K'. (e = None \<longrightarrow> gone K' n) \<and> (\<forall>x. e = Some x \<and> IsNotExist x \<longrightarrow> gone K' n))"
proof (rule ok_conseq [OF ok_withWritableDir [where F = "\<lambda>K. removed K n" and G = "\<lambda>K. removed K n"]])
  fix K' assume "K \<subseteq> K'"
  then have "opJust env cfg K' (OpRemove n)" using unchanged_mono [OF assms] by (simp add: opJust_def)
  then show "ok env cfg K' (exec env (OpRemove n))
      (\<lambda>e K''. (e = None \<longrightarrow> removed K'' n) \<and> (\<forall>x. e = Some x \<and> IsNotExist x \<longrightarrow> removed K'' n))"
    by (rule ok_exec_removed) simp
qed (auto simp: up_removed gone_def)

lemma ok_archive:
  assumes "unchanged cfg K n"
  shows "ok env cfg K (withWritableDir env (\<lambda>p. exec env (OpArchive p)) n)
    (\<lambda>e K'. (e = None \<longrightarrow> gone K' n) \<and> (\<forall>x. e = Some x \<and> IsNotExist x \<longrightarrow> gone K' n))"
proof (rule ok_conseq [OF ok_withWritableDir [where F = "\<lambda>K. removed K n" and G = "\<lambda>K. removed K n"]])
  fix K' assume "K \<subseteq> K'"
  then have "opJust env cfg K' (OpArchive n)" using unchanged_mono [OF assms] by (simp add: opJust_def)
  then show "ok env cfg K' (exec env (OpArchive n))
      (\<lambda>e K''. (e = None \<longrightarrow> removed K'' n) \<and> (\<forall>x. e = Some x \<and> IsNotExist x \<longrightarrow> removed K'' n))"
    by (rule ok_exec_removed) simp
qed (auto simp: up_removed gone_def)

lemma ok_move:
  assumes "unchanged cfg K n"
  shows "ok env cfg K (withWritableDir env (moveForConflict env cfg who) n)
    (\<lambda>e K'. (e = None \<longrightarrow> gone K' n) \<and> (\<forall>x. e = Some x \<and> IsNotExist x \<longrightarrow> gone K' n))"
proof (rule ok_conseq [OF ok_withWritableDir [where F = "\<lambda>K. removed K n" and G = "\<lambda>K. removed K n"]])
  fix K' assume "K \<subseteq> K'"
  then show "ok env cfg K' (moveForConflict env cfg who n)
      (\<lambda>e K''. (e = None \<longrightarrow> removed K'' n) \<and> (\<forall>x. e = Some x \<and> IsNotExist x \<longrightarrow> removed K'' n))"
    using unchanged_mono [OF assms] by (blast intro: ok_moveForConflict)
qed (auto simp: up_removed gone_def)

lemma ok_deleteDirOnDisk:
  assumes "unchanged cfg K dir"
  shows "ok env cfg K (deleteDirOnDisk env cfg dir) (\<lambda>e K'. e = None \<longrightarrow> gone K' dir)" (is "ok env cfg K _ ?Q")
proof -
  have last: "ok env cfg K' (case err of None \<Rightarrow> ret None | Some e \<Rightarrow>
      if IsNotExist e then ret None
      else do { st \<leftarrow> Lstat env dir; ret (case st of Inl se \<Rightarrow> if \<not> IsPermission (FsE se) then None else err | Inr _ \<Rightarrow> err) }) ?Q"
    if "(err = None \<longrightarrow> gone K' dir) \<and> (\<forall>x. err = Some x \<and> IsNotExist x \<longrightarrow> gone K' dir)" for K' err
  proof (intro ok_option ok_if)
    fix e assume e: "err = Some e"
    show "ok env cfg K' (do { st \<leftarrow> Lstat env dir;
        ret (case st of Inl se \<Rightarrow> if \<not> IsPermission (FsE se) then None else err | Inr _ \<Rightarrow> err) }) ?Q"
    proof (rule ok_bind [OF ok_Lstat], rule ok_ret, intro impI)
      fix st K1 K2
      assume K: "EvLstat dir st \<in> K1" "K1 \<subseteq> K2" and n: "(case st of Inl se \<Rightarrow> if \<not> IsPermission (FsE se) then None else err | Inr _ \<Rightarrow> err) = None"
      obtain se where "st = Inl se" "se \<noteq> PermissionDenied" using n e by (cases st) (auto split: if_splits)
      then show "gone K2 dir" using K unfolding gone_def seenGone_def by blast
    qed
  qed (use that in \<open>auto intro!: ok_ret intro: gone_mono\<close>)
  have rm: "ok env cfg K' (do { err \<leftarrow> withWritableDir env (\<lambda>p. exec env (OpRemove p)) dir;
      case err of None \<Rightarrow> ret None | Some e \<Rightarrow>
        if IsNotExist e then ret None
        else do { st \<leftarrow> Lstat env dir; ret (case st of Inl se \<Rightarrow> if \<not> IsPermission (FsE se) then None else err | Inr _ \<Rightarrow> err) } }) ?Q"
    if "K \<subseteq> K'" for K'
    by (rule ok_bind [OF ok_remove [OF unchanged_mono [OF assms that]]]) (rule last)
  show ?thesis
    unfolding deleteDirOnDisk_def
  proof (rule ok_bind [OF ok_TraversesSymlink], rule ok_if)
    fix s K1 assume K1: "K \<subseteq> K1"
    show "ok env cfg K1 (do { ce \<leftarrow> deleteDirOnDiskHandleChildren env cfg dir;
        if ce \<noteq> None then ret ce
        else do { err \<leftarrow> withWritableDir env (\<lambda>p. exec env (OpRemove p)) dir;
          case err of None \<Rightarrow> ret None | Some e \<Rightarrow>
            if IsNotExist e then ret None
            else do { st \<leftarrow> Lstat env dir; ret (case st of Inl se \<Rightarrow> if \<not> IsPermission (FsE se) then None else err | Inr _ \<Rightarrow> err) } } }) ?Q"
      by (rule ok_bind [OF ok_children], intro ok_if) (use K1 rm in \<open>auto intro!: ok_ret\<close>)
  qed (auto intro: ok_ret)
qed

lemma ok_deleteItemOnDisk:
  assumes "unchanged cfg K (fName item)"
  shows "ok env cfg K (deleteItemOnDisk env cfg item) anyway"
proof -
  have "ok env cfg K (if IsDirectory item then deleteDirOnDisk env cfg (fName item)
      else if \<not> IsSymlink item \<and> icVersioner cfg then withWritableDir env (\<lambda>p. exec env (OpArchive p)) (fName item)
      else withWritableDir env (\<lambda>p. exec env (OpRemove p)) (fName item)) anyway"
    by (intro ok_if ok_conseq [OF ok_deleteDirOnDisk [OF assms]] ok_conseq [OF ok_archive [OF assms]] ok_conseq [OF ok_remove [OF assms]]) auto
  then show ?thesis unfolding deleteItemOnDisk_def by (rule ok_bind) (auto intro: ok_ret)
qed

lemma ok_makeRoom:
  assumes "unchanged cfg K (fName cur)"
  shows "ok env cfg K (makeRoom env cfg c f cur) anyway"
  unfolding makeRoom_def by (intro ok_if ok_conseq [OF ok_move [OF assms]] ok_deleteItemOnDisk assms) auto

section \<open>The handlers\<close>

lemma ok_then_tame:
  assumes "\<And>K'. K \<subseteq> K' \<Longrightarrow> F K'" and "tame env cfg m"
  shows "ok env cfg K m (\<lambda>e K'. e = None \<longrightarrow> F K')"
  by (rule ok_conseq [OF tame_ok [OF assms(2)]]) (use assms(1) in simp)

lemma ok_createDir: "ok env cfg K (createDir env cfg f mode) anyway"
proof -
  let ?F = "\<lambda>K. EvOp (OpMkdir (fName f) mode) None \<in> K"
  have up: "up ?F" by (auto simp: up_def)
  have mk: "ok env cfg K' (makeDir env cfg f mode (fName f)) (\<lambda>e K''. e = None \<longrightarrow> ?F K'')" for K'
    unfolding makeDir_def
  proof (rule ok_bind [OF ok_exec [OF harmless_just]], simp, rule ok_if)
    fix e K1 assume "(e = None \<longrightarrow> ?F K1) \<and> (\<forall>x. e = Some x \<and> IsNotExist x \<longrightarrow> EvOp (OpMkdir (fName f) mode) (Some NotExist) \<in> K1)" "\<not> e \<noteq> None"
    then have F: "?F K2" if "K1 \<subseteq> K2" for K2 using that by auto
    show "ok env cfg K1 (do { pe \<leftarrow> setPlatformData env cfg f (fName f);
        if pe \<noteq> None then ret pe
        else if icIgnorePerms cfg \<or> fNoPermissions f then ret None
        else do { info \<leftarrow> Lstat env (fName f);
          case info of Inl x \<Rightarrow> ret (Some (FsE x)) | Inr i \<Rightarrow> exec env (OpChmod (fName f) (mode OR (fiMode i AND retainBits))) } })
        (\<lambda>e K''. e = None \<longrightarrow> ?F K'')"
      by (rule ok_then_tame [OF F], assumption,
          intro tame_bind tame_setPlatformData tame_if tame_ret tame_sum tame_prims tame_exec harmless_simps)
  qed (auto intro: ok_ret)
  show ?thesis
    unfolding createDir_def
  proof (rule ok_bind [OF ok_withWritableDir_ok [where F = ?F and fn = "makeDir env cfg f mode" and path = "fName f", OF mk up]], rule ok_option)
    fix e K' assume "e = None \<longrightarrow> ?F K'" "e = None"
    then show "ok env cfg K' (sendJob f dbUpdateHandleDir) anyway" by (intro ok_job) (auto simp: jobJust_def)
  qed (rule ok_err)
qed

lemma entry_of_lookup:
  assumes "EvDb n (Inr r) \<in> K" and "\<forall>f. r = Some f \<longrightarrow> fName f = n"
  shows "known K n (case r of Some c \<Rightarrow> c | None \<Rightarrow> fi_blank)"
    "r \<noteq> None \<Longrightarrow> local_entry K n (case r of Some c \<Rightarrow> c | None \<Rightarrow> fi_blank)"
  using assms by (auto simp: known_def local_entry_def split: option.splits)

text \<open>What is in the way is looked up and compared before anything is done to it.\<close>

lemma ok_checkOld:
  assumes n: "named env" and st: "EvLstat n (Inr i) \<in> K" and bad: "\<And>e K'. ok env cfg K' (bad e) anyway"
    and rest: "\<And>cur ce K'. (ce = None \<Longrightarrow> unchanged cfg K' (fName (case cur of Some c \<Rightarrow> c | None \<Rightarrow> fi_blank)))
      \<Longrightarrow> ok env cfg K' (rest cur ce) anyway"
  shows "ok env cfg K (GetLocal env n \<bind> (\<lambda>cur. case cur of
      Inl e \<Rightarrow> bad e
    | Inr cur \<Rightarrow> scanIfItemChanged env cfg n i (case cur of Some c \<Rightarrow> c | None \<Rightarrow> fi_blank) (cur \<noteq> None) False \<bind> rest cur)) anyway"
proof (rule ok_bind [OF ok_GetLocal [OF n]], rule ok_sum [OF bad])
  fix a K1 r assume K1: "K \<subseteq> K1" "EvDb n a \<in> K1 \<and> (\<forall>g. a = Inr (Some g) \<longrightarrow> fName g = n)" "a = Inr r"
  let ?c = "case r of Some c \<Rightarrow> c | None \<Rightarrow> fi_blank"
  have "known K1 n ?c" using K1 by (intro entry_of_lookup) auto
  then have "ok env cfg K1 (scanIfItemChanged env cfg n i ?c (r \<noteq> None) False) (\<lambda>e K'. e = None \<longrightarrow> unchanged cfg K' (fName ?c))"
    using st K1(1) by (intro ok_conseq [OF ok_scanIfItemChanged]) auto
  then show "ok env cfg K1 (scanIfItemChanged env cfg n i ?c (r \<noteq> None) False \<bind> rest r) anyway"
    by (rule ok_bind) (use rest in blast)
qed

lemma ok_handleDir:
  assumes "named env"
  shows "ok env cfg K (handleDir env cfg f) anyway"
  unfolding handleDir_def Let_def
proof (rule ok_bind [OF ok_Lstat], rule ok_sum)
  fix a K' e
  show "ok env cfg K' (if IsNotExist (FsE e) then createDir env cfg f mode
      else newPullError (fName f) (Wrap ''checking file to be replaced'' (FsE e))) anyway" for mode
    by (intro ok_if ok_createDir ok_err)
next
  fix a K' i assume st: "EvLstat (fName f) a \<in> K'" "a = Inr i"
  show "ok env cfg K' (if \<not> fiIsDir i then do {
        cur \<leftarrow> GetLocal env (fName f);
        case cur of Inl e \<Rightarrow> newPullError (fName f) (Wrap ''handling dir'' e)
        | Inr cur \<Rightarrow> do {
            ce \<leftarrow> scanIfItemChanged env cfg (fName f) i (case cur of Some c \<Rightarrow> c | None \<Rightarrow> fi_blank) (cur \<noteq> None) False;
            case ce of Some e \<Rightarrow> newPullError (fName f) (Wrap ''handling dir'' e)
            | None \<Rightarrow> do {
                err \<leftarrow> makeRoom env cfg (\<not> IsSymlink (case cur of Some c \<Rightarrow> c | None \<Rightarrow> fi_blank) \<and>
                          InConflictWith f (case cur of Some c \<Rightarrow> c | None \<Rightarrow> fi_blank)) f (case cur of Some c \<Rightarrow> c | None \<Rightarrow> fi_blank);
                case err of Some e \<Rightarrow> newPullError (fName f) e | None \<Rightarrow> createDir env cfg f mode } } }
      else if \<not> icIgnorePerms cfg \<and> \<not> fNoPermissions f then do {
        e \<leftarrow> exec env (OpChmod (fName f) (mode OR (fiMode i AND retainBits)));
        case e of Some x \<Rightarrow> newPullError (fName f) (Wrap ''handling dir (setting permissions)'' x)
        | None \<Rightarrow> do {
            pe \<leftarrow> setPlatformData env cfg f (fName f);
            case pe of Some x \<Rightarrow> newPullError (fName f) (Wrap ''handling dir (setting metadata)'' x)
            | None \<Rightarrow> sendJob f dbUpdateHandleDir } }
      else sendJob f dbUpdateHandleDir) anyway" for mode
  proof (rule ok_if, goal_cases)
    case 1
    show ?case
      by (rule ok_checkOld [OF assms], use st in simp, rule ok_err,
          rule ok_option, rule ok_bind [OF ok_makeRoom], simp, rule ok_option, rule ok_createDir, rule ok_err, rule ok_err)
  next
    case 2
    have job: "ok env cfg K2 (sendJob f dbUpdateHandleDir) anyway" if "K' \<subseteq> K2" for K2
      using st 2 that by (intro ok_job) (auto simp: jobJust_def)
    show ?case
    proof (rule ok_if, rule ok_bind_tame [OF tame_exec [OF harmless_simps(4)]], rule ok_option, rule ok_bind_tame [OF tame_setPlatformData], rule ok_option,
        goal_cases)
      case (1 a K1 b K2)
      then show ?case by (intro job) blast
    qed (use job in \<open>auto intro: ok_err\<close>)
  qed
qed

lemma tame_checkParent: "tame env cfg (checkParent env cfg n)"
proof -
  have "tame env cfg (TraversesSymlink env d)" for d
    unfolding tame_def by (blast intro: ok_conseq [OF ok_TraversesSymlink])
  then show ?thesis unfolding checkParent_def Let_def
    by (intro tame_bind tame_option tame_if tame_ret tame_prims tame_exec harmless_simps)
qed

lemma ok_checkExisting:
  assumes "named env"
  shows "ok env cfg K (handleSymlinkCheckExisting env cfg f) anyway"
  unfolding handleSymlinkCheckExisting_def Let_def
proof (rule ok_bind [OF ok_Lstat], rule ok_sum)
  fix a K' e show "ok env cfg K' (ret (if IsNotExist (FsE e) then None else Some (FsE e))) anyway" by (rule ok_ret) simp
next
  fix a K' i assume st: "EvLstat (fName f) a \<in> K'" "a = Inr i"
  show "ok env cfg K' (do {
         cur \<leftarrow> GetLocal env (fName f);
         case cur of
           Inl e \<Rightarrow> ret (Some e)
         | Inr cur \<Rightarrow> do {
             ce \<leftarrow> scanIfItemChanged env cfg (fName f) i (case cur of Some c \<Rightarrow> c | None \<Rightarrow> fi_blank) (cur \<noteq> None) False;
             if ce \<noteq> None then ret ce
             else makeRoom env cfg (\<not> IsDirectory (case cur of Some c \<Rightarrow> c | None \<Rightarrow> fi_blank)
               \<and> \<not> IsSymlink (case cur of Some c \<Rightarrow> c | None \<Rightarrow> fi_blank)
               \<and> InConflictWith f (case cur of Some c \<Rightarrow> c | None \<Rightarrow> fi_blank)) f (case cur of Some c \<Rightarrow> c | None \<Rightarrow> fi_blank) } }) anyway"
    by (rule ok_checkOld [OF assms], use st in simp, rule ok_ret, simp, rule ok_if, rule ok_ret, simp, rule ok_makeRoom, simp)
qed

lemma ok_handleSymlink:
  assumes "named env"
  shows "ok env cfg K (handleSymlink env cfg f) anyway"
proof -
  let ?F = "\<lambda>K. EvOp (OpSymlink (fSymlinkTarget f) (fName f)) None \<in> K"
  have up: "up ?F" by (auto simp: up_def)
  have mk: "ok env cfg K' (createLink env cfg f (fName f)) (\<lambda>e K''. e = None \<longrightarrow> ?F K'')" for K'
    unfolding createLink_def
  proof (rule ok_bind [OF ok_exec [OF harmless_just]], simp, rule ok_if)
    fix e K1 assume "(e = None \<longrightarrow> ?F K1) \<and> (\<forall>x. e = Some x \<and> IsNotExist x \<longrightarrow> EvOp (OpSymlink (fSymlinkTarget f) (fName f)) (Some NotExist) \<in> K1)"
      "\<not> e \<noteq> None"
    then show "ok env cfg K1 (setPlatformData env cfg f (fName f)) (\<lambda>e K''. e = None \<longrightarrow> ?F K'')"
      by (intro ok_then_tame tame_setPlatformData) auto
  qed (auto intro: ok_ret)
  show ?thesis
    unfolding handleSymlink_def
  proof (rule ok_if [OF ok_err], rule ok_bind [OF ok_checkExisting [OF assms]], rule ok_option,
      rule ok_bind [OF ok_withWritableDir_ok [where F = ?F and fn = "createLink env cfg f" and path = "fName f", OF mk up]], rule ok_option, goal_cases)
    case (1 a K1 b K2)
    then show ?case by (intro ok_job) (auto simp: jobJust_def)
  qed (rule ok_err)+
qed

section \<open>Deletions\<close>

lemma ok_deleteDir:
  assumes "named env"
  shows "ok env cfg K (deleteDir env cfg f) anyway"
  unfolding deleteDir_def
proof (rule ok_bind [OF ok_GetLocal [OF assms]], rule ok_sum [OF ok_err])
  fix a K1 r assume K1: "EvDb (fName f) a \<in> K1 \<and> (\<forall>g. a = Inr (Some g) \<longrightarrow> fName g = fName f)" "a = Inr r"
  let ?c = "case r of Some c \<Rightarrow> c | None \<Rightarrow> fi_blank"
  have le: "r \<noteq> None \<Longrightarrow> local_entry K1 (fName f) ?c" using K1 by (cases r) (auto simp: local_entry_def)
  have job: "gone K' (fName f) \<Longrightarrow> ok env cfg K' (sendJob f dbUpdateDeleteDir) anyway" for K'
    by (intro ok_job) (simp add: jobJust_def)
  show "ok env cfg K1 (do {
      ce \<leftarrow> checkToBeDeleted env cfg f ?c (r \<noteq> None);
      case ce of
        Some e \<Rightarrow> if IsNotExist e \<or> IsErrCaseConflict e then sendJob f dbUpdateDeleteDir else newPullError (fName f) (Wrap ''delete dir'' e)
      | None \<Rightarrow> do {
          err \<leftarrow> deleteDirOnDisk env cfg (fName f);
          case err of Some e \<Rightarrow> newPullError (fName f) (Wrap ''delete dir'' e) | None \<Rightarrow> sendJob f dbUpdateDeleteDir } }) anyway"
  proof (rule ok_bind [OF ok_checkToBeDeleted [OF le]], assumption, rule ok_option, rule ok_bind [OF ok_deleteDirOnDisk], goal_cases)
    case (2 ce K2 err K3)
    then show ?case by (intro ok_option job ok_err) auto
  next
    case (3 ce K2 e)
    then show ?case by (intro ok_if job ok_err) auto
  qed simp
qed

lemma ok_deleteFileWithCurrent:
  assumes "hasCur \<Longrightarrow> local_entry K (fName f) cur"
  shows "ok env cfg K (deleteFileWithCurrent env cfg f cur hasCur) anyway"
  unfolding deleteFileWithCurrent_def
proof (rule ok_bind [OF ok_checkToBeDeleted [OF assms]], assumption, rule ok_option, goal_cases)
  case (1 ce K1)
  then have u: "unchanged cfg K1 (fName f)" and h: hasCur by auto
  have nm: "fName cur = fName f" using assms [OF h] by (simp add: local_entry_def)
  have job: "gone K' (fName f) \<Longrightarrow> ok env cfg K' (sendJob f dbUpdateDeleteFile) anyway" for K'
    by (intro ok_job) (simp add: jobJust_def)
  have rm: "ok env cfg K1 (if InConflictWith f cur \<and> \<not> IsSymlink cur
        then withWritableDir env (moveForConflict env cfg (ShortID_String (fModifiedBy f))) (fName cur)
        else if icVersioner cfg \<and> \<not> IsSymlink cur then withWritableDir env (\<lambda>p. exec env (OpArchive p)) (fName f)
        else withWritableDir env (\<lambda>p. exec env (OpRemove p)) (fName f))
      (\<lambda>e K'. (e = None \<longrightarrow> gone K' (fName f)) \<and> (\<forall>x. e = Some x \<and> IsNotExist x \<longrightarrow> gone K' (fName f)))"
    unfolding nm by (intro ok_if ok_move ok_archive ok_remove u)
  show ?case
  proof (rule ok_if [OF ok_err], rule ok_bind [OF rm], rule ok_if, goal_cases)
    case (1 err K2)
    then have g: "gone K2 (fName f)" by (cases err) auto
    show ?case by (rule ok_bind [OF job [OF g]], intro ok_option ok_ret ok_err) simp
  next
    case (2 err K2)
    show ?case
    proof (rule ok_bind [OF ok_Lstat], rule ok_if, goal_cases)
      case (1 st K3)
      then obtain se where "st = Inl se" "se \<noteq> PermissionDenied" by (cases st) auto
      then have "gone K3 (fName f)" using 1 unfolding gone_def seenGone_def by blast
      then show ?case by (rule job)
    qed (rule ok_err)
  qed
next
  case (2 ce K1 e)
  have "gone K1 (fName f)" if "IsNotExist e \<or> IsErrCaseConflict e" using 2 that by auto
  then show ?case by (intro ok_if ok_err ok_job) (simp add: jobJust_def)
qed

lemma ok_deleteFile:
  assumes "named env"
  shows "ok env cfg K (deleteFile env cfg f) anyway"
  unfolding deleteFile_def
proof (rule ok_bind [OF ok_GetLocal [OF assms]], rule ok_sum [OF ok_err], rule ok_deleteFileWithCurrent)
  fix a K1 r assume "EvDb (fName f) a \<in> K1 \<and> (\<forall>g. a = Inr (Some g) \<longrightarrow> fName g = fName f)" "a = Inr r" "r \<noteq> None"
  then show "local_entry K1 (fName f) (case r of Some c \<Rightarrow> c | None \<Rightarrow> fi_blank)"
    by (cases r) (auto simp: local_entry_def)
qed

section \<open>Replacing and renaming\<close>

lemma ok_performFinish:
  assumes cur: "hasCur \<Longrightarrow> known K (fName f) cur" and temp: "isTempName env cfg temp"
  shows "ok env cfg K (performFinish env cfg f cur hasCur temp) anyway"
proof -
  let ?F = "\<lambda>K. EvOp (OpRename temp (fName f)) None \<in> K"
  have up: "up ?F" by (auto simp: up_def)
  have old: "ok env cfg K' (case stat of
        Inr st \<Rightarrow> do {
          ce \<leftarrow> scanIfItemChanged env cfg (fName f) st cur hasCur False;
          case ce of
            Some e \<Rightarrow> ret (Some (Wrap ''checking existing file'' e))
          | None \<Rightarrow> do {
              err \<leftarrow> makeRoom env cfg (\<not> IsDirectory cur \<and> \<not> IsSymlink cur \<and> InConflictWith f cur) f cur;
              ret (map_option (Wrap ''moving for conflict'') err) } }
      | Inl e \<Rightarrow> ret (if \<not> IsNotExist (FsE e) then Some (Wrap ''checking existing file'' (FsE e)) else None))
      (\<lambda>oe K'. oe = None \<longrightarrow> unchanged cfg K' (fName f) \<or> absent K' (fName f))"
    if "K \<subseteq> K'" "EvLstat (fName f) stat \<in> K'" for K' stat
  proof (rule ok_sum, goal_cases)
    case (1 e)
    then show ?case using that by (intro ok_ret) (auto simp: absent_def)
  next
    case (2 st)
    have k: "hasCur \<Longrightarrow> known K' (fName f) cur" using cur known_mono that(1) by blast
    show ?case
    proof (rule ok_bind [OF ok_scanIfItemChanged [OF _ k]], use that 2 in simp, assumption, rule ok_option, rule ok_bind [OF ok_makeRoom], simp,
        goal_cases)
      case (1 ce K1 err K2)
      then show ?case by (intro ok_ret) (auto intro: unchanged_mono)
    qed (auto intro: ok_ret)
  qed
  show ?thesis
    unfolding performFinish_def
  proof (rule ok_bind_tame, intro tame_if tame_exec tame_ret harmless_simps, rule ok_option, rule ok_bind_tame [OF tame_setPlatformData],
      rule ok_option, rule ok_bind [OF ok_Lstat], rule ok_bind [OF old], goal_cases)
    case (3 pe K1 me K2 stat K3 oe K4)
    show ?case
    proof (rule ok_if, rule ok_ret, simp)
      assume "\<not> oe \<noteq> None"
      then have j: "unchanged cfg K4 (fName f) \<or> absent K4 (fName f)" using 3 by auto
      have ren: "ok env cfg K4 (RenameOrCopy env cfg temp (fName f)) (\<lambda>e K'. e = None \<longrightarrow> ?F K')"
        unfolding RenameOrCopy_def
      proof (rule ok_withPreparedTarget [OF _ _ up])
        show "opJust env cfg K4 (OpRemove (fName f))" using j by (auto simp: opJust_def)
        fix K' assume "K4 \<subseteq> K'"
        then have "unchanged cfg K' (fName f) \<or> absent K' (fName f)" using j unchanged_mono absent_mono by blast
        then have "opJust env cfg K' (OpRename temp (fName f))" using temp by (auto simp: opJust_def)
        then show "ok env cfg K' (exec env (OpRename temp (fName f))) (\<lambda>e K''. e = None \<longrightarrow> ?F K'')"
          by (rule ok_conseq [OF ok_exec]) simp
      qed
      show "ok env cfg K4 (do { re \<leftarrow> RenameOrCopy env cfg temp (fName f);
          case re of Some e \<Rightarrow> ret (Some (Wrap ''replacing file'' e))
          | None \<Rightarrow> do { _ \<leftarrow> exec env (OpChtimes (fName f) (ModTime f)); _ \<leftarrow> sendJob f dbUpdateHandleFile; ret None } }) anyway"
      proof (rule ok_bind [OF ren], rule ok_option, rule ok_bind_tame [OF tame_exec], simp, rule ok_bind [OF ok_job], goal_cases)
        case (1 re K5 u K6)
        then show ?case by (auto simp: jobJust_def)
      qed (auto intro: ok_ret)
    qed
  qed (auto intro: ok_ret)
qed

lemma tame_checkTarget: "tame env cfg (checkTarget env cfg source target cur)"
proof -
  have cf: "tame env cfg (CreateFileInfo env cfg i n)" for i n
    unfolding tame_def by (blast intro: ok_conseq [OF ok_CreateFileInfo])
  have mod: "tame env cfg (do { _ \<leftarrow> sendScan n; ret (Some ErrModified) })" for n
    by (intro tame_bind tame_prims tame_ret)
  have mis: "tame env cfg (if c then ret None else do { _ \<leftarrow> sendScan n; ret (Some ErrModified) })" for c n
    by (intro tame_if tame_ret mod)
  have err: "tame env cfg (case e of CaseConflict real \<Rightarrow> if real \<noteq> n then ret (Some (FsE e)) else m
      | _ \<Rightarrow> if IsNotExist (FsE e) then m else ret (Some (FsE e)))"
    if "tame env cfg m" for e n and m :: "item_err option prog"
    using that by (cases e) (auto intro: tame_ret)
  show ?thesis
    unfolding checkTarget_def Let_def
    by (intro tame_bind tame_prims tame_sum err mis tame_option mod cf tame_ret tame_if)
qed

lemma ok_renameFile:
  assumes "named env" and cur: "local_entry K (fName source) cur"
  shows "ok env cfg K (renameFile env cfg cur source target) anyway"
proof -
  let ?temp = "TempName (shaOf env) (isWindows cfg) (fName target)"
  have tmp: "isTempName env cfg ?temp" by (auto simp: isTempName_def)
  have rmt: "opJust env cfg K' (OpRemove ?temp)" for K' using tmp by (simp add: opJust_def disposable_def)
  have away: "ok env cfg K' (if icVersioner cfg then do {
        full \<leftarrow> peek (\<lambda>tr. spaceErr env tr (fSize source));
        if full then ret (Some ErrNoSpace)
        else do { e \<leftarrow> osutilCopy env cfg (fName source) ?temp;
          if e \<noteq> None then ret e else withWritableDir env (\<lambda>p. exec env (OpArchive p)) (fName source) }
      } else RenameOrCopy env cfg (fName source) ?temp) (\<lambda>e K'. e = None \<longrightarrow> gone K' (fName source))"
    if u: "unchanged cfg K' (fName source)" for K'
  proof (rule ok_if)
    have cp: "ok env cfg K2 (osutilCopy env cfg (fName source) ?temp) (\<lambda>e K'. e = None \<longrightarrow> True)" for K2
      unfolding osutilCopy_def
      by (rule ok_withPreparedTarget [OF rmt], rule ok_conseq [OF ok_exec_any]) (use tmp in \<open>auto simp: opJust_def up_def\<close>)
    show "ok env cfg K' (do { full \<leftarrow> peek (\<lambda>tr. spaceErr env tr (fSize source));
        if full then ret (Some ErrNoSpace)
        else do { e \<leftarrow> osutilCopy env cfg (fName source) ?temp;
          if e \<noteq> None then ret e else withWritableDir env (\<lambda>p. exec env (OpArchive p)) (fName source) } })
        (\<lambda>e K'. e = None \<longrightarrow> gone K' (fName source))"
    proof (rule ok_bind_tame [OF tame_prims(5)], rule ok_if, rule ok_ret, simp, rule ok_bind [OF cp], rule ok_if, goal_cases)
      case (2 full K2 e K3)
      then have "unchanged cfg K3 (fName source)" using unchanged_mono [OF u] by blast
      then show ?case by (rule ok_conseq [OF ok_archive]) blast
    qed (rule ok_ret, auto)
    have up: "up (\<lambda>K. gone K (fName source))" unfolding up_def using gone_mono by blast
    show "ok env cfg K' (RenameOrCopy env cfg (fName source) ?temp) (\<lambda>e K'. e = None \<longrightarrow> gone K' (fName source))"
      unfolding RenameOrCopy_def
    proof (rule ok_withPreparedTarget [OF rmt _ up])
      fix K2 assume "K' \<subseteq> K2"
      then have "opJust env cfg K2 (OpRename (fName source) ?temp)" using unchanged_mono [OF u] tmp by (auto simp: opJust_def)
      then show "ok env cfg K2 (exec env (OpRename (fName source) ?temp)) (\<lambda>e K'. e = None \<longrightarrow> gone K' (fName source))"
        by (rule ok_conseq [OF ok_exec_removed [where n = "fName source"]]) (auto simp: gone_def)
    qed
  qed
  show ?thesis
    unfolding renameFile_def Let_def
  proof (rule ok_bind [OF ok_checkToBeDeleted], use cur in simp, rule ok_if, rule ok_ret, simp,
      rule ok_bind [OF ok_GetLocal [OF assms(1)]], rule ok_sum, rule ok_ret, simp, rule ok_bind_tame [OF tame_checkTarget], rule ok_if, rule ok_ret, simp,
      rule ok_bind [OF away], goal_cases)
    case (1 ce K1 a K2 r te K3)
    then show ?case using unchanged_mono [of cfg K1 "fName source" K3] by auto
  next
    case (2 ce K1 a K2 r te K3 err K4)
    let ?c = "case r of Some c \<Rightarrow> c | None \<Rightarrow> fi_blank"
    have "EvDb (fName target) (Inr r) \<in> K2" using 2 by simp
    then have k: "known K2 (fName target) ?c" by (cases r) (simp_all add: known_def)
    have k4: "known K4 (fName target) ?c" by (rule known_mono [OF k]) (use 2 in blast)
    have fin: "ok env cfg K4 (performFinish env cfg target ?c True ?temp) anyway" by (rule ok_performFinish [OF k4 tmp])
    show ?case
    proof (rule ok_if, rule ok_ret, simp, rule ok_bind [OF fin], rule ok_if, rule ok_ret, simp, rule ok_bind [OF ok_job], goal_cases)
      case (1 fe K5)
      then have "gone K4 (fName source)" using 2 by auto
      then have "gone K5 (fName source)" by (rule gone_mono) (use 1 in blast)
      then show ?case by (simp add: jobJust_def)
    qed (rule ok_ret, simp)
  qed
qed

lemma ok_shortcutFile: "ok env cfg K (shortcutFile env cfg f) anyway"
proof -
  have tr: "ok env cfg K' (if icReceiveEncrypted cfg then withWritableDir env (\<lambda>p. exec env (OpTrailer p)) (fName f) else ret None) anyway" for K'
    by (intro ok_if ok_withWritableDir_any ok_exec_any ok_ret) (auto simp: opJust_def)
  show ?thesis
    unfolding shortcutFile_def Let_def
    by (rule ok_bind_tame, intro tame_if tame_exec tame_ret harmless_simps, rule ok_option, rule ok_bind_tame [OF tame_setPlatformData], rule ok_option,
        rule ok_bind [OF tr], rule ok_option, rule ok_bind_tame [OF tame_exec], rule harmless_simps, rule ok_job, simp add: jobJust_def, (rule ok_err)+)
qed

end
