(* ===== verification/Pull_Iteration.thy ===== *)
theory Pull_Iteration
  imports Item_Safety Job_Queue Transition Protocol_Conn
begin

text \<open>
  One iteration of the puller, \<open>pullerIteration\<close> of \<open>lib/model/folder_sendrecv.go\<close>: \<open>processNeeded\<close>
  sorts the needed items and works through the queue of files, \<open>processDeletions\<close> follows, and the
  finisher replaces files that were fetched at any time in between. A step is the treatment of
  one item; what happens to the contents while they are fetched is the subject of \<open>Pull_Pipeline\<close>.
\<close>

section \<open>State\<close>

record started_file =
  sfFile :: FileInfo
  sfCur :: FileInfo
  sfHasCur :: bool
  sfTemp :: string

record iter_state =
  itTrace :: trace
  itQueue :: jobQueue
  itBuckets :: "byte list \<Rightarrow> FileInfo list"
  itFileDeletions :: "(string \<times> FileInfo) list"
  itDirDeletions :: "FileInfo list"
  itStarted :: "started_file list"

definition startIteration :: "trace \<Rightarrow> iter_state" where
  "startIteration tr = \<lparr>itTrace = tr, itQueue = newJobQueue, itBuckets = (\<lambda>_. []), itFileDeletions = [],
     itDirDeletions = [], itStarted = []\<rparr>"

text \<open>Running a program on the trace of the iteration.\<close>

definition runOn :: "'a prog \<Rightarrow> iter_state \<Rightarrow> 'a \<times> iter_state" where
  "runOn m s = (case run_state m (itTrace s) of (a, tr) \<Rightarrow> (a, s\<lparr>itTrace := tr\<rparr>))"

definition runItem :: "unit prog \<Rightarrow> iter_state \<Rightarrow> iter_state" where
  "runItem m s = snd (runOn m s)"

section \<open>Sorting the needed items\<close>

definition handled :: "iter_state \<Rightarrow> (unit, item_err option \<times> iter_state) result" where
  "handled s = Ok (None, s)"

definition needDeletedFile ::
  "item_env \<Rightarrow> item_cfg \<Rightarrow> FileInfo \<Rightarrow> iter_state \<Rightarrow> (unit, item_err option \<times> iter_state) result" where
  "needDeletedFile env cfg f s =
     (case runOn (GetLocal env (fName f)) s of
        (Inl e, s) \<Rightarrow> Ok (Some e, s)
      | (Inr df, s) \<Rightarrow>
          (case df of
             Some d \<Rightarrow>
               if \<not> fDeleted d \<and> \<not> IsSymlink d \<and> \<not> IsDirectory d \<and> \<not> IsInvalid d then
                 handled (s\<lparr>itFileDeletions := AList.update (fName f) f (itFileDeletions s),
                            itBuckets := (itBuckets s)(fBlocksHash d := itBuckets s (fBlocksHash d) @ [d])\<rparr>)
               else handled (runItem (deleteFileWithCurrent env cfg f d True) s)
           | None \<Rightarrow> handled (runItem (deleteFileWithCurrent env cfg f fi_blank False) s)))"

definition needFile ::
  "item_env \<Rightarrow> item_cfg \<Rightarrow> FileInfo \<Rightarrow> iter_state \<Rightarrow> (unit, item_err option \<times> iter_state) result" where
  "needFile env cfg f s =
     (case runOn (GetLocal env (fName f)) s of
        (Inl e, s) \<Rightarrow> Ok (Some e, s)
      | (Inr cur, s) \<Rightarrow>
          if cur \<noteq> None \<and> BlocksEqual f (the cur)
          then handled (runItem (shortcutFile env cfg f) (s\<lparr>itQueue := Done (fName f) (itQueue s)\<rparr>))
          else handled (s\<lparr>itQueue := Push (fName f) (fSize f) (ModTime f) (itQueue s)\<rparr>))"

definition unsupportedSymlink :: "item_env \<Rightarrow> item_cfg \<Rightarrow> FileInfo \<Rightarrow> unit prog" where
  "unsupportedSymlink env cfg f = do {
     e \<leftarrow> handleSymlinkCheckExisting env cfg f;
     case e of
       Some x \<Rightarrow> newPullError (fName f) (Wrap ''handling unsupported symlink'' x)
     | None \<Rightarrow> sendJob (SetUnsupported f) dbUpdateInvalidate }"

definition withParent :: "item_env \<Rightarrow> item_cfg \<Rightarrow> string \<Rightarrow> unit prog \<Rightarrow> unit prog" where
  "withParent env cfg n m = do { okay \<leftarrow> checkParent env cfg n; if okay then m else ret () }"

definition needItem ::
  "item_env \<Rightarrow> item_cfg \<Rightarrow> FileInfo \<Rightarrow> iter_state \<Rightarrow> (unit, item_err option \<times> iter_state) result" where
  "needItem env cfg f s =
     (if icIgnoreDelete cfg \<and> fDeleted f then handled s
      else if R_IsIgnored (ignoreMatch env (fName f)) then handled (runItem (sendJob (SetIgnored f) dbUpdateInvalidate) s)
      else if isWindows cfg \<and> WindowsInvalidFilename (fName f) \<noteq> None then
        handled (runItem (if fDeleted f then sendJob f dbUpdateDeleteFile
                          else newPullError (fName f) (the (WindowsInvalidFilename (fName f)))) s)
      else if fDeleted f then
        (if IsDirectory f then handled (s\<lparr>itDirDeletions := itDirDeletions s @ [f]\<rparr>)
         else if IsSymlink f then handled (runItem (deleteFile env cfg f) s)
         else needDeletedFile env cfg f s)
      else if fType f = FileInfoTypeFile then needFile env cfg f s
      else if (isWindows cfg \<or> icAndroid cfg) \<and> IsSymlink f then handled (runItem (unsupportedSymlink env cfg f) s)
      else if IsDirectory f \<and> \<not> IsSymlink f then handled (runItem (withParent env cfg (fName f) (handleDir env cfg f)) s)
      else if IsSymlink f then handled (runItem (withParent env cfg (fName f) (handleSymlink env cfg f)) s)
      else Panic)"

section \<open>The queue of files\<close>

definition globalFile :: "item_env \<Rightarrow> trace \<Rightarrow> string \<Rightarrow> item_err + FileInfo option" where
  "globalFile env tr n =
     (case GetGlobalFile (dbEnv env) n (dbAt env tr) of Ok r \<Rightarrow> Inr r | _ \<Rightarrow> Inl ErrDatabase)"

definition fileAvailability :: "item_env \<Rightarrow> FileInfo \<Rightarrow> trace \<Rightarrow> DeviceID list" where
  "fileAvailability env f tr =
     filter (\<lambda>d. (case remoteFolderStates env tr d of
                    None \<Rightarrow> False
                  | Some st \<Rightarrow> st (icFolder env) = Some remoteFolderValid) \<and> deviceConnected env tr d)
       (GetGlobalAvailability (dbEnv env) (fName f) (dbAt env tr))"

definition popCandidate :: "(byte list \<Rightarrow> FileInfo list) \<Rightarrow> byte list \<Rightarrow> (FileInfo \<times> (byte list \<Rightarrow> FileInfo list)) option" where
  "popCandidate buckets key =
     (case buckets key of [] \<Rightarrow> None | c # cs \<Rightarrow> Some (c, buckets(key := cs)))"

text \<open>Trying to rename a file that is to be deleted and has the content that is needed; \<open>True\<close> when that was done.\<close>

function tryRenames :: "item_env \<Rightarrow> item_cfg \<Rightarrow> FileInfo \<Rightarrow> iter_state \<Rightarrow> bool \<times> iter_state" where
  "tryRenames env cfg fi s =
     (case popCandidate (itBuckets s) (fBlocksHash fi) of
        None \<Rightarrow> (False, s)
      | Some (candidate, buckets) \<Rightarrow>
          let desired = (case map_of (itFileDeletions s) (fName candidate) of Some d \<Rightarrow> d | None \<Rightarrow> fi_blank);
              (err, s') = runOn (renameFile env cfg candidate desired fi) (s\<lparr>itBuckets := buckets\<rparr>)
          in if err \<noteq> None then tryRenames env cfg fi s'
             else (True, s'\<lparr>itFileDeletions := AList.delete (fName candidate) (itFileDeletions s')\<rparr>))"
  by pat_completeness auto
termination
proof (relation "measure (\<lambda>(env, cfg, fi, s). length (itBuckets s (fBlocksHash fi)))", goal_cases)
  case (2 env cfg fi s x candidate buckets desired rs err s')
  then have "itBuckets s (fBlocksHash fi) \<noteq> [] \<and> itBuckets s' = (itBuckets s)(fBlocksHash fi := tl (itBuckets s (fBlocksHash fi)))"
    by (auto simp: popCandidate_def runOn_def split: list.splits prod.splits)
  then show ?case by (cases "itBuckets s (fBlocksHash fi)") auto
qed simp

declare tryRenames.simps [simp del]

text \<open>
  \<open>handleFile\<close> as this level sees it: the lookup of the current file, an old temporary file
  discarded when none of its blocks can be reused, and the fetching that then goes on by itself.
\<close>

definition startFile :: "item_env \<Rightarrow> item_cfg \<Rightarrow> bool \<Rightarrow> FileInfo \<Rightarrow> iter_state \<Rightarrow> iter_state" where
  "startFile env cfg reuse f s =
     (case runOn (GetLocal env (fName f)) s of
        (Inl e, s) \<Rightarrow> runItem (newPullError (fName f) e) s
      | (Inr cur, s) \<Rightarrow>
          let temp = TempName (shaOf env) (isWindows cfg) (fName f);
              s1 = (if reuse then s else snd (runOn (withWritableDir env (\<lambda>p. exec env (OpRemove p)) temp) s))
          in s1\<lparr>itStarted := itStarted s1 @
                  [\<lparr>sfFile = f\<lparr>fBlocks := populateOffsets (fBlocks f)\<rparr>, sfCur = (case cur of Some c \<Rightarrow> c | None \<Rightarrow> fi_blank),
                    sfHasCur = (cur \<noteq> None), sfTemp = temp\<rparr>]\<rparr>)"

definition markDone :: "string \<Rightarrow> iter_state \<Rightarrow> iter_state" where
  "markDone n s = s\<lparr>itQueue := Done n (itQueue s)\<rparr>"

text \<open>One round of the second loop of \<open>processNeeded\<close>, for the name taken from the queue.\<close>

definition nextFile ::
  "item_env \<Rightarrow> item_cfg \<Rightarrow> bool \<Rightarrow> string \<Rightarrow> iter_state \<Rightarrow> item_err option \<times> iter_state" where
  "nextFile env cfg reuse fileName s =
     (case globalFile env (itTrace s) fileName of
        Inl e \<Rightarrow> (Some e, s)
      | Inr None \<Rightarrow> (None, markDone fileName s)
      | Inr (Some fi) \<Rightarrow>
          if fDeleted fi \<or> IsInvalid fi \<or> fType fi \<noteq> FileInfoTypeFile then (None, markDone fileName s)
          else
            (let (okay, s) = runOn (checkParent env cfg (fName fi)) s in
             if \<not> okay then (None, markDone fileName s)
             else
               (let (renamed, s) = tryRenames env cfg fi s in
                if renamed then (None, markDone fileName s)
                else if fileAvailability env fi (itTrace s) = [] then
                  (None, markDone fileName (runItem (newPullError fileName ErrNotAvailable) s))
                else if spaceErr env (itTrace s) (fSize fi) then
                  (None, markDone fileName (runItem (newPullError fileName ErrNoSpace) s))
                else (None, startFile env cfg reuse fi s))))"

text \<open>The finisher, once the file is closed with the error \<open>err\<close>.\<close>

definition finishFile :: "item_env \<Rightarrow> item_cfg \<Rightarrow> item_err option \<Rightarrow> started_file \<Rightarrow> iter_state \<Rightarrow> iter_state" where
  "finishFile env cfg err x s0 =
     (let s = markDone (fName (sfFile x)) s0;
          (err, s) = (case err of
             Some e \<Rightarrow> (Some e, s)
           | None \<Rightarrow> runOn (performFinish env cfg (sfFile x) (sfCur x) (sfHasCur x) (sfTemp x)) s)
      in case err of
           Some e \<Rightarrow> runItem (newPullError (fName (sfFile x)) (Wrap ''finishing'' e)) s
         | None \<Rightarrow> s)"

section \<open>The iteration\<close>

datatype phase = Needed "FileInfo list" | Queueing | Draining bool | Deleting | Finished

inductive iter_step :: "item_env \<Rightarrow> item_cfg \<Rightarrow> phase \<times> iter_state \<Rightarrow> phase \<times> iter_state \<Rightarrow> bool" for env cfg where
  need_item: "needItem env cfg f s = Ok (None, s') \<Longrightarrow> iter_step env cfg (Needed (f # fs), s) (Needed fs, s')"
| need_error: "needItem env cfg f s = Ok (Some e, s') \<Longrightarrow> iter_step env cfg (Needed (f # fs), s) (Draining False, s')"
| need_cancelled: "iter_step env cfg (Needed fs, s) (Draining False, s)"
| need_end: "iter_step env cfg (Needed [], s) (Queueing, s)"
| queue_file: "Pop (itQueue s) = (Some n, q) \<Longrightarrow> nextFile env cfg reuse n (s\<lparr>itQueue := q\<rparr>) = (None, s')
    \<Longrightarrow> iter_step env cfg (Queueing, s) (Queueing, s')"
| queue_error: "Pop (itQueue s) = (Some n, q) \<Longrightarrow> nextFile env cfg reuse n (s\<lparr>itQueue := q\<rparr>) = (Some e, s')
    \<Longrightarrow> iter_step env cfg (Queueing, s) (Draining False, s')"
| queue_cancelled: "iter_step env cfg (Queueing, s) (Draining False, s)"
| queue_end: "Pop (itQueue s) = (None, q) \<Longrightarrow> iter_step env cfg (Queueing, s) (Draining True, s)"
| finish: "itStarted s = xs @ x # ys \<Longrightarrow> iter_step env cfg (p, s) (p, finishFile env cfg err x (s\<lparr>itStarted := xs @ ys\<rparr>))"
| drained: "itStarted s = [] \<Longrightarrow> iter_step env cfg (Draining okay, s)
      (if okay then (Deleting, s) else (Finished, s\<lparr>itQueue := Reset (itQueue s)\<rparr>))"
| delete_file: "itFileDeletions s = xs @ (n, f) # ys
    \<Longrightarrow> iter_step env cfg (Deleting, s) (Deleting, runItem (deleteFile env cfg f) (s\<lparr>itFileDeletions := xs @ ys\<rparr>))"
| delete_dir: "itFileDeletions s = [] \<Longrightarrow> itDirDeletions s = ds @ [d]
    \<Longrightarrow> iter_step env cfg (Deleting, s) (Deleting, runItem (deleteDir env cfg d) (s\<lparr>itDirDeletions := ds\<rparr>))"
| delete_done: "iter_step env cfg (Deleting, s) (Finished, s\<lparr>itQueue := Reset (itQueue s)\<rparr>)"

inductive_cases iter_stepE [elim]: "iter_step env cfg ps qt"

section \<open>Every step keeps the trace justified\<close>

definition started_ok :: "item_env \<Rightarrow> item_cfg \<Rightarrow> event set \<Rightarrow> started_file list \<Rightarrow> bool" where
  "started_ok env cfg K xs \<longleftrightarrow>
     (\<forall>x\<in>set xs. (sfHasCur x \<longrightarrow> known K (fName (sfFile x)) (sfCur x)) \<and> isTempName env cfg (sfTemp x))"

text \<open>
  No name occurs twice among the files to delete, and none of them is still needed. Every candidate
  for a rename is a local entry with a deletion waiting, and is a candidate once.
\<close>

definition dels_named :: "FileInfo list \<Rightarrow> (string \<times> FileInfo) list \<Rightarrow> bool" where
  "dels_named fs dels \<longleftrightarrow> distinct (map fName fs) \<and> distinct (map fst dels) \<and> (\<forall>(n, f)\<in>set dels. fName f = n)
     \<and> fName ` set fs \<inter> fst ` set dels = {}"

definition candidates_ok :: "event set \<Rightarrow> string set \<Rightarrow> (byte list \<Rightarrow> FileInfo list) \<Rightarrow> bool" where
  "candidates_ok K names b \<longleftrightarrow> (\<forall>k. \<forall>c\<in>set (b k). local_entry K (fName c) c \<and> fName c \<in> names)"

definition once :: "(byte list \<Rightarrow> FileInfo list) \<Rightarrow> bool" where
  "once b \<longleftrightarrow> (\<forall>k. distinct (map fName (b k)))
     \<and> (\<forall>k k'. \<forall>c\<in>set (b k). \<forall>c'\<in>set (b k'). fName c = fName c' \<longrightarrow> k = k')"

definition dels_ok :: "event set \<Rightarrow> FileInfo list \<Rightarrow> (string \<times> FileInfo) list \<Rightarrow> (byte list \<Rightarrow> FileInfo list) \<Rightarrow> bool" where
  "dels_ok K fs dels b \<longleftrightarrow> dels_named fs dels \<and> candidates_ok K (fst ` set dels) b \<and> once b"

definition iter_inv :: "item_env \<Rightarrow> item_cfg \<Rightarrow> FileInfo list \<Rightarrow> iter_state \<Rightarrow> bool" where
  "iter_inv env cfg fs s \<longleftrightarrow> safe env cfg (itTrace s) \<and> started_ok env cfg (set (itTrace s)) (itStarted s)
     \<and> dels_ok (set (itTrace s)) fs (itFileDeletions s) (itBuckets s)"

lemma started_ok_mono: "started_ok env cfg K xs \<Longrightarrow> K \<subseteq> K' \<Longrightarrow> started_ok env cfg K' xs"
  unfolding started_ok_def using known_mono by blast

lemma candidates_ok_mono:
  assumes "candidates_ok K N b" and "K \<subseteq> K'" and "N \<subseteq> N'"
  shows "candidates_ok K' N' b"
  unfolding candidates_ok_def
proof (intro allI ballI conjI)
  fix k c assume "c \<in> set (b k)"
  then have "local_entry K (fName c) c" "fName c \<in> N" using assms(1) by (simp_all add: candidates_ok_def)
  then show "local_entry K' (fName c) c" "fName c \<in> N'" using local_entry_mono assms(2,3) by blast+
qed

lemma dels_ok_mono: "dels_ok K fs dels b \<Longrightarrow> K \<subseteq> K' \<Longrightarrow> dels_ok K' fs dels b"
  unfolding dels_ok_def using candidates_ok_mono [of K "fst ` set dels" b K' "fst ` set dels"] by simp

lemma iter_inv_tail: "iter_inv env cfg (f # fs) s \<Longrightarrow> iter_inv env cfg fs s"
  by (auto simp: iter_inv_def dels_ok_def dels_named_def)

lemma iter_inv_queue [simp]: "iter_inv env cfg fs (s\<lparr>itQueue := q\<rparr>) = iter_inv env cfg fs s"
  "iter_inv env cfg fs (s\<lparr>itDirDeletions := ds\<rparr>) = iter_inv env cfg fs s"
  by (simp_all add: iter_inv_def)

lemma iter_inv_markDone [simp]: "iter_inv env cfg fs (markDone n s) = iter_inv env cfg fs s"
  by (simp add: markDone_def)

lemma runOn_ok:
  assumes "runOn m s = (a, s')" and "ok env cfg (set (itTrace s)) m Q" and "safe env cfg (itTrace s)"
  shows "\<exists>tr. s' = s\<lparr>itTrace := tr\<rparr> \<and> safe env cfg tr \<and> set (itTrace s) \<subseteq> set tr \<and> Q a (set tr)"
proof -
  obtain tr where r: "run_state m (itTrace s) = (a, tr)" "s' = s\<lparr>itTrace := tr\<rparr>"
    using assms(1) by (auto simp: runOn_def split: prod.splits)
  show ?thesis using okD [OF assms(2,3) _ r(1)] r(2) by blast
qed

lemma iter_inv_trace:
  "iter_inv env cfg fs s \<Longrightarrow> safe env cfg tr \<Longrightarrow> set (itTrace s) \<subseteq> set tr \<Longrightarrow> iter_inv env cfg fs (s\<lparr>itTrace := tr\<rparr>)"
  by (auto simp: iter_inv_def intro: started_ok_mono dels_ok_mono)

lemma runOn_inv:
  assumes "runOn m s = (a, s')" and "ok env cfg (set (itTrace s)) m anyway" and "iter_inv env cfg fs s"
  shows "iter_inv env cfg fs s'"
proof -
  have "safe env cfg (itTrace s)" using assms(3) by (simp add: iter_inv_def)
  from runOn_ok [OF assms(1,2) this] show ?thesis using iter_inv_trace [OF assms(3)] by auto
qed

lemma runItem_inv: "ok env cfg (set (itTrace s)) m anyway \<Longrightarrow> iter_inv env cfg fs s \<Longrightarrow> iter_inv env cfg fs (runItem m s)"
  unfolding runItem_def by (rule runOn_inv [OF surjective_pairing])

lemma runItem_fields [simp]:
  "itQueue (runItem m s) = itQueue s" "itStarted (runItem m s) = itStarted s" "itDirDeletions (runItem m s) = itDirDeletions s"
  "itFileDeletions (runItem m s) = itFileDeletions s" "itBuckets (runItem m s) = itBuckets s"
  by (simp_all add: runItem_def runOn_def split: prod.splits)

lemma runOn_fields:
  assumes "runOn m s = (a, s')"
  shows "itQueue s' = itQueue s" "itStarted s' = itStarted s" "itDirDeletions s' = itDirDeletions s"
    "itFileDeletions s' = itFileDeletions s" "itBuckets s' = itBuckets s"
  using assms by (auto simp: runOn_def split: prod.splits)

text \<open>A lookup of the local entry.\<close>

lemma runOn_GetLocal:
  assumes "named env" and "runOn (GetLocal env n) s = (r, s')" and "iter_inv env cfg fs s"
  shows "iter_inv env cfg fs s'" "r = Inr (Some d) \<Longrightarrow> local_entry (set (itTrace s')) n d"
    "r = Inr cur \<Longrightarrow> known (set (itTrace s')) n (case cur of Some c \<Rightarrow> c | None \<Rightarrow> fi_blank)"
proof -
  have s: "safe env cfg (itTrace s)" using assms(3) by (simp add: iter_inv_def)
  from runOn_ok [OF assms(2) ok_GetLocal [OF assms(1)] s]
  obtain tr where tr: "s' = s\<lparr>itTrace := tr\<rparr>" "safe env cfg tr" "set (itTrace s) \<subseteq> set tr" "EvDb n r \<in> set tr"
      "\<forall>f. r = Inr (Some f) \<longrightarrow> fName f = n" by blast
  show "iter_inv env cfg fs s'" unfolding tr(1) by (rule iter_inv_trace [OF assms(3) tr(2,3)])
  show "local_entry (set (itTrace s')) n d" if "r = Inr (Some d)" using tr that by (simp add: local_entry_def)
  show "known (set (itTrace s')) n (case cur of Some c \<Rightarrow> c | None \<Rightarrow> fi_blank)" if "r = Inr cur"
    using tr that by (cases cur) (simp_all add: known_def)
qed

lemma once_add:
  assumes "once b" and "\<And>k. fName d \<notin> fName ` set (b k)"
  shows "once (b(k := b k @ [d]))"
proof -
  have out: "fName c \<noteq> fName d" "fName d \<noteq> fName c" if "c \<in> set (b k')" for c k'
    using assms(2) that by (metis imageI)+
  have uniq: "k1 = k2" if "c \<in> set (b k1)" "c' \<in> set (b k2)" "fName c = fName c'" for k1 k2 c c'
    using assms(1) that unfolding once_def by blast
  have "distinct (map fName (b k'))" for k' using assms(1) unfolding once_def by blast
  then have "distinct (map fName ((b(k := b k @ [d])) k'))" for k'
    using assms(2) by simp
  moreover have "k1 = k2" if "c \<in> set ((b(k := b k @ [d])) k1)" "c' \<in> set ((b(k := b k @ [d])) k2)" "fName c = fName c'" for k1 k2 c c'
    using that out uniq by (auto split: if_splits)
  ultimately show ?thesis unfolding once_def by blast
qed

lemma dels_ok_add:
  assumes "dels_ok K (f # fs) dels b" and "local_entry K (fName f) d"
  shows "dels_ok K fs (AList.update (fName f) f dels) (b(k := b k @ [d]))"
proof -
  have dn: "dels_named (f # fs) dels" and c: "candidates_ok K (fst ` set dels) b" and o: "once b"
    using assms(1) by (simp_all add: dels_ok_def)
  have nm: "fName d = fName f" using assms(2) by (simp add: local_entry_def)
  have new: "fName f \<notin> fst ` set dels" using dn by (auto simp: dels_named_def)
  have up: "AList.update (fName f) f dels = dels @ [(fName f, f)]"
    using new by (induction dels) auto
  have nb: "fName d \<notin> fName ` set (b j)" for j using c new nm by (auto simp: candidates_ok_def)
  have "dels_named fs (dels @ [(fName f, f)])" using dn new by (auto simp: dels_named_def)
  moreover have "candidates_ok K (insert (fName f) (fst ` set dels)) (b(k := b k @ [d]))"
    unfolding candidates_ok_def
  proof (intro allI ballI)
    fix j x assume "x \<in> set ((b(k := b k @ [d])) j)"
    then have "x = d \<or> x \<in> set (b j)" by (auto split: if_splits)
    then show "local_entry K (fName x) x \<and> fName x \<in> insert (fName f) (fst ` set dels)"
      using c assms(2) nm by (auto simp: candidates_ok_def)
  qed
  ultimately show ?thesis
    unfolding dels_ok_def up using once_add [OF o nb] by simp
qed

lemma needDeletedFile_inv:
  assumes "named env" and "needDeletedFile env cfg f s = Ok (e, s')" and "iter_inv env cfg (f # fs) s"
  shows "iter_inv env cfg fs s'"
proof -
  obtain r s1 where l: "runOn (GetLocal env (fName f)) s = (r, s1)" by fastforce
  note i = runOn_GetLocal [OF assms(1) l assms(3)]
  have i1: "iter_inv env cfg fs s1" by (rule iter_inv_tail [OF i(1)])
  show ?thesis
  proof (cases r)
    case (Inl x)
    then show ?thesis using assms(2) l i1 by (simp add: needDeletedFile_def)
  next
    case (Inr df)
    show ?thesis
    proof (cases df)
      case None
      have "iter_inv env cfg fs (runItem (deleteFileWithCurrent env cfg f fi_blank False) s1)"
        by (rule runItem_inv [OF ok_deleteFileWithCurrent i1]) simp
      then show ?thesis using assms(2) l Inr None by (simp add: needDeletedFile_def handled_def)
    next
      case (Some d)
      have le: "local_entry (set (itTrace s1)) (fName f) d" using i(2) Inr Some by simp
      have "iter_inv env cfg fs (runItem (deleteFileWithCurrent env cfg f d True) s1)"
        by (rule runItem_inv [OF ok_deleteFileWithCurrent i1]) (rule le)
      moreover have "iter_inv env cfg fs (s1\<lparr>itFileDeletions := AList.update (fName f) f (itFileDeletions s1),
          itBuckets := (itBuckets s1)(fBlocksHash d := itBuckets s1 (fBlocksHash d) @ [d])\<rparr>)"
        using i(1) dels_ok_add [OF _ le] by (simp add: iter_inv_def)
      ultimately show ?thesis using assms(2) l Inr Some by (auto simp: needDeletedFile_def handled_def split: if_splits)
    qed
  qed
qed

lemma needFile_inv:
  assumes "named env" and "needFile env cfg f s = Ok (e, s')" and "iter_inv env cfg (f # fs) s"
  shows "iter_inv env cfg fs s'"
proof -
  obtain r s1 where l: "runOn (GetLocal env (fName f)) s = (r, s1)" by fastforce
  have i1: "iter_inv env cfg fs s1" by (rule iter_inv_tail [OF runOn_GetLocal(1) [OF assms(1) l assms(3)]])
  have "iter_inv env cfg fs (runItem (shortcutFile env cfg f) (s1\<lparr>itQueue := q\<rparr>))" for q
    by (rule runItem_inv [OF ok_shortcutFile]) (simp add: i1)
  then show ?thesis using assms(2) l i1 by (cases r) (auto simp: needFile_def handled_def split: if_splits)
qed

lemma ok_withParent: "(\<And>K'. ok env cfg K' m anyway) \<Longrightarrow> ok env cfg K (withParent env cfg n m) anyway"
  unfolding withParent_def by (rule ok_bind_tame [OF tame_checkParent], rule ok_if) (auto intro: ok_ret)

lemma ok_unsupportedSymlink: "named env \<Longrightarrow> ok env cfg K (unsupportedSymlink env cfg f) anyway"
  unfolding unsupportedSymlink_def
  by (rule ok_bind [OF ok_checkExisting], assumption, rule ok_option, rule ok_job, simp add: jobJust_def, rule ok_err)

lemma needItem_inv:
  assumes n: "named env" and step: "needItem env cfg f s = Ok (e, s')" and inv: "iter_inv env cfg (f # fs) s"
  shows "iter_inv env cfg fs s'"
proof -
  note t = iter_inv_tail [OF inv]
  have p: "iter_inv env cfg fs (runItem m s)" if "ok env cfg (set (itTrace s)) m anyway" for m
    by (rule runItem_inv [OF that t])
  have win: "isWindows cfg \<and> WindowsInvalidFilename (fName f) \<noteq> None \<Longrightarrow>
      iter_inv env cfg fs (runItem (if fDeleted f then sendJob f dbUpdateDeleteFile else newPullError (fName f) x) s)" for x
    by (intro p ok_if ok_job ok_err) (simp add: jobJust_def)
  have ign: "iter_inv env cfg fs (runItem (sendJob (SetIgnored f) dbUpdateInvalidate) s)"
    by (intro p ok_job) (simp add: jobJust_def)
  note h = p [OF ok_deleteFile [OF n]] p [OF ok_unsupportedSymlink [OF n]] p [OF ok_withParent [OF ok_handleDir [OF n]]]
    p [OF ok_withParent [OF ok_handleSymlink [OF n]]]
  show ?thesis
    using step t win ign h needDeletedFile_inv [OF n _ inv] needFile_inv [OF n _ inv]
    by (simp add: needItem_def handled_def split: if_splits) auto
qed

text \<open>Taking a candidate, and dropping the deletion of the file that was renamed.\<close>

lemma once_pop:
  assumes "once b" and "b k = c # cs"
  shows "once (b(k := cs))" "\<And>j x. x \<in> set ((b(k := cs)) j) \<Longrightarrow> fName x \<noteq> fName c"
proof -
  have sub: "x \<in> set (b j)" if "x \<in> set ((b(k := cs)) j)" for x j using that assms(2) by (auto split: if_splits)
  have dis: "distinct (map fName (b j))" for j using assms(1) unfolding once_def by blast
  have uniq: "k1 = k2" if "x \<in> set (b k1)" "y \<in> set (b k2)" "fName x = fName y" for k1 k2 x y
    using assms(1) that unfolding once_def by blast
  have ck: "fName c \<notin> fName ` set cs" "distinct (map fName cs)" using dis [of k] assms(2) by auto
  have "distinct (map fName ((b(k := cs)) j))" for j using dis [of j] ck by simp
  then show "once (b(k := cs))" unfolding once_def using sub uniq by blast
  fix j x assume x: "x \<in> set ((b(k := cs)) j)"
  show "fName x \<noteq> fName c"
  proof
    assume e: "fName x = fName c"
    have "c \<in> set (b k)" using assms(2) by simp
    then have "j = k" using uniq [OF sub [OF x] _ e] by blast
    then show False using x ck e by (simp add: image_iff) metis
  qed
qed

lemma dels_ok_pop:
  assumes "dels_ok K fs dels b" and "b k = c # cs"
  shows "dels_ok K fs dels (b(k := cs))" "dels_ok K fs (AList.delete (fName c) dels) (b(k := cs))"
    "\<exists>d. map_of dels (fName c) = Some d \<and> fName d = fName c" "local_entry K (fName c) c"
proof -
  have dn: "dels_named fs dels" and ca: "candidates_ok K (fst ` set dels) b" and o: "once b"
    using assms(1) by (simp_all add: dels_ok_def)
  have sub: "x \<in> set (b j)" if "x \<in> set ((b(k := cs)) j)" for x j using that assms(2) by (auto split: if_splits)
  have ca': "candidates_ok K (fst ` set dels) (b(k := cs))" using ca sub unfolding candidates_ok_def by blast
  then show "dels_ok K fs dels (b(k := cs))" using dn once_pop(1) [OF o assms(2)] by (simp add: dels_ok_def)
  have "c \<in> set (b k)" using assms(2) by simp
  then have cc: "local_entry K (fName c) c" "fName c \<in> fst ` set dels" using ca by (simp_all add: candidates_ok_def)
  show "local_entry K (fName c) c" by (rule cc(1))
  obtain d where d: "map_of dels (fName c) = Some d" using cc(2) by (metis map_of_eq_None_iff not_None_eq)
  then show "\<exists>d. map_of dels (fName c) = Some d \<and> fName d = fName c"
    using dn map_of_SomeD [OF d] by (auto simp: dels_named_def)
  have names: "fst ` set (AList.delete (fName c) dels) = fst ` set dels - {fName c}"
    by (auto simp: AList.delete_eq)
  have "candidates_ok K (fst ` set dels - {fName c}) (b(k := cs))"
    using ca' once_pop(2) [OF o assms(2)] unfolding candidates_ok_def by blast
  moreover have "dels_named fs (AList.delete (fName c) dels)"
    using dn names by (auto simp: dels_named_def AList.delete_eq distinct_map_filter)
  ultimately show "dels_ok K fs (AList.delete (fName c) dels) (b(k := cs))"
    using once_pop(1) [OF o assms(2)] by (simp add: dels_ok_def names)
qed

lemma tryRenames_inv:
  "named env \<Longrightarrow> iter_inv env cfg fs s \<Longrightarrow> tryRenames env cfg fi s = (r, s') \<Longrightarrow> iter_inv env cfg fs s'"
proof (induction env cfg fi s arbitrary: r s' rule: tryRenames.induct)
  case (1 env cfg fi s)
  let ?k = "fBlocksHash fi"
  show ?case
  proof (cases "itBuckets s ?k")
    case Nil
    then show ?thesis using 1(2-4) by (simp add: tryRenames.simps popCandidate_def)
  next
    case (Cons c cs)
    let ?b = "(itBuckets s)(?k := cs)"
    have pop: "popCandidate (itBuckets s) ?k = Some (c, ?b)" using Cons by (simp add: popCandidate_def)
    have d0: "dels_ok (set (itTrace s)) fs (itFileDeletions s) (itBuckets s)" using 1(3) by (simp add: iter_inv_def)
    note p = dels_ok_pop [OF d0 Cons]
    obtain d where d: "map_of (itFileDeletions s) (fName c) = Some d" "fName d = fName c" using p(3) by blast
    obtain err s1 where run: "runOn (renameFile env cfg c d fi) (s\<lparr>itBuckets := ?b\<rparr>) = (err, s1)" by fastforce
    have "local_entry (set (itTrace s)) (fName d) c" using p(4) d(2) by simp
    then have okr: "ok env cfg (set (itTrace (s\<lparr>itBuckets := ?b\<rparr>))) (renameFile env cfg c d fi) anyway"
      using ok_renameFile [OF 1(2)] by simp
    have "iter_inv env cfg fs (s\<lparr>itBuckets := ?b\<rparr>)" using 1(3) p(1) by (simp add: iter_inv_def)
    then have i1: "iter_inv env cfg fs s1" by (rule runOn_inv [OF run okr])
    show ?thesis
    proof (cases "err = None")
      case True
      have "safe env cfg (itTrace (s\<lparr>itBuckets := ?b\<rparr>))" using 1(3) by (simp add: iter_inv_def)
      from runOn_ok [OF run okr this] obtain tr where tr: "s1 = s\<lparr>itBuckets := ?b, itTrace := tr\<rparr>" "set (itTrace s) \<subseteq> set tr"
        by auto
      have "iter_inv env cfg fs (s1\<lparr>itFileDeletions := AList.delete (fName c) (itFileDeletions s1)\<rparr>)"
        using i1 dels_ok_mono [OF p(2) tr(2)] by (simp add: iter_inv_def tr(1))
      then show ?thesis using 1(4) pop d run True by (simp add: tryRenames.simps [of env cfg fi s])
    next
      case False
      then have "tryRenames env cfg fi s1 = (r, s')" using 1(4) pop d run by (simp add: tryRenames.simps [of env cfg fi s])
      then show ?thesis
        using 1(1) [of "(c, ?b)" c ?b d "(err, s1)" err s1] pop run d False 1(2) i1 by simp
    qed
  qed
qed

lemma iter_inv_nil: "iter_inv env cfg fs s \<Longrightarrow> iter_inv env cfg [] s"
  by (auto simp: iter_inv_def dels_ok_def dels_named_def)

lemma ok_discard:
  "isTempName env cfg temp \<Longrightarrow> ok env cfg K (withWritableDir env (\<lambda>p. exec env (OpRemove p)) temp) anyway"
  by (rule ok_withWritableDir_any, rule ok_exec_any) (simp add: opJust_def disposable_def)

lemma startFile_inv:
  assumes "named env" and "iter_inv env cfg fs s"
  shows "iter_inv env cfg fs (startFile env cfg reuse f s)"
proof -
  let ?temp = "TempName (shaOf env) (isWindows cfg) (fName f)"
  obtain r s1 where l: "runOn (GetLocal env (fName f)) s = (r, s1)" by fastforce
  note i = runOn_GetLocal [OF assms(1) l assms(2)]
  have tmp: "isTempName env cfg ?temp" by (auto simp: isTempName_def)
  show ?thesis
  proof (cases r)
    case (Inl e)
    then show ?thesis using runItem_inv [OF ok_err i(1)] l by (simp add: startFile_def)
  next
    case (Inr cur)
    let ?c = "case cur of Some c \<Rightarrow> c | None \<Rightarrow> fi_blank"
    let ?m = "withWritableDir env (\<lambda>p. exec env (OpRemove p)) ?temp"
    define s2 where "s2 = (if reuse then s1 else snd (runOn ?m s1))"
    have k: "known (set (itTrace s1)) (fName f) ?c" by (rule i(3)) (rule Inr)
    have s1: "safe env cfg (itTrace s1)" using i(1) by (simp add: iter_inv_def)
    obtain q s' where q: "runOn ?m s1 = (q, s')" by fastforce
    from runOn_ok [OF q ok_discard [OF tmp] s1] obtain tr where "s' = s1\<lparr>itTrace := tr\<rparr>" "set (itTrace s1) \<subseteq> set tr" by blast
    then have sub: "set (itTrace s1) \<subseteq> set (itTrace s2)" using q by (simp add: s2_def)
    have i2: "iter_inv env cfg fs s2"
      using i(1) runOn_inv [OF q ok_discard [OF tmp] i(1)] q by (simp add: s2_def)
    have "known (set (itTrace s2)) (fName f) ?c" by (rule known_mono [OF k sub])
    then have "iter_inv env cfg fs (s2\<lparr>itStarted := itStarted s2 @ [\<lparr>sfFile = f\<lparr>fBlocks := populateOffsets (fBlocks f)\<rparr>,
        sfCur = ?c, sfHasCur = (cur \<noteq> None), sfTemp = ?temp\<rparr>]\<rparr>)"
      using i2 tmp by (auto simp: iter_inv_def started_ok_def)
    then show ?thesis using l Inr by (simp add: startFile_def s2_def Let_def)
  qed
qed

lemma nextFile_inv:
  assumes n: "named env" and "iter_inv env cfg fs s" and step: "nextFile env cfg reuse name s = (e, s')"
  shows "iter_inv env cfg fs s'"
proof (cases "globalFile env (itTrace s) name")
  case (Inl x)
  then show ?thesis using assms by (simp add: nextFile_def)
next
  case (Inr g)
  show ?thesis
  proof (cases g)
    case None
    then have "s' = markDone name s" using step Inr by (simp add: nextFile_def)
    then show ?thesis using assms(2) by simp
  next
    case (Some fi)
    obtain okay s1 where c: "runOn (checkParent env cfg (fName fi)) s = (okay, s1)" by fastforce
    have i1: "iter_inv env cfg fs s1" by (rule runOn_inv [OF c tame_ok [OF tame_checkParent] assms(2)])
    obtain renamed s2 where t: "tryRenames env cfg fi s1 = (renamed, s2)" by fastforce
    have i2: "iter_inv env cfg fs s2" by (rule tryRenames_inv [OF n i1 t])
    have i3: "iter_inv env cfg fs (runItem (newPullError name x) s2)" for x by (rule runItem_inv [OF ok_err i2])
    have i4: "iter_inv env cfg fs (startFile env cfg reuse fi s2)" by (rule startFile_inv [OF n i2])
    have "s' \<in> {markDone name s, markDone name s1, markDone name s2, markDone name (runItem (newPullError name ErrNotAvailable) s2),
        markDone name (runItem (newPullError name ErrNoSpace) s2), startFile env cfg reuse fi s2}"
      using step Inr Some c t by (simp add: nextFile_def split: if_splits)
    then show ?thesis using assms(2) i1 i2 i3 i4 by auto
  qed
qed

lemma finishFile_inv:
  assumes "iter_inv env cfg fs s" and "sfHasCur x \<Longrightarrow> known (set (itTrace s)) (fName (sfFile x)) (sfCur x)"
    and "isTempName env cfg (sfTemp x)"
  shows "iter_inv env cfg fs (finishFile env cfg err x s)"
proof -
  let ?s = "markDone (fName (sfFile x)) s"
  have i: "iter_inv env cfg fs ?s" using assms(1) by simp
  have tr: "itTrace ?s = itTrace s" by (simp add: markDone_def)
  have okf: "ok env cfg (set (itTrace ?s)) (performFinish env cfg (sfFile x) (sfCur x) (sfHasCur x) (sfTemp x)) anyway"
    unfolding tr by (rule ok_performFinish) (use assms(2,3) in auto)
  obtain r s1 where p: "runOn (performFinish env cfg (sfFile x) (sfCur x) (sfHasCur x) (sfTemp x)) ?s = (r, s1)" by fastforce
  have i1: "iter_inv env cfg fs s1" by (rule runOn_inv [OF p okf i])
  note e = runItem_inv [OF ok_err i] runItem_inv [OF ok_err i1]
  show ?thesis using i1 e p by (cases err; cases r) (simp_all add: finishFile_def)
qed

fun phase_needed :: "phase \<Rightarrow> FileInfo list" where
  "phase_needed (Needed fs) = fs"
| "phase_needed _ = []"

text \<open>Once deletions have begun there are no renames any more.\<close>

definition phase_inv :: "item_env \<Rightarrow> item_cfg \<Rightarrow> phase \<times> iter_state \<Rightarrow> bool" where
  "phase_inv env cfg ps \<longleftrightarrow>
     (case ps of (p, s) \<Rightarrow> iter_inv env cfg (phase_needed p)
        (if p = Deleting \<or> p = Finished then s\<lparr>itBuckets := \<lambda>_. [], itFileDeletions := []\<rparr> else s))"

lemma runItem_fields_swap:
  "runItem m (s\<lparr>itBuckets := b, itFileDeletions := d\<rparr>) = (runItem m s)\<lparr>itBuckets := b, itFileDeletions := d\<rparr>"
  "runItem m (s\<lparr>itDirDeletions := ds\<rparr>) = (runItem m s)\<lparr>itDirDeletions := ds\<rparr>"
  "runItem m (s\<lparr>itFileDeletions := d\<rparr>) = (runItem m s)\<lparr>itFileDeletions := d\<rparr>"
  by (simp_all add: runItem_def runOn_def split: prod.splits)

lemma iter_inv_started:
  assumes "iter_inv env cfg fs s" and "itStarted s = xs @ x # ys"
  shows "iter_inv env cfg fs (s\<lparr>itStarted := xs @ ys\<rparr>)"
    "sfHasCur x \<Longrightarrow> known (set (itTrace s)) (fName (sfFile x)) (sfCur x)" "isTempName env cfg (sfTemp x)"
  using assms by (auto simp: iter_inv_def started_ok_def)

lemma finishFile_swap:
  "finishFile env cfg err x (s\<lparr>itBuckets := b, itFileDeletions := d\<rparr>) = (finishFile env cfg err x s)\<lparr>itBuckets := b, itFileDeletions := d\<rparr>"
  by (cases err) (simp_all add: finishFile_def markDone_def runItem_def runOn_def split: prod.splits option.splits)

lemma iter_inv_forget: "iter_inv env cfg fs s \<Longrightarrow> iter_inv env cfg [] (s\<lparr>itBuckets := \<lambda>_. [], itFileDeletions := []\<rparr>)"
  by (simp add: iter_inv_def dels_ok_def dels_named_def candidates_ok_def once_def)

lemma phase_inv_simps:
  "phase_inv env cfg (Needed fs, s) = iter_inv env cfg fs s"
  "phase_inv env cfg (Queueing, s) = iter_inv env cfg [] s"
  "phase_inv env cfg (Draining b, s) = iter_inv env cfg [] s"
  "phase_inv env cfg (Deleting, s) = iter_inv env cfg [] (s\<lparr>itBuckets := \<lambda>_. [], itFileDeletions := []\<rparr>)"
  "phase_inv env cfg (Finished, s) = iter_inv env cfg [] (s\<lparr>itBuckets := \<lambda>_. [], itFileDeletions := []\<rparr>)"
  by (simp_all add: phase_inv_def)

lemma phase_inv_finish:
  assumes "phase_inv env cfg (p, s)" and "itStarted s = xs @ x # ys"
  shows "phase_inv env cfg (p, finishFile env cfg err x (s\<lparr>itStarted := xs @ ys\<rparr>))"
proof -
  let ?f = "\<lambda>s. if p = Deleting \<or> p = Finished then s\<lparr>itBuckets := \<lambda>_. [], itFileDeletions := []\<rparr> else s"
  have i: "iter_inv env cfg (phase_needed p) (?f s)" using assms(1) by (simp add: phase_inv_def)
  have "itStarted (?f s) = xs @ x # ys" using assms(2) by simp
  note st = iter_inv_started [OF i this]
  have "iter_inv env cfg (phase_needed p) (finishFile env cfg err x ((?f s)\<lparr>itStarted := xs @ ys\<rparr>))"
    by (rule finishFile_inv [OF st(1)]) (use st(2,3) in auto)
  moreover have "finishFile env cfg err x ((?f s)\<lparr>itStarted := xs @ ys\<rparr>) = ?f (finishFile env cfg err x (s\<lparr>itStarted := xs @ ys\<rparr>))"
  proof -
    have "s\<lparr>itBuckets := \<lambda>_. [], itFileDeletions := [], itStarted := xs @ ys\<rparr> = s\<lparr>itStarted := xs @ ys, itBuckets := \<lambda>_. [], itFileDeletions := []\<rparr>"
      by simp
    then show ?thesis by (simp only: finishFile_swap split: if_split) simp
  qed
  ultimately show ?thesis by (simp add: phase_inv_def)
qed

lemma phase_step_inv:
  assumes "iter_step env cfg ps qt" and "named env \<and> phase_inv env cfg ps"
  shows "named env \<and> phase_inv env cfg qt"
  using assms
proof (induction rule: iter_step.induct)
  case (need_item f s s' fs)
  then show ?case using needItem_inv by (auto simp: phase_inv_simps)
next
  case (need_error f s e s' fs)
  then have "iter_inv env cfg fs s'" using needItem_inv by (auto simp: phase_inv_simps)
  then show ?case using need_error iter_inv_nil by (auto simp: phase_inv_simps)
next
  case (need_cancelled fs s)
  then show ?case using iter_inv_nil by (auto simp: phase_inv_simps)
next
  case (queue_file s n q reuse s')
  then show ?case using nextFile_inv [of env cfg "[]" "s\<lparr>itQueue := q\<rparr>" reuse n None s'] by (simp add: phase_inv_simps)
next
  case (queue_error s n q reuse e s')
  then show ?case using nextFile_inv [of env cfg "[]" "s\<lparr>itQueue := q\<rparr>" reuse n "Some e" s'] by (simp add: phase_inv_simps)
next
  case (finish s xs x ys p err)
  then show ?case using phase_inv_finish by blast
next
  case (drained s okay)
  then show ?case using iter_inv_forget [of env cfg "[]" s] by (cases okay) (simp_all add: phase_inv_simps, simp add: iter_inv_def)
next
  case (delete_file s xs n f ys)
  let ?s = "s\<lparr>itBuckets := \<lambda>_. [], itFileDeletions := []\<rparr>"
  have "iter_inv env cfg [] (runItem (deleteFile env cfg f) ?s)"
    by (rule runItem_inv [OF ok_deleteFile]) (use delete_file in \<open>auto simp: phase_inv_simps\<close>)
  then have "iter_inv env cfg [] ((runItem (deleteFile env cfg f) s)\<lparr>itBuckets := \<lambda>_. [], itFileDeletions := []\<rparr>)"
    using runItem_fields_swap(1) [where m = "deleteFile env cfg f" and s = s] by simp
  then show ?case using delete_file by (simp add: phase_inv_simps runItem_fields_swap(3) iter_inv_def)
next
  case (delete_dir s ds d)
  let ?s = "s\<lparr>itBuckets := \<lambda>_. [], itFileDeletions := []\<rparr>"
  have "iter_inv env cfg [] (runItem (deleteDir env cfg d) ?s)"
    by (rule runItem_inv [OF ok_deleteDir]) (use delete_dir in \<open>auto simp: phase_inv_simps\<close>)
  then have "iter_inv env cfg [] ((runItem (deleteDir env cfg d) s)\<lparr>itBuckets := \<lambda>_. [], itFileDeletions := []\<rparr>)"
    using runItem_fields_swap(1) [where m = "deleteDir env cfg d" and s = s] by simp
  then show ?case using delete_dir by (simp add: phase_inv_simps runItem_fields_swap(2) iter_inv_def)
next
  case (delete_done s)
  then show ?case by (simp add: phase_inv_simps iter_inv_def)
qed (simp_all add: phase_inv_simps)

definition iter_start :: "item_env \<Rightarrow> phase \<times> iter_state \<Rightarrow> bool" where
  "iter_start env ps \<longleftrightarrow> named env \<and> (\<exists>fs. distinct (map fName fs) \<and> ps = (Needed fs, startIteration []))"

interpretation puller: invariant_system "iter_step env cfg" "iter_start env" "\<lambda>ps. named env \<and> phase_inv env cfg ps"
  for env cfg
proof unfold_locales
  fix s assume "iter_start env s"
  then show "named env \<and> phase_inv env cfg s"
    by (auto simp: iter_start_def phase_inv_simps startIteration_def iter_inv_def started_ok_def dels_ok_def dels_named_def
        candidates_ok_def once_def)
qed (rule phase_step_inv)

lemma reachable_safe:
  assumes "named env" and "distinct (map fName fs)" and "(iter_step env cfg)\<^sup>*\<^sup>* (Needed fs, startIteration []) (p, s)"
  shows "safe env cfg (itTrace s)"
proof -
  have "iter_start env (Needed fs, startIteration [])" using assms(1,2) by (auto simp: iter_start_def)
  from puller.reachable_inv [OF this assms(3)] have "phase_inv env cfg (p, s)" by simp
  then show ?thesis by (cases p) (simp_all add: phase_inv_simps iter_inv_def)
qed

section \<open>The iteration ends\<close>

fun phase_rank :: "phase \<Rightarrow> nat" where
  "phase_rank (Needed fs) = 5 + 3 * length fs"
| "phase_rank Queueing = 4"
| "phase_rank (Draining _) = 3"
| "phase_rank Deleting = 2"
| "phase_rank Finished = 1"

definition iter_measure :: "phase \<times> iter_state \<Rightarrow> nat" where
  "iter_measure ps = (case ps of (p, s) \<Rightarrow> phase_rank p + 2 * length (queued (itQueue s)) + length (itStarted s)
     + length (itFileDeletions s) + length (itDirDeletions s))"

lemma queued_simps [simp]: "queued (Done n q) = queued q" "queued (Reset q) = []"
  by (simp_all add: Done_def Reset_def split: option.splits)

lemma length_update_le: "length (AList.update k v xs) \<le> Suc (length xs)"
  by (induction xs) auto

lemma needItem_measure:
  assumes "needItem env cfg f s = Ok (e, s')"
  shows "iter_measure (Needed fs, s') < iter_measure (Needed (f # fs), s)"
proof -
  obtain r tr where "run_state (GetLocal env (fName f)) (itTrace s) = (r, tr)" by fastforce
  then have l: "runOn (GetLocal env (fName f)) s = (r, s\<lparr>itTrace := tr\<rparr>)" by (simp add: runOn_def)
  show ?thesis
    using assms length_update_le [of "fName f" f "itFileDeletions s"]
    by (cases r) (auto simp: l needItem_def needDeletedFile_def needFile_def handled_def iter_measure_def Push_def
        split: if_splits option.splits)
qed

lemma tryRenames_fields:
  "tryRenames env cfg fi s = (r, s') \<Longrightarrow> itQueue s' = itQueue s \<and> itStarted s' = itStarted s \<and> itDirDeletions s' = itDirDeletions s
     \<and> length (itFileDeletions s') \<le> length (itFileDeletions s)"
proof (induction env cfg fi s arbitrary: r s' rule: tryRenames.induct)
  case (1 env cfg fi s)
  show ?case
  proof (cases "popCandidate (itBuckets s) (fBlocksHash fi)")
    case None
    then show ?thesis using 1(2) by (simp add: tryRenames.simps)
  next
    case (Some cb)
    obtain c b where cb: "cb = (c, b)" by fastforce
    let ?d = "case map_of (itFileDeletions s) (fName c) of Some d \<Rightarrow> d | None \<Rightarrow> fi_blank"
    obtain err s1 where run: "runOn (renameFile env cfg c ?d fi) (s\<lparr>itBuckets := b\<rparr>) = (err, s1)" by fastforce
    note f = runOn_fields [OF run]
    show ?thesis
    proof (cases "err = None")
      case True
      then show ?thesis
        using 1(2) Some cb run f length_filter_le by (auto simp: tryRenames.simps [of env cfg fi s] AList.delete_eq)
    next
      case False
      then have "tryRenames env cfg fi s1 = (r, s')" using 1(2) Some cb run by (simp add: tryRenames.simps [of env cfg fi s])
      then show ?thesis using 1(1) [OF Some cb [symmetric] refl refl run [symmetric] False] f by simp
    qed
  qed
qed

lemma startFile_fields:
  "itQueue (startFile env cfg reuse f s) = itQueue s" "length (itStarted (startFile env cfg reuse f s)) \<le> Suc (length (itStarted s))"
  "itDirDeletions (startFile env cfg reuse f s) = itDirDeletions s" "itFileDeletions (startFile env cfg reuse f s) = itFileDeletions s"
  by (simp_all add: startFile_def Let_def runOn_def split: prod.splits sum.splits)

lemma nextFile_measure:
  assumes "nextFile env cfg reuse n s = (e, s')"
  shows "queued (itQueue s') = queued (itQueue s)" "length (itStarted s') \<le> Suc (length (itStarted s))"
    "itDirDeletions s' = itDirDeletions s" "length (itFileDeletions s') \<le> length (itFileDeletions s)"
proof -
  have "queued (itQueue s') = queued (itQueue s) \<and> length (itStarted s') \<le> Suc (length (itStarted s))
      \<and> itDirDeletions s' = itDirDeletions s \<and> length (itFileDeletions s') \<le> length (itFileDeletions s)"
  proof (cases "globalFile env (itTrace s) n")
    case (Inr g)
    show ?thesis
    proof (cases g)
      case (Some fi)
      obtain okay s1 where c: "runOn (checkParent env cfg (fName fi)) s = (okay, s1)" by fastforce
      obtain renamed s2 where t: "tryRenames env cfg fi s1 = (renamed, s2)" by fastforce
      have "s' \<in> {markDone n s, markDone n s1, markDone n s2, markDone n (runItem (newPullError n ErrNotAvailable) s2),
          markDone n (runItem (newPullError n ErrNoSpace) s2), startFile env cfg reuse fi s2}"
        using assms Inr Some c t by (simp add: nextFile_def split: if_splits)
      then show ?thesis
        using runOn_fields [OF c] tryRenames_fields [OF t] startFile_fields [of env cfg reuse fi s2] by (auto simp: markDone_def)
    qed (use assms Inr in \<open>auto simp: nextFile_def markDone_def\<close>)
  qed (use assms in \<open>auto simp: nextFile_def\<close>)
  then show "queued (itQueue s') = queued (itQueue s)" "length (itStarted s') \<le> Suc (length (itStarted s))"
    "itDirDeletions s' = itDirDeletions s" "length (itFileDeletions s') \<le> length (itFileDeletions s)" by simp_all
qed

lemma finishFile_fields:
  "queued (itQueue (finishFile env cfg err x s)) = queued (itQueue s)" "itStarted (finishFile env cfg err x s) = itStarted s"
  "itDirDeletions (finishFile env cfg err x s) = itDirDeletions s" "itFileDeletions (finishFile env cfg err x s) = itFileDeletions s"
  by (cases err; simp add: finishFile_def markDone_def runOn_def Let_def split: prod.splits option.splits)+

lemma Pop_queued: "Pop q = (Some n, q') \<Longrightarrow> length (queued q) = Suc (length (queued q'))"
  by (auto simp: Pop_def split: list.splits)

lemma iter_step_measure: "iter_step env cfg ps qt \<Longrightarrow> iter_measure qt < iter_measure ps"
proof (induction rule: iter_step.induct)
  case (need_item f s s' fs)
  then show ?case by (rule needItem_measure)
next
  case (need_error f s e s' fs)
  from needItem_measure [OF this, of fs] show ?case by (simp add: iter_measure_def)
next
  case (queue_file s n q reuse s')
  then show ?case using nextFile_measure [OF queue_file(2)] Pop_queued [OF queue_file(1)] by (simp add: iter_measure_def)
next
  case (queue_error s n q reuse e s')
  then show ?case using nextFile_measure [OF queue_error(2)] Pop_queued [OF queue_error(1)] by (simp add: iter_measure_def)
qed (auto simp: iter_measure_def finishFile_fields)

interpretation puller_run: decreasing_system "iter_step env cfg" iter_measure for env cfg
  by unfold_locales (rule iter_step_measure)

lemma stuck_finished:
  assumes "\<And>qt. \<not> iter_step env cfg (p, s) qt"
  shows "p = Finished \<and> itStarted s = []"
proof -
  have st: "itStarted s = []"
  proof (rule ccontr)
    assume "itStarted s \<noteq> []"
    then obtain x ys where "itStarted s = [] @ x # ys" by (cases "itStarted s") auto
    from iter_step.finish [OF this] assms show False by blast
  qed
  show ?thesis
  proof (cases p)
    case (Needed fs)
    then show ?thesis using assms iter_step.need_cancelled by blast
  next
    case Queueing
    then show ?thesis using assms iter_step.queue_cancelled by blast
  next
    case (Draining b)
    then show ?thesis using assms iter_step.drained [OF st] by blast
  next
    case Deleting
    then show ?thesis using assms iter_step.delete_done by blast
  qed (use st in simp)
qed

section \<open>Properties of the iteration\<close>





section \<open>A deletion\<close>

definition sample_link :: FileInfo where
  "sample_link = fi_blank\<lparr>fName := ''a'', fType := FileInfoTypeSymlink, fSymlinkTarget := [98], fVersion := [mkCounter 7 1],
     fNoPermissions := True\<rparr>"

definition sample_needed :: FileInfo where
  "sample_needed = fi_blank\<lparr>fName := ''a'', fType := FileInfoTypeSymlink, fDeleted := True, fVersion := [mkCounter 7 2]\<rparr>"

definition sample_stat :: "bool \<Rightarrow> fs_info" where
  "sample_stat d = \<lparr>fiMode = 493, fiSize = 0, fiModTime = time_Unix 0 0, fiIsDir = d, fiIsRegular = False, fiIsSymlink = (\<not> d)\<rparr>"

definition link_db :: folderDB where
  "link_db = (openFolderDB emptyDB)\<lparr>
     files := [\<lparr>rDevice = 1, rSequence = 1, rRemoteSeq = None, rName = ''a'', rType = FileInfoTypeSymlink, rModified = 0, rSize = 0,
       rVersion = [], rDeleted = False, rFlags = 0, rBlocklist = None\<rparr>],
     fileinfos := (\<lambda>q. if q = 1 then Some [] else None)\<rparr>"

definition link_env :: "bep_FileInfo \<Rightarrow> item_env" where
  "link_env w = \<lparr>lstatOf = (\<lambda>tr n. if n = ''a'' then Inr (sample_stat False) else Inr (sample_stat True)),
     statOf = (\<lambda>tr n. Inr (sample_stat True)), platformOf = (\<lambda>tr n. Inr emptyPlatformData), readlinkOf = (\<lambda>tr n. Inr [98]),
     globOf = (\<lambda>tr p. []), opErr = (\<lambda>tr c. None), dbEnv = stored_env w, dbAt = (\<lambda>tr. link_db), walkOf = (\<lambda>tr d. []),
     ignoreMatch = (\<lambda>n. 0), spaceErr = (\<lambda>tr n. False), remoteFolderStates = (\<lambda>tr d. None), deviceConnected = (\<lambda>tr d. False),
     icFolder = ''f'', timeStamp = (\<lambda>tr. []), shaOf = (\<lambda>b. b), equalFold = (=), trailerOf = (\<lambda>f. 0)\<rparr>"

definition link_cfg :: item_cfg where
  "link_cfg = \<lparr>icOS = OS_Linux, icAndroid = False, icReceiveOnly = False, icReceiveEncrypted = False, icIgnorePerms = False,
     icIgnoreDelete = False, icSyncOwnership = False, icSyncXattrs = False, icCopyOwnershipFromParent = False,
     icVersioner = False, icMaxConflicts = 10, icModTimeWindow = 0\<rparr>"

lemma link_stored: "\<exists>w. FileInfo_ToWire True sample_link = Ok w \<and> FileInfoFromDB (w\<lparr>wName := ''a''\<rparr>) = sample_link"
proof -
  have f: "\<not> fTruncated sample_link" "fi_fits sample_link"
    by (simp_all add: sample_link_def fi_blank_def fi_fits_def is_i32_def emptyPlatformData_def)
  have g: "sample_link\<lparr>fBlocks := []\<rparr> = sample_link" "sample_link\<lparr>fName := ''a''\<rparr> = sample_link" "fBlocks sample_link = []"
    by (simp_all add: sample_link_def fi_blank_def)
  obtain w where w: "FileInfo_ToWire True sample_link = Ok w" using FileInfo_ToWire_cases [OF f(1)] by blast
  then have b: "wBlocks w = []" by (auto simp: FileInfo_ToWire_def Let_def g split: if_splits)
  have "FileInfoFromDB (w\<lparr>wBlocks := map BlockInfo_ToWire (fBlocks sample_link), wName := ''a''\<rparr>) = sample_link\<lparr>fName := ''a''\<rparr>"
    by (rule FromDB_with_blocks [OF _ f(2,1)]) (simp add: w g)
  moreover have "w\<lparr>wBlocks := []\<rparr> = w" using b by (cases w) simp
  ultimately show ?thesis using w b by (simp add: g)
qed

lemma link_open: "devices (openFolderDB emptyDB) = [(1, LocalDeviceID)]"
  by (simp add: openFolderDB_def deviceIdxLocked_def emptyDB_def)

lemma link_lookup:
  assumes "FileInfoFromDB (w\<lparr>wName := ''a''\<rparr>) = sample_link" and "wName w = ''a''"
  shows "lookupFile (link_env w) tr n = Inr (if n = ''a'' then Some sample_link else None)"
proof -
  have "w\<lparr>wName := ''a''\<rparr> = w" using assms(2) by (cases w) simp
  then have "FileInfoFromDB w = sample_link" using assms(1) by simp
  then show ?thesis using assms(2)
    by (simp add: lookupFile_def link_env_def GetDeviceFile_def queryOne_def stored_env_def plain_env_def ownedBy_def link_open
      map_filter_def joinInfo_def indirectFI_FileInfo_def link_db_def)
qed

lemma link_facts:
  "path_Dir ''a'' = dot" "Canonicalize dot = Inr dot" "(fiMode (sample_stat True) AND permBits) AND 128 \<noteq> 0"
  "\<not> InConflictWith sample_needed sample_link"
  "IsEquivalentOptional OS_Linux False (createInfo (sample_stat False) ''a'' emptyPlatformData [98]) sample_link (comparison link_cfg True)"
  by code_simp+

definition link_trace :: trace where
  "link_trace = [EvDb ''a'' (Inr (Some sample_link)), EvLstat ''a'' (Inr (sample_stat False)), EvReadlink ''a'' (Inr [98]),
     EvStat dot (Inr (sample_stat True)), EvOp (OpRemove ''a'') None, EvJob sample_needed dbUpdateDeleteFile]"

lemma link_fields [simp]:
  "fName sample_needed = ''a''" "fName sample_link = ''a''" "\<not> fDeleted sample_link" "fDeleted sample_needed" "IsSymlink sample_link"
  "\<not> IsDirectory sample_link" "IsSymlink sample_needed" "\<not> IsDirectory sample_needed"
  "fiIsSymlink (sample_stat False)" "fiIsDir (sample_stat True)"
  by (simp_all add: sample_needed_def sample_link_def fi_blank_def IsSymlink_def IsDirectory_def sample_stat_def)

lemma link_surroundings [simp]:
  "lstatOf (link_env w) tr n = Inr (sample_stat (n \<noteq> ''a''))" "statOf (link_env w) tr n = Inr (sample_stat True)"
  "readlinkOf (link_env w) tr n = Inr [98]" "opErr (link_env w) tr c = None" "ignoreMatch (link_env w) n = 0"
  "\<not> icSyncOwnership link_cfg" "\<not> icSyncXattrs link_cfg" "icOS link_cfg = OS_Linux" "\<not> icVersioner link_cfg"
  "\<not> icIgnoreDelete link_cfg"
  by (simp_all add: link_env_def link_cfg_def)

lemma link_deleted:
  assumes "FileInfoFromDB (w\<lparr>wName := ''a''\<rparr>) = sample_link" and "wName w = ''a''"
  shows "run_state (deleteFile (link_env w) link_cfg sample_needed) [] = ((), link_trace)"
  using link_facts(3-5)
  by (simp add: deleteFile_def GetLocal_def ask_def link_lookup [OF assms] deleteFileWithCurrent_def checkToBeDeleted_def link_facts(1,2)
     TraversesSymlink_def Lstat_def scanIfItemChanged_def CreateFileInfo_def withWritableDir_def Let_def Stat_def
     exec_def sendJob_def emit_def link_trace_def)

lemma link_run:
  "\<exists>w s. named (link_env w) \<and> (iter_step (link_env w) link_cfg)\<^sup>*\<^sup>* (Needed [sample_needed], startIteration []) (Needed [], s)
     \<and> itTrace s = link_trace"
proof -
  obtain w where w: "FileInfo_ToWire True sample_link = Ok w" "FileInfoFromDB (w\<lparr>wName := ''a''\<rparr>) = sample_link"
    using link_stored by blast
  have nm: "wName w = ''a''" using w(1) by (auto simp: FileInfo_ToWire_def Let_def split: if_splits)
  have n: "named (link_env w)" by (simp add: named_def link_lookup [OF w(2) nm])
  let ?s = "runItem (deleteFile (link_env w) link_cfg sample_needed) (startIteration [])"
  have "needItem (link_env w) link_cfg sample_needed (startIteration []) = Ok (None, ?s)"
    by (simp add: needItem_def handled_def R_IsIgnored_def)
  from iter_step.need_item [OF this]
  have "(iter_step (link_env w) link_cfg)\<^sup>*\<^sup>* (Needed [sample_needed], startIteration []) (Needed [], ?s)" by blast
  moreover have "itTrace ?s = link_trace"
    by (simp add: runItem_def runOn_def link_deleted [OF w(2) nm] startIteration_def)
  ultimately show ?thesis using n by blast
qed



end
